(* ===== verification/Prelude.thy ===== *)
theory Prelude
  imports Complex_Main "HOL-Library.Word" "HOL-Library.Sublist" "HOL-Library.Code_Target_Numeral"
begin

text \<open>
  The shared vocabulary of the development: the types every component uses, the collections of
  rules the component proofs draw on, and the generic facts about lists that several components
  need.

  Integers: a \<^theory_text>\<open>usize\<close> of the program is a length, an index or a byte offset of data held
  in memory, so it is a natural number here (no such value reaches the 64-bit bound; every
  subtraction that could go below zero is either guarded in the model or proved not to). Bytes and
  \<^theory_text>\<open>u32\<close> values are words, so their wrap-around is the machine's.

  Results: \<^theory_text>\<open>Result<T, E>\<close> is the sum type \<^theory_text>\<open>'e + 'a\<close>, with \<^theory_text>\<open>Inl\<close> for \<^theory_text>\<open>Err\<close> and
  \<^theory_text>\<open>Inr\<close> for \<^theory_text>\<open>Ok\<close>. A panic of the Rust code is a value as well (\<^theory_text>\<open>None\<close> in the string
  operations that can panic, a constructor of the error type in the tools), so that
  \<open>the code does not panic\<close> is a statement of the model.
\<close>

section \<open>Types\<close>

type_synonym byte = "8 word"
type_synonym u32 = "32 word"

text \<open>A Rust \<^theory_text>\<open>char\<close> is a Unicode scalar value; a \<^theory_text>\<open>str\<close> is a sequence of them.\<close>

type_synonym rchar = nat
type_synonym rstr = "nat list"

section \<open>Rule collections\<close>

named_theorems str_len_simps \<open>byte lengths of strings\<close>
named_theorems utf8_simps \<open>evaluation of UTF-8 encoding and decoding\<close>
named_theorems lit_simps \<open>evaluation of string literals and decimal numbers\<close>

section \<open>Lists\<close>

lemma sum_list_take_mono:
  fixes xs :: "nat list"
  assumes "i \<le> j"
  shows "sum_list (take i xs) \<le> sum_list (take j xs)"
proof -
  have "take j xs = take i xs @ take (j - i) (drop i xs)"
    using assms by (metis le_add_diff_inverse take_add)
  then show ?thesis by simp
qed

lemma sum_list_take_drop:
  fixes xs :: "nat list"
  shows "sum_list (take i xs) + sum_list (drop i xs) = sum_list xs"
  by (metis append_take_drop_id sum_list_append)

lemma take_drop_slice:
  assumes "i \<le> j"
  shows "take i xs @ take (j - i) (drop i xs) @ drop j xs = xs"
  using assms by (metis append.assoc append_take_drop_id le_add_diff_inverse take_add)

lemma drop_eq_Cons_nth:
  assumes "i < length xs"
  shows "drop i xs = xs ! i # drop (Suc i) xs"
  using assms by (simp add: Cons_nth_drop_Suc)

lemma sorted_wrt_adjacent:
  assumes "\<And>x y z. P x y \<Longrightarrow> P y z \<Longrightarrow> P x z"
    and "\<And>i. Suc i < length xs \<Longrightarrow> P (xs ! i) (xs ! Suc i)"
  shows "sorted_wrt P xs"
  using assms(2)
proof (induction xs)
  case Nil
  then show ?case by simp
next
  case (Cons x xs)
  have tl: "sorted_wrt P xs"
  proof (rule Cons.IH)
    fix i
    assume "Suc i < length xs"
    then show "P (xs ! i) (xs ! Suc i)" using Cons.prems [of "Suc i"] by simp
  qed
  have "\<forall>y \<in> set xs. P x y"
  proof (cases xs)
    case Nil
    then show ?thesis by simp
  next
    case (Cons z zs)
    have hd: "P x z" using Cons.prems [of 0] Cons by simp
    show ?thesis using tl hd Cons assms(1) by auto
  qed
  then show ?case using tl by simp
qed

lemma map_of_in_set_distinct:
  assumes "distinct (map fst xs)" and "(k, v) \<in> set xs"
  shows "map_of xs k = Some v"
  using assms by (simp add: map_of_eq_Some_iff)

end
