(* ===== verification/Rust_Str.thy ===== *)
theory Rust_Str
  imports Prelude
begin

text \<open>
  The part of Rust's string library the program uses, on strings as lists of Unicode scalar
  values. Byte offsets (\<^theory_text>\<open>str::len\<close>, \<^theory_text>\<open>match_indices\<close>, ranges, \<^theory_text>\<open>is_char_boundary\<close>) count the
  bytes of the UTF-8 encoding, as in Rust; a byte offset that is not a character boundary makes a
  slice panic, which is \<^theory_text>\<open>None\<close> here. The UTF-8 encoder and the strict decoder
  (\<^theory_text>\<open>String::from_utf8\<close>) are inverse to each other, which is what carries facts about text over
  to the bytes on disk.
\<close>

section \<open>Characters and byte lengths\<close>

definition scalar :: "rchar \<Rightarrow> bool" where
  "scalar c \<longleftrightarrow> c < 0x110000 \<and> \<not> (0xD800 \<le> c \<and> c < 0xE000)"

definition valid_str :: "rstr \<Rightarrow> bool" where
  "valid_str s = list_all scalar s"

definition len_utf8 :: "rchar \<Rightarrow> nat" where
  "len_utf8 c = (if c < 0x80 then 1 else if c < 0x800 then 2 else if c < 0x10000 then 3 else 4)"

definition str_len :: "rstr \<Rightarrow> nat" where
  "str_len s = sum_list (map len_utf8 s)"

definition is_ascii :: "rchar \<Rightarrow> bool" where
  "is_ascii c \<longleftrightarrow> c < 128"

lemma len_utf8_pos [simp]: "0 < len_utf8 c" "len_utf8 c \<noteq> 0"
  by (simp_all add: len_utf8_def)

lemma len_utf8_le: "len_utf8 c \<le> 4"
  by (simp add: len_utf8_def)

lemma len_utf8_ascii [simp]: "c < 128 \<Longrightarrow> len_utf8 c = 1"
  by (simp add: len_utf8_def)

lemma str_len_Nil [simp, str_len_simps]: "str_len [] = 0"
  by (simp add: str_len_def)

lemma str_len_Cons [simp, str_len_simps]: "str_len (c # s) = len_utf8 c + str_len s"
  by (simp add: str_len_def)

lemma str_len_append [simp, str_len_simps]: "str_len (s @ t) = str_len s + str_len t"
  by (simp add: str_len_def)

lemma str_len_0 [simp]: "str_len s = 0 \<longleftrightarrow> s = []"
  by (cases s) auto

lemma str_len_pos: "s \<noteq> [] \<Longrightarrow> 0 < str_len s"
  by (cases s) auto

lemma length_le_str_len: "length s \<le> str_len s"
proof (induction s)
  case Nil
  then show ?case by simp
next
  case (Cons c s)
  then show ?case using len_utf8_pos(1) [of c] by (simp del: len_utf8_pos)
qed

lemma str_len_concat: "str_len (concat ss) = sum_list (map str_len ss)"
  by (induction ss) auto

lemma str_len_take_mono: "i \<le> j \<Longrightarrow> str_len (take i s) \<le> str_len (take j s)"
  unfolding str_len_def by (simp add: take_map [symmetric] sum_list_take_mono)

lemma str_len_take_le: "str_len (take i s) \<le> str_len s"
  using str_len_take_mono [of i "max i (length s)" s] by simp

lemma str_len_take_drop: "str_len (take i s) + str_len (drop i s) = str_len s"
  by (metis append_take_drop_id str_len_append)

lemma str_len_take_Suc:
  "i < length s \<Longrightarrow> str_len (take (Suc i) s) = str_len (take i s) + len_utf8 (s ! i)"
  by (simp add: take_Suc_conv_app_nth)

lemma str_len_take_strict_mono:
  assumes "i < j" and "j \<le> length s"
  shows "str_len (take i s) < str_len (take j s)"
proof -
  have "str_len (take (Suc i) s) \<le> str_len (take j s)"
    using assms by (intro str_len_take_mono) simp
  moreover have "str_len (take i s) < str_len (take (Suc i) s)"
    using assms by (simp add: str_len_take_Suc)
  ultimately show ?thesis by simp
qed

lemma str_len_take_inj:
  assumes "str_len (take i s) = str_len (take j s)" and "i \<le> length s" and "j \<le> length s"
  shows "i = j"
  using assms str_len_take_strict_mono [of i j s] str_len_take_strict_mono [of j i s]
  by (metis less_irrefl nat_neq_iff)

lemma str_len_take_le_iff:
  assumes "i \<le> length s" and "j \<le> length s"
  shows "str_len (take i s) \<le> str_len (take j s) \<longleftrightarrow> i \<le> j"
  using assms str_len_take_mono [of i j s] str_len_take_strict_mono [of j i s]
  by (metis linorder_not_le)

lemma str_len_take_less_iff:
  assumes "i \<le> length s" and "j \<le> length s"
  shows "str_len (take i s) < str_len (take j s) \<longleftrightarrow> i < j"
  using str_len_take_le_iff [OF assms(2,1)] by (simp add: linorder_not_le [symmetric])

section \<open>Character boundaries and slices\<close>

text \<open>The index of the character that starts at a byte offset; \<^theory_text>\<open>None\<close> off a boundary.\<close>

fun char_index :: "rstr \<Rightarrow> nat \<Rightarrow> nat option" where
  "char_index [] b = (if b = 0 then Some 0 else None)"
| "char_index (c # s) b =
     (if b = 0 then Some 0
      else if b < len_utf8 c then None
      else map_option Suc (char_index s (b - len_utf8 c)))"

definition is_char_boundary :: "rstr \<Rightarrow> nat \<Rightarrow> bool" where
  "is_char_boundary s b \<longleftrightarrow> char_index s b \<noteq> None"

definition str_from :: "rstr \<Rightarrow> nat \<Rightarrow> rstr option" where
  "str_from s b = map_option (\<lambda>i. drop i s) (char_index s b)"

definition str_to :: "rstr \<Rightarrow> nat \<Rightarrow> rstr option" where
  "str_to s b = map_option (\<lambda>i. take i s) (char_index s b)"

text \<open>\<^theory_text>\<open>String::replace_range(a..b, t)\<close>: panics off a boundary or when the range is reversed.\<close>

definition replace_range :: "rstr \<Rightarrow> nat \<times> nat \<Rightarrow> rstr \<Rightarrow> rstr option" where
  "replace_range s r t =
     (case (char_index s (fst r), char_index s (snd r)) of
        (Some i, Some j) \<Rightarrow> if i \<le> j then Some (take i s @ t @ drop j s) else None
      | _ \<Rightarrow> None)"

lemma char_index_0 [simp]: "char_index s 0 = Some 0"
  by (cases s) auto

lemma char_index_take:
  assumes "i \<le> length s"
  shows "char_index s (str_len (take i s)) = Some i"
  using assms
proof (induction s arbitrary: i)
  case Nil
  then show ?case by simp
next
  case (Cons c s)
  then show ?case by (cases i) auto
qed

lemma char_index_length [simp]: "char_index s (str_len s) = Some (length s)"
  using char_index_take [of "length s" s] by simp

lemma char_index_SomeD:
  assumes "char_index s b = Some i"
  shows "i \<le> length s \<and> str_len (take i s) = b"
  using assms
proof (induction s b arbitrary: i rule: char_index.induct)
  case (1 b)
  then show ?case by (auto split: if_splits)
next
  case (2 c s b)
  show ?case
  proof (cases "b = 0")
    case True
    then show ?thesis using "2.prems" by simp
  next
    case False
    then have nlt: "\<not> b < len_utf8 c" using "2.prems" by (auto split: if_splits)
    then obtain k where k: "char_index s (b - len_utf8 c) = Some k" and i: "i = Suc k"
      using "2.prems" False by (auto split: if_splits)
    have "k \<le> length s \<and> str_len (take k s) = b - len_utf8 c"
      using "2.IH" [OF False nlt k] .
    then show ?thesis using i nlt by simp
  qed
qed

lemma char_index_eq_Some:
  "char_index s b = Some i \<longleftrightarrow> i \<le> length s \<and> str_len (take i s) = b"
  using char_index_SomeD char_index_take by blast

lemma is_char_boundary_iff:
  "is_char_boundary s b \<longleftrightarrow> (\<exists>i \<le> length s. str_len (take i s) = b)"
  unfolding is_char_boundary_def using char_index_eq_Some [of s b] by (cases "char_index s b") auto

lemma is_char_boundary_len [simp]: "is_char_boundary s (str_len s)"
  by (simp add: is_char_boundary_def)

lemma replace_range_chars:
  assumes "i \<le> j" and "j \<le> length s"
  shows "replace_range s (str_len (take i s), str_len (take j s)) t = Some (take i s @ t @ drop j s)"
  using assms by (simp add: replace_range_def char_index_take)

text \<open>Any \<^theory_text>\<open>4\<close> consecutive byte offsets inside a string hold a character boundary.\<close>

lemma boundary_near:
  assumes "b \<le> str_len s"
  shows "\<exists>b'. b \<le> b' \<and> b' < b + 4 \<and> b' \<le> str_len s \<and> is_char_boundary s b'"
  using assms
proof (induction s arbitrary: b)
  case Nil
  then show ?case by (auto simp: is_char_boundary_def)
next
  case (Cons c s)
  show ?case
  proof (cases "b < len_utf8 c")
    case True
    show ?thesis
    proof (cases "b = 0")
      case True
      then show ?thesis by (auto simp: is_char_boundary_def intro!: exI [of _ 0])
    next
      case False
      then have "is_char_boundary (c # s) (len_utf8 c)"
        by (simp add: is_char_boundary_def)
      moreover have "len_utf8 c < b + 4" using False len_utf8_le [of c] by simp
      ultimately show ?thesis using True by (intro exI [of _ "len_utf8 c"]) simp
    qed
  next
    case False
    have "b - len_utf8 c \<le> str_len s" using Cons.prems by simp
    then obtain b' where b': "b - len_utf8 c \<le> b'" "b' < b - len_utf8 c + 4" "b' \<le> str_len s"
      "is_char_boundary s b'"
      using Cons.IH [of "b - len_utf8 c"] by blast
    have "is_char_boundary (c # s) (b' + len_utf8 c)"
      using b'(4) by (auto simp: is_char_boundary_def)
    then show ?thesis using b' False by (intro exI [of _ "b' + len_utf8 c"]) auto
  qed
qed

section \<open>UTF-8\<close>

definition utf8_encode_char :: "rchar \<Rightarrow> byte list" where
  "utf8_encode_char c =
     (if c < 0x80 then [word_of_nat c]
      else if c < 0x800 then
        [word_of_nat (192 + c div 64), word_of_nat (128 + c mod 64)]
      else if c < 0x10000 then
        [word_of_nat (224 + c div 4096), word_of_nat (128 + c div 64 mod 64),
         word_of_nat (128 + c mod 64)]
      else
        [word_of_nat (240 + c div 262144), word_of_nat (128 + c div 4096 mod 64),
         word_of_nat (128 + c div 64 mod 64), word_of_nat (128 + c mod 64)])"

definition utf8_encode :: "rstr \<Rightarrow> byte list" where
  "utf8_encode s = concat (map utf8_encode_char s)"

definition is_cont :: "byte \<Rightarrow> bool" where
  "is_cont b \<longleftrightarrow> 128 \<le> unat b \<and> unat b < 192"

text \<open>One character: the scalar value and how many further bytes it takes.\<close>

definition utf8_step :: "byte \<Rightarrow> byte list \<Rightarrow> (rchar \<times> nat) option" where
  "utf8_step b bs =
     (let n = unat b in
      if n < 128 then Some (n, 0)
      else if 192 \<le> n \<and> n < 224 then
        (case bs of
           b1 # _ \<Rightarrow>
             (let c = (n - 192) * 64 + (unat b1 - 128)
              in if is_cont b1 \<and> 0x80 \<le> c then Some (c, 1) else None)
         | _ \<Rightarrow> None)
      else if 224 \<le> n \<and> n < 240 then
        (case bs of
           b1 # b2 # _ \<Rightarrow>
             (let c = (n - 224) * 4096 + (unat b1 - 128) * 64 + (unat b2 - 128)
              in if is_cont b1 \<and> is_cont b2 \<and> 0x800 \<le> c \<and> scalar c then Some (c, 2) else None)
         | _ \<Rightarrow> None)
      else if 240 \<le> n \<and> n < 248 then
        (case bs of
           b1 # b2 # b3 # _ \<Rightarrow>
             (let c = (n - 240) * 262144 + (unat b1 - 128) * 4096 + (unat b2 - 128) * 64
                       + (unat b3 - 128)
              in if is_cont b1 \<and> is_cont b2 \<and> is_cont b3 \<and> 0x10000 \<le> c \<and> scalar c
                 then Some (c, 3) else None)
         | _ \<Rightarrow> None)
      else None)"

text \<open>\<^theory_text>\<open>String::from_utf8\<close>, \<^theory_text>\<open>None\<close> for its error.\<close>

function utf8_decode :: "byte list \<Rightarrow> rstr option" where
  "utf8_decode [] = Some []"
| "utf8_decode (b # bs) =
     (case utf8_step b bs of
        None \<Rightarrow> None
      | Some (c, k) \<Rightarrow> map_option ((#) c) (utf8_decode (drop k bs)))"
  by pat_completeness auto
termination
  by (relation "measure length") auto

lemma utf8_encode_Nil [simp]: "utf8_encode [] = []"
  by (simp add: utf8_encode_def)

lemma utf8_encode_Cons [simp]: "utf8_encode (c # s) = utf8_encode_char c @ utf8_encode s"
  by (simp add: utf8_encode_def)

lemma utf8_encode_append [simp]: "utf8_encode (s @ t) = utf8_encode s @ utf8_encode t"
  by (simp add: utf8_encode_def)

lemma length_utf8_encode_char [simp]: "length (utf8_encode_char c) = len_utf8 c"
  by (simp add: utf8_encode_char_def len_utf8_def)

lemma length_utf8_encode [simp]: "length (utf8_encode s) = str_len s"
  by (induction s) auto

lemma valid_str_simps [simp]:
  "valid_str []"
  "valid_str (c # s) \<longleftrightarrow> scalar c \<and> valid_str s"
  "valid_str (s @ t) \<longleftrightarrow> valid_str s \<and> valid_str t"
  by (simp_all add: valid_str_def)

lemma valid_str_take [simp]: "valid_str s \<Longrightarrow> valid_str (take i s)"
  by (metis append_take_drop_id valid_str_simps(3))

lemma valid_str_drop [simp]: "valid_str s \<Longrightarrow> valid_str (drop i s)"
  by (metis append_take_drop_id valid_str_simps(3))

lemma unat_byte [simp]: "n < 256 \<Longrightarrow> unat (word_of_nat n :: byte) = n"
  by (simp add: unat_of_nat)

text \<open>
  A character of two to four bytes is determined by its base-64 digits; the next lemmas give the
  encoder and the decoder in terms of them.
\<close>

lemma digits_2:
  fixes c :: nat
  shows "c = c div 64 * 64 + c mod 64"
  by simp

lemma digits_3:
  fixes c :: nat
  shows "c = c div 4096 * 4096 + c div 64 mod 64 * 64 + c mod 64"
proof -
  have "c div 4096 = c div 64 div 64" by (simp add: div_mult2_eq [symmetric])
  then have "c div 64 = c div 4096 * 64 + c div 64 mod 64" by simp
  then have "c div 64 * 64 = c div 4096 * 4096 + c div 64 mod 64 * 64" by simp
  then show ?thesis using digits_2 [of c] by linarith
qed

lemma digits_4:
  fixes c :: nat
  shows "c = c div 262144 * 262144 + c div 4096 mod 64 * 4096 + c div 64 mod 64 * 64 + c mod 64"
proof -
  have "c div 262144 = c div 4096 div 64" by (simp add: div_mult2_eq [symmetric])
  then have "c div 4096 = c div 262144 * 64 + c div 4096 mod 64" by simp
  then have "c div 4096 * 4096 = c div 262144 * 262144 + c div 4096 mod 64 * 4096" by simp
  then show ?thesis using digits_3 [of c] by linarith
qed

lemma digits_2_unique:
  fixes a :: nat
  assumes "m < 64"
  shows "(a * 64 + m) div 64 = a" "(a * 64 + m) mod 64 = m"
  using assms by simp_all

lemma digits_3_unique:
  fixes a :: nat
  assumes "m1 < 64" "m2 < 64"
  shows "(a * 4096 + m1 * 64 + m2) div 4096 = a" "(a * 4096 + m1 * 64 + m2) div 64 mod 64 = m1"
    "(a * 4096 + m1 * 64 + m2) mod 64 = m2"
proof -
  have eq: "a * 4096 + m1 * 64 + m2 = (a * 64 + m1) * 64 + m2" by simp
  have q: "(a * 4096 + m1 * 64 + m2) div 64 = a * 64 + m1"
    unfolding eq using assms(2) by (rule digits_2_unique)
  show "(a * 4096 + m1 * 64 + m2) div 64 mod 64 = m1"
    unfolding q using assms(1) by (rule digits_2_unique)
  show "(a * 4096 + m1 * 64 + m2) mod 64 = m2"
    unfolding eq using assms(2) by (rule digits_2_unique)
  have "(a * 4096 + m1 * 64 + m2) div 4096 = (a * 4096 + m1 * 64 + m2) div 64 div 64"
    by (simp add: div_mult2_eq [symmetric])
  also have "\<dots> = a" unfolding q using assms(1) by (rule digits_2_unique)
  finally show "(a * 4096 + m1 * 64 + m2) div 4096 = a" .
qed

lemma digits_4_unique:
  fixes a :: nat
  assumes "m1 < 64" "m2 < 64" "m3 < 64"
  shows "(a * 262144 + m1 * 4096 + m2 * 64 + m3) div 262144 = a"
    "(a * 262144 + m1 * 4096 + m2 * 64 + m3) div 4096 mod 64 = m1"
    "(a * 262144 + m1 * 4096 + m2 * 64 + m3) div 64 mod 64 = m2"
    "(a * 262144 + m1 * 4096 + m2 * 64 + m3) mod 64 = m3"
proof -
  let ?c = "a * 262144 + m1 * 4096 + m2 * 64 + m3"
  have eq: "?c = (a * 64 + m1) * 4096 + m2 * 64 + m3" by simp
  have q: "?c div 4096 = a * 64 + m1"
    unfolding eq using assms(2,3) by (rule digits_3_unique)
  show "?c div 4096 mod 64 = m1" unfolding q using assms(1) by (rule digits_2_unique)
  show "?c div 64 mod 64 = m2" unfolding eq using assms(2,3) by (rule digits_3_unique)
  show "?c mod 64 = m3" unfolding eq using assms(2,3) by (rule digits_3_unique)
  have "?c div 262144 = ?c div 4096 div 64" by (simp add: div_mult2_eq [symmetric])
  also have "\<dots> = a" unfolding q using assms(1) by (rule digits_2_unique)
  finally show "?c div 262144 = a" .
qed

lemma encode_char_2:
  assumes "m < 64" "a < 32" "0x80 \<le> a * 64 + m"
  shows "utf8_encode_char (a * 64 + m) = [word_of_nat (192 + a), word_of_nat (128 + m)]"
  using assms digits_2_unique [OF assms(1), of a]
  by (simp add: utf8_encode_char_def del: of_nat_add)

lemma encode_char_3:
  assumes "m1 < 64" "m2 < 64" "a < 16" "0x800 \<le> a * 4096 + m1 * 64 + m2"
  shows "utf8_encode_char (a * 4096 + m1 * 64 + m2) =
    [word_of_nat (224 + a), word_of_nat (128 + m1), word_of_nat (128 + m2)]"
  unfolding utf8_encode_char_def digits_3_unique [OF assms(1,2), of a] using assms
  by (simp del: of_nat_add)

lemma encode_char_4:
  assumes "m1 < 64" "m2 < 64" "m3 < 64" "0x10000 \<le> a * 262144 + m1 * 4096 + m2 * 64 + m3"
  shows "utf8_encode_char (a * 262144 + m1 * 4096 + m2 * 64 + m3) =
    [word_of_nat (240 + a), word_of_nat (128 + m1), word_of_nat (128 + m2), word_of_nat (128 + m3)]"
  unfolding utf8_encode_char_def digits_4_unique [OF assms(1,2,3), of a] using assms
  by (simp del: of_nat_add)

lemma utf8_step_1: "unat b < 128 \<Longrightarrow> utf8_step b bs = Some (unat b, 0)"
  by (simp add: utf8_step_def)

lemma utf8_step_2:
  assumes "unat b = 192 + a" "a < 32" "unat b1 = 128 + m" "m < 64"
  shows "utf8_step b (b1 # bs) =
    (if 0x80 \<le> a * 64 + m then Some (a * 64 + m, 1) else None)"
  using assms by (simp add: utf8_step_def is_cont_def)

lemma utf8_step_3:
  assumes "unat b = 224 + a" "a < 16" "unat b1 = 128 + m1" "m1 < 64" "unat b2 = 128 + m2" "m2 < 64"
  shows "utf8_step b (b1 # b2 # bs) =
    (let c = a * 4096 + m1 * 64 + m2
     in if 0x800 \<le> c \<and> scalar c then Some (c, 2) else None)"
  using assms by (simp add: utf8_step_def is_cont_def)

lemma utf8_step_4:
  assumes "unat b = 240 + a" "a < 8" "unat b1 = 128 + m1" "m1 < 64" "unat b2 = 128 + m2" "m2 < 64"
    "unat b3 = 128 + m3" "m3 < 64"
  shows "utf8_step b (b1 # b2 # b3 # bs) =
    (let c = a * 262144 + m1 * 4096 + m2 * 64 + m3
     in if 0x10000 \<le> c \<and> scalar c then Some (c, 3) else None)"
  using assms by (simp add: utf8_step_def is_cont_def)

text \<open>The decoder reads back one encoded character, whatever follows it.\<close>

lemma utf8_step_encode:
  assumes "scalar c"
  shows "\<exists>b bs. utf8_encode_char c = b # bs \<and> utf8_step b (bs @ rest) = Some (c, length bs)"
proof -
  have le: "c < 0x110000" using assms by (simp add: scalar_def)
  consider "c < 0x80" | "0x80 \<le> c" "c < 0x800" | "0x800 \<le> c" "c < 0x10000" | "0x10000 \<le> c"
    by linarith
  then show ?thesis
  proof cases
    case 1
    then show ?thesis by (simp add: utf8_encode_char_def utf8_step_1)
  next
    case 2
    define a m where "a = c div 64" and "m = c mod 64"
    have c: "c = a * 64 + m" unfolding a_def m_def by (rule digits_2)
    have "a < 32" "m < 64" using 2 by (simp_all add: a_def m_def)
    then show ?thesis using 2 unfolding c
      by (simp add: encode_char_2 utf8_step_2 [where a = a and m = m] del: of_nat_add)
  next
    case 3
    define a m1 m2 where "a = c div 4096" and "m1 = c div 64 mod 64" and "m2 = c mod 64"
    have c: "c = a * 4096 + m1 * 64 + m2" unfolding a_def m1_def m2_def by (rule digits_3)
    have "a < 16" "m1 < 64" "m2 < 64" using 3 by (simp_all add: a_def m1_def m2_def)
    then show ?thesis using 3 assms unfolding c
      by (simp add: encode_char_3 utf8_step_3 [where a = a and ?m1.0 = m1 and ?m2.0 = m2]
        del: of_nat_add)
  next
    case 4
    define a m1 m2 m3 where "a = c div 262144" and "m1 = c div 4096 mod 64"
      and "m2 = c div 64 mod 64" and "m3 = c mod 64"
    have c: "c = a * 262144 + m1 * 4096 + m2 * 64 + m3"
      unfolding a_def m1_def m2_def m3_def by (rule digits_4)
    have "a < 8" "m1 < 64" "m2 < 64" "m3 < 64"
      using le by (simp_all add: a_def m1_def m2_def m3_def)
    then show ?thesis using 4 assms unfolding c
      by (simp add: encode_char_4
        utf8_step_4 [where a = a and ?m1.0 = m1 and ?m2.0 = m2 and ?m3.0 = m3] del: of_nat_add)
  qed
qed

lemma utf8_decode_encode:
  assumes "valid_str s"
  shows "utf8_decode (utf8_encode s) = Some s"
  using assms
proof (induction s)
  case Nil
  then show ?case by simp
next
  case (Cons c s)
  obtain b bs where "utf8_encode_char c = b # bs"
    "utf8_step b (bs @ utf8_encode s) = Some (c, length bs)"
    using utf8_step_encode [of c "utf8_encode s"] Cons.prems by auto
  then show ?case using Cons by simp
qed

text \<open>Conversely, what the decoder accepts is the encoding of what it returns.\<close>

lemma byte_of_unat: "unat b = n \<Longrightarrow> word_of_nat n = (b :: byte)"
  by (metis word_unat_eq_iff of_nat_unat ucast_id)

lemma is_contE:
  assumes "is_cont b"
  obtains m where "unat b = 128 + m" "m < 64"
proof
  have "128 \<le> unat b" "unat b < 192" using assms by (simp_all add: is_cont_def)
  then show "unat b = 128 + (unat b - 128)" "unat b - 128 < 64" by linarith+
qed

lemma utf8_step_sound:
  assumes "utf8_step b bs = Some (c, k)"
  shows "scalar c \<and> k \<le> length bs \<and> utf8_encode_char c = b # take k bs"
proof -
  consider "unat b < 128" | "192 \<le> unat b" "unat b < 224" | "224 \<le> unat b" "unat b < 240"
    | "240 \<le> unat b" "unat b < 248"
    using assms by (auto simp: utf8_step_def Let_def split: if_splits)
  then show ?thesis
  proof cases
    case 1
    then have "c = unat b" "k = 0" using assms by (simp_all add: utf8_step_1)
    then show ?thesis using 1 by (simp add: utf8_encode_char_def scalar_def)
  next
    case 2
    then obtain b1 r where bs: "bs = b1 # r" and "is_cont b1"
      using assms by (auto simp: utf8_step_def Let_def split: list.splits if_splits)
    then obtain m where m: "unat b1 = 128 + m" "m < 64" by (metis is_contE)
    obtain a where a: "unat b = 192 + a" "a < 32"
      using 2 that [of "unat b - 192"] by simp
    have c: "c = a * 64 + m" "k = 1" "0x80 \<le> a * 64 + m"
      using assms unfolding bs utf8_step_2 [OF a m] by (simp_all split: if_splits)
    have "a * 64 + m < 2048" using a m by simp
    then show ?thesis
      unfolding c(1) encode_char_2 [OF m(2) a(2) c(3)] using a m bs c
      by (simp add: scalar_def byte_of_unat del: of_nat_add)
  next
    case 3
    then obtain b1 b2 r where bs: "bs = b1 # b2 # r" and "is_cont b1" "is_cont b2"
      using assms by (auto simp: utf8_step_def Let_def split: list.splits if_splits)
    then obtain m1 m2 where m: "unat b1 = 128 + m1" "m1 < 64" "unat b2 = 128 + m2" "m2 < 64"
      by (metis is_contE)
    obtain a where a: "unat b = 224 + a" "a < 16"
      using 3 that [of "unat b - 224"] by simp
    have c: "c = a * 4096 + m1 * 64 + m2" "k = 2" "0x800 \<le> a * 4096 + m1 * 64 + m2" "scalar c"
      using assms unfolding bs utf8_step_3 [OF a m] by (simp_all add: Let_def split: if_splits)
    show ?thesis
      unfolding c(1) encode_char_3 [OF m(2,4) a(2) c(3)] using a m bs c
      by (simp add: byte_of_unat numeral_2_eq_2 del: of_nat_add)
  next
    case 4
    then obtain b1 b2 b3 r where bs: "bs = b1 # b2 # b3 # r" and "is_cont b1" "is_cont b2"
        "is_cont b3"
      using assms by (auto simp: utf8_step_def Let_def split: list.splits if_splits)
    then obtain m1 m2 m3 where m: "unat b1 = 128 + m1" "m1 < 64" "unat b2 = 128 + m2" "m2 < 64"
      "unat b3 = 128 + m3" "m3 < 64"
      by (metis is_contE)
    obtain a where a: "unat b = 240 + a" "a < 8"
      using 4 that [of "unat b - 240"] by simp
    have c: "c = a * 262144 + m1 * 4096 + m2 * 64 + m3" "k = 3"
      "0x10000 \<le> a * 262144 + m1 * 4096 + m2 * 64 + m3" "scalar c"
      using assms unfolding bs utf8_step_4 [OF a m] by (simp_all add: Let_def split: if_splits)
    show ?thesis
      unfolding c(1) encode_char_4 [OF m(2,4,6) c(3)] using a m bs c
      by (simp add: byte_of_unat numeral_3_eq_3 del: of_nat_add)
  qed
qed

lemma utf8_encode_decode:
  assumes "utf8_decode bs = Some s"
  shows "utf8_encode s = bs \<and> valid_str s"
  using assms
proof (induction bs arbitrary: s rule: utf8_decode.induct)
  case 1
  then show ?case by simp
next
  case (2 b bs)
  then obtain c k t where st: "utf8_step b bs = Some (c, k)"
    and t: "utf8_decode (drop k bs) = Some t" and s: "s = c # t"
    by (auto split: option.splits)
  have "utf8_encode t = drop k bs \<and> valid_str t"
    using "2.IH" [OF st _ t] by simp
  moreover have "scalar c \<and> utf8_encode_char c = b # take k bs"
    using utf8_step_sound [OF st] by simp
  ultimately show ?case using s by simp
qed

lemma utf8_encode_inj:
  assumes "valid_str s" "valid_str t" "utf8_encode s = utf8_encode t"
  shows "s = t"
  using assms by (metis utf8_decode_encode option.inject)

section \<open>Searching, replacing, splitting\<close>

text \<open>
  \<^theory_text>\<open>str::match_indices\<close> with a string pattern: the byte offsets of the matches found from left to
  right, each search resuming after the previous match, so matches never overlap. The empty
  pattern matches at every boundary.
\<close>

function match_indices_from :: "rstr \<Rightarrow> nat \<Rightarrow> rstr \<Rightarrow> nat list" where
  "match_indices_from pat off [] = (if pat = [] then [off] else [])"
| "match_indices_from pat off (c # s) =
     (if pat = [] then off # match_indices_from pat (off + len_utf8 c) s
      else if prefix pat (c # s)
      then off # match_indices_from pat (off + str_len pat) (drop (length pat) (c # s))
      else match_indices_from pat (off + len_utf8 c) s)"
  by pat_completeness auto
termination
  by (relation "measure (\<lambda>(pat, off, s). length s)") (auto simp: neq_Nil_conv)

definition match_indices :: "rstr \<Rightarrow> rstr \<Rightarrow> nat list" where
  "match_indices s pat = match_indices_from pat 0 s"

text \<open>\<^theory_text>\<open>s.matches(pat).count()\<close>\<close>

definition matches_count :: "rstr \<Rightarrow> rstr \<Rightarrow> nat" where
  "matches_count s pat = length (match_indices s pat)"

text \<open>\<^theory_text>\<open>str::replace\<close>\<close>

function str_replace :: "rstr \<Rightarrow> rstr \<Rightarrow> rstr \<Rightarrow> rstr" where
  "str_replace pat t [] = (if pat = [] then t else [])"
| "str_replace pat t (c # s) =
     (if pat = [] then t @ c # str_replace pat t s
      else if prefix pat (c # s) then t @ str_replace pat t (drop (length pat) (c # s))
      else c # str_replace pat t s)"
  by pat_completeness auto
termination
  by (relation "measure (\<lambda>(pat, t, s). length s)") (auto simp: neq_Nil_conv)

text \<open>\<^theory_text>\<open>str::split_inclusive\<close> with a character: every piece but perhaps the last ends in it.\<close>

fun split_inclusive :: "rchar \<Rightarrow> rstr \<Rightarrow> rstr list" where
  "split_inclusive p [] = []"
| "split_inclusive p (c # s) =
     (if c = p then [c] # split_inclusive p s
      else (case split_inclusive p s of [] \<Rightarrow> [[c]] | l # ls \<Rightarrow> (c # l) # ls))"

lemma concat_split_inclusive [simp]: "concat (split_inclusive p s) = s"
  by (induction s) (auto split: list.splits)

lemma prefix_singleton [simp]: "prefix [p] s \<longleftrightarrow> s \<noteq> [] \<and> hd s = p"
  by (cases s) auto

lemma split_inclusive_Nil_iff [simp]: "split_inclusive p s = [] \<longleftrightarrow> s = []"
  by (cases s) (auto split: list.splits)

lemma length_split_inclusive_le: "length (split_inclusive p s) \<le> length s"
  by (induction s) (auto split: list.splits)

lemma sum_str_len_split [simp]: "sum_list (map str_len (split_inclusive p s)) = str_len s"
  by (simp add: str_len_concat [symmetric])

lemma split_inclusive_nonempty: "l \<in> set (split_inclusive p s) \<Longrightarrow> l \<noteq> []"
  by (induction s) (auto split: list.splits if_splits)

text \<open>Splitting what a run of pieces from the front or from the back concatenates to.\<close>

lemma split_inclusive_Cons_other:
  assumes "c \<noteq> p" and "l \<noteq> []" and "split_inclusive p (l @ r) = l # ls"
  shows "split_inclusive p (c # l @ r) = (c # l) # ls"
  using assms by simp

lemma split_inclusive_concat_drop:
  "split_inclusive p (concat (drop i (split_inclusive p s))) = drop i (split_inclusive p s)"
proof (induction s arbitrary: i)
  case Nil
  then show ?case by simp
next
  case (Cons c s)
  show ?case
  proof (cases i)
    case 0
    then show ?thesis by (simp only: drop_0 concat_split_inclusive)
  next
    case (Suc k)
    then show ?thesis
      using Cons.IH [of k] Cons.IH [of i] by (auto split: list.splits)
  qed
qed

lemma split_inclusive_concat_take:
  "split_inclusive p (concat (take i (split_inclusive p s))) = take i (split_inclusive p s)"
proof (induction s arbitrary: i)
  case Nil
  then show ?case by simp
next
  case (Cons c s)
  show ?case
  proof (cases i)
    case 0
    then show ?thesis by simp
  next
    case (Suc k)
    show ?thesis
    proof (cases "c = p \<or> s = []")
      case True
      then show ?thesis using Cons.IH [of k] Suc by auto
    next
      case False
      then obtain l ls where l: "split_inclusive p s = l # ls"
        by (cases "split_inclusive p s") auto
      then have "split_inclusive p (l @ concat (take k ls)) = l # take k ls"
        using Cons.IH [of i] Suc by simp
      moreover have "l \<noteq> []" using l split_inclusive_nonempty [of l p s] by simp
      ultimately show ?thesis using False l Suc split_inclusive_Cons_other by simp
    qed
  qed
qed

lemma split_inclusive_append:
  "s \<noteq> [] \<Longrightarrow> last s = p \<Longrightarrow> split_inclusive p (s @ r) = split_inclusive p s @ split_inclusive p r"
proof (induction s)
  case (Cons c s)
  show ?case
  proof (cases "s = []")
    case False
    then have "split_inclusive p (s @ r) = split_inclusive p s @ split_inclusive p r" "split_inclusive p s \<noteq> []"
      using Cons by simp_all
    then show ?thesis by (cases "split_inclusive p s") simp_all
  qed (use Cons.prems in simp)
qed simp

text \<open>The separator occurs at the end of a piece only.\<close>

lemma split_inclusive_inner: "l \<in> set (split_inclusive p s) \<Longrightarrow> p \<notin> set (butlast l)"
  by (induction s arbitrary: l) (auto split: list.splits if_splits)

lemma split_inclusive_last:
  "i + 1 < length (split_inclusive p s) \<Longrightarrow> last (split_inclusive p s ! i) = p"
proof (induction s arbitrary: i)
  case Nil
  then show ?case by simp
next
  case (Cons c s)
  show ?case
  proof (cases "c = p")
    case True
    then show ?thesis using Cons by (cases i) auto
  next
    case False
    show ?thesis
    proof (cases "split_inclusive p s")
      case Nil
      then show ?thesis using Cons.prems False by simp
    next
      case (Cons l ls)
      then have "l \<noteq> []" using split_inclusive_nonempty [of l p s] by simp
      then show ?thesis
        using Cons.IH [of i] Cons.prems False Cons by (cases i) auto
    qed
  qed
qed

text \<open>
  A reported match is an occurrence; matches do not overlap; and every occurrence overlaps the
  match that was reported at or before it.
\<close>

lemma match_indices_from_sound:
  assumes "b \<in> set (match_indices_from pat off s)" and "pat \<noteq> []"
  shows "\<exists>i \<le> length s. b = off + str_len (take i s) \<and> prefix pat (drop i s)"
  using assms
proof (induction pat off s rule: match_indices_from.induct)
  case (1 pat off)
  then show ?case by simp
next
  case (2 pat off c s)
  show ?case
  proof (cases "prefix pat (c # s)")
    case True
    then have le: "length pat \<le> length (c # s)" and tk: "take (length pat) (c # s) = pat"
      using prefix_length_le [OF True] True by (auto simp: prefix_def)
    have "b = off \<or> b \<in> set (match_indices_from pat (off + str_len pat) (drop (length pat) (c # s)))"
      using "2.prems" True by simp
    then show ?thesis
    proof
      assume "b = off"
      then show ?thesis using True by (intro exI [of _ 0]) simp
    next
      assume b: "b \<in> set (match_indices_from pat (off + str_len pat) (drop (length pat) (c # s)))"
      obtain i where i: "i \<le> length (drop (length pat) (c # s))"
        "b = off + str_len pat + str_len (take i (drop (length pat) (c # s)))"
        "prefix pat (drop i (drop (length pat) (c # s)))"
        using "2.IH"(2) [OF "2.prems"(2) True b "2.prems"(2)] by blast
      have "str_len (take (length pat + i) (c # s)) =
        str_len pat + str_len (take i (drop (length pat) (c # s)))"
        unfolding take_add tk by simp
      moreover have "prefix pat (drop (length pat + i) (c # s))"
        using i(3) by (simp add: add.commute)
      ultimately show ?thesis using i le by (intro exI [of _ "length pat + i"]) auto
    qed
  next
    case False
    then have "b \<in> set (match_indices_from pat (off + len_utf8 c) s)" using "2.prems" by simp
    then obtain i where "i \<le> length s" "b = off + len_utf8 c + str_len (take i s)"
      "prefix pat (drop i s)"
      using "2.IH"(3) [OF "2.prems"(2) False] "2.prems"(2) by blast
    then show ?thesis by (intro exI [of _ "Suc i"]) simp
  qed
qed

lemma match_indices_from_complete:
  assumes "prefix pat (drop i s)" and "pat \<noteq> []" and "i \<le> length s"
  shows "\<exists>j \<le> i. off + str_len (take j s) \<in> set (match_indices_from pat off s) \<and> i < j + length pat"
  using assms
proof (induction pat off s arbitrary: i rule: match_indices_from.induct)
  case (1 pat off)
  then show ?case by simp
next
  case (2 pat off c s)
  show ?case
  proof (cases "prefix pat (c # s)")
    case True
    then have le: "length pat \<le> length (c # s)" and tk: "take (length pat) (c # s) = pat"
      using prefix_length_le [OF True] True by (auto simp: prefix_def)
    show ?thesis
    proof (cases "i < length pat")
      case True
      then show ?thesis using \<open>prefix pat (c # s)\<close> "2.prems" by (intro exI [of _ 0]) simp
    next
      case False
      let ?r = "drop (length pat) (c # s)"
      have ii: "length pat + (i - length pat) = i" using False by simp
      have pr: "prefix pat (drop (i - length pat) ?r)"
        using "2.prems"(1) ii by (metis add.commute drop_drop)
      have lr: "i - length pat \<le> length ?r" using "2.prems"(3) by simp
      obtain j where j: "j \<le> i - length pat"
        "off + str_len pat + str_len (take j ?r) \<in> set (match_indices_from pat (off + str_len pat) ?r)"
        "i - length pat < j + length pat"
        using "2.IH"(2) [OF "2.prems"(2) True pr "2.prems"(2) lr] by blast
      have "str_len (take (length pat + j) (c # s)) = str_len pat + str_len (take j ?r)"
        unfolding take_add tk by simp
      then show ?thesis using j False True "2.prems"(2)
        by (intro exI [of _ "length pat + j"]) (simp add: add.assoc, linarith)
    qed
  next
    case False
    then obtain k where i: "i = Suc k" using "2.prems"(1) by (cases i) auto
    then obtain j where "j \<le> k" "off + len_utf8 c + str_len (take j s) \<in>
        set (match_indices_from pat (off + len_utf8 c) s)" "k < j + length pat"
      using "2.IH"(3) [OF "2.prems"(2) False, of k] "2.prems" by auto
    then show ?thesis using False i "2.prems"(2)
      by (intro exI [of _ "Suc j"]) (simp add: add.assoc)
  qed
qed

lemma match_indices_from_ge: "b \<in> set (match_indices_from pat off s) \<Longrightarrow> off \<le> b"
  by (induction pat off s rule: match_indices_from.induct)
    (auto split: if_splits dest: add_leD1)

lemma match_indices_from_apart:
  assumes "pat \<noteq> []"
  shows "sorted_wrt (\<lambda>x y. x + str_len pat \<le> y) (match_indices_from pat off s)"
  using assms
  by (induction pat off s rule: match_indices_from.induct) (auto dest: match_indices_from_ge)

lemma match_indices_sound:
  assumes "b \<in> set (match_indices s pat)" and "pat \<noteq> []"
  shows "\<exists>i \<le> length s. b = str_len (take i s) \<and> prefix pat (drop i s)"
  using match_indices_from_sound [of b pat 0 s] assms by (simp add: match_indices_def)

lemma match_indices_complete:
  assumes "prefix pat (drop i s)" and "pat \<noteq> []" and "i \<le> length s"
  shows "\<exists>j \<le> i. str_len (take j s) \<in> set (match_indices s pat) \<and> i < j + length pat"
  using match_indices_from_complete [OF assms, of 0] by (simp add: match_indices_def)

lemma match_indices_Nil:
  assumes "match_indices s pat = []" and "pat \<noteq> []" and "i \<le> length s"
  shows "\<not> prefix pat (drop i s)"
  using match_indices_complete [OF _ assms(2,3)] assms(1) by auto

section \<open>Literals and numbers\<close>

text \<open>An ASCII string literal, and a number in decimal as \<^theory_text>\<open>format!("{}")\<close> prints it.\<close>

definition lit :: "string \<Rightarrow> rstr" where
  "lit s = map of_char s"

fun dec :: "nat \<Rightarrow> rstr" where
  "dec n = (if n < 10 then [48 + n] else dec (n div 10) @ [48 + n mod 10])"

declare dec.simps [simp del]

lemmas lit_eval [lit_simps] = lit_def dec.simps

lemma lit_append: "lit (s @ t) = lit s @ lit t"
  by (simp add: lit_def)

lemma dec_nonempty [simp]: "dec n \<noteq> []"
  by (subst dec.simps) simp

lemma dec_digits: "d \<in> set (dec n) \<Longrightarrow> 48 \<le> d \<and> d < 58"
proof (induction n rule: dec.induct)
  case (1 n)
  then show ?case
    by (cases "n < 10") (auto simp: dec.simps [of n] set_append)
qed

text \<open>Different numbers print differently, so a message names the number it was built from.\<close>

fun undec :: "nat \<Rightarrow> rstr \<Rightarrow> nat" where
  "undec a [] = a"
| "undec a (d # ds) = undec (10 * a + (d - 48)) ds"

lemma undec_append: "undec a (s @ t) = undec (undec a s) t"
  by (induction s arbitrary: a) auto

lemma undec_dec: "undec 0 (dec n) = n"
proof (induction n rule: dec.induct)
  case (1 n)
  show ?case
  proof (cases "n < 10")
    case True
    then show ?thesis by (simp add: dec.simps [of n])
  next
    case False
    then have "undec 0 (dec n) = 10 * undec 0 (dec (n div 10)) + n mod 10"
      by (simp add: dec.simps [of n] undec_append)
    then show ?thesis using "1.IH" False by simp
  qed
qed

lemma dec_inject [simp]: "dec m = dec n \<longleftrightarrow> m = n"
  by (metis undec_dec)

section \<open>Prefixes, suffixes, white space\<close>

definition nl :: rchar where "nl = 10"
definition cr :: rchar where "cr = 13"

lemma cr_neq_nl [simp]: "cr \<noteq> nl" "nl \<noteq> cr"
  by (simp_all add: cr_def nl_def)

text \<open>\<^theory_text>\<open>char::is_whitespace\<close>: the Unicode property \<open>White_Space\<close>.\<close>

definition is_whitespace :: "rchar \<Rightarrow> bool" where
  "is_whitespace c \<longleftrightarrow>
     (9 \<le> c \<and> c \<le> 13) \<or> c = 0x20 \<or> c = 0x85 \<or> c = 0xA0 \<or> c = 0x1680 \<or>
     (0x2000 \<le> c \<and> c \<le> 0x200A) \<or> c = 0x2028 \<or> c = 0x2029 \<or> c = 0x202F \<or> c = 0x205F \<or> c = 0x3000"

definition trim_start :: "rstr \<Rightarrow> rstr" where
  "trim_start s = dropWhile is_whitespace s"

text \<open>\<^theory_text>\<open>trim_end_matches\<close> with a predicate on characters.\<close>

definition trim_end_by :: "(rchar \<Rightarrow> bool) \<Rightarrow> rstr \<Rightarrow> rstr" where
  "trim_end_by p s = rev (dropWhile p (rev s))"

definition trim :: "rstr \<Rightarrow> rstr" where
  "trim s = trim_end_by is_whitespace (trim_start s)"

definition strip_prefix :: "rstr \<Rightarrow> rstr \<Rightarrow> rstr option" where
  "strip_prefix s p = (if prefix p s then Some (drop (length p) s) else None)"

lemma strip_prefix_eq_Some: "strip_prefix s p = Some t \<longleftrightarrow> s = p @ t"
  by (auto simp: strip_prefix_def prefix_def)

lemma trim_end_by_Nil_iff [simp]: "trim_end_by p s = [] \<longleftrightarrow> (\<forall>c \<in> set s. p c)"
  by (simp add: trim_end_by_def)

lemma trim_start_all: "(\<forall>c \<in> set (trim_start s). is_whitespace c) \<longleftrightarrow> (\<forall>c \<in> set s. is_whitespace c)"
  unfolding trim_start_def by (induction s) auto

lemma trim_Nil_iff: "trim s = [] \<longleftrightarrow> (\<forall>c \<in> set s. is_whitespace c)"
  by (simp add: trim_def trim_start_all)

lemma trim_end_by_prefix: "prefix (trim_end_by p s) s"
  unfolding trim_end_by_def
  by (metis rev_rev_ident suffix_dropWhile suffix_to_prefix)

lemma trim_end_by_snoc: "trim_end_by p (s @ [c]) = (if p c then trim_end_by p s else s @ [c])"
  by (simp add: trim_end_by_def)

lemma trim_end_by_last: "trim_end_by p s \<noteq> [] \<Longrightarrow> \<not> p (last (trim_end_by p s))"
  unfolding trim_end_by_def by (simp add: last_rev hd_dropWhile)

end
