(* ===== verification/Str_Split.thy ===== *)
theory Str_Split
  imports Rust_Str
begin

text \<open>
  The \<^theory_text>\<open>str\<close> methods that take a string apart: \<^theory_text>\<open>split\<close>, \<^theory_text>\<open>split_once\<close>, \<^theory_text>\<open>rsplit_once\<close>,
  \<^theory_text>\<open>lines\<close>, \<^theory_text>\<open>split_whitespace\<close> and the \<^theory_text>\<open>trim_*_matches\<close> family. Each is a recursion over the
  characters and has a lemma that puts the pieces together again.
\<close>

section \<open>Splitting at a character\<close>

fun split_char :: "rchar \<Rightarrow> rstr \<Rightarrow> rstr list" where
  "split_char d [] = [[]]"
| "split_char d (c # s) =
     (if c = d then [] # split_char d s
      else case split_char d s of [] \<Rightarrow> [[c]] | w # ws \<Rightarrow> (c # w) # ws)"

fun join_char :: "rchar \<Rightarrow> rstr list \<Rightarrow> rstr" where
  "join_char d [] = []"
| "join_char d [w] = w"
| "join_char d (w # v # ws) = w @ d # join_char d (v # ws)"

lemma split_char_nonempty [simp]: "split_char d s \<noteq> []"
  by (induction s) (auto split: list.splits)

lemma join_char_Cons: "join_char d ((c # w) # ws) = c # join_char d (w # ws)"
  by (cases ws) auto

lemma join_split_char: "join_char d (split_char d s) = s"
proof (induction s)
  case (Cons c s)
  obtain w ws where "split_char d s = w # ws" by (meson neq_Nil_conv split_char_nonempty)
  then show ?case using Cons by (auto simp: join_char_Cons)
qed simp

lemma split_char_free: "w \<in> set (split_char d s) \<Longrightarrow> d \<notin> set w"
  by (induction s arbitrary: w) (auto split: list.splits if_splits)

lemma split_char_word: "d \<notin> set w \<Longrightarrow> split_char d w = [w]"
  by (induction w) auto

lemma split_char_append: "d \<notin> set w \<Longrightarrow> split_char d (w @ d # s) = w # split_char d s"
  by (induction w) auto

section \<open>Splitting once\<close>

fun split_once :: "rstr \<Rightarrow> rstr \<Rightarrow> (rstr \<times> rstr) option" where
  "split_once pat [] = (if pat = [] then Some ([], []) else None)"
| "split_once pat (c # s) =
     (if prefix pat (c # s) then Some ([], drop (length pat) (c # s))
      else map_option (\<lambda>(a, b). (c # a, b)) (split_once pat s))"

lemma split_once_Some: "split_once pat s = Some (a, b) \<Longrightarrow> s = a @ pat @ b"
  by (induction s arbitrary: a) (auto simp: prefix_def split: if_splits)

text \<open>The first occurrence is where the pattern's first character occurs first.\<close>

lemma split_once_first:
  assumes "p \<notin> set a"
  shows "split_once (p # pat) (a @ (p # pat) @ b) = Some (a, b)"
  using assms by (induction a) auto

definition rsplit_once :: "rchar \<Rightarrow> rstr \<Rightarrow> (rstr \<times> rstr) option" where
  "rsplit_once d s =
     (if d \<in> set s
      then Some (rev (tl (dropWhile (\<lambda>c. c \<noteq> d) (rev s))), rev (takeWhile (\<lambda>c. c \<noteq> d) (rev s)))
      else None)"

lemma rsplit_once_None [simp]: "rsplit_once d s = None \<longleftrightarrow> d \<notin> set s"
  by (simp add: rsplit_once_def)

lemma rsplit_once_intro: "d \<notin> set b \<Longrightarrow> rsplit_once d (a @ d # b) = Some (a, b)"
proof -
  assume "d \<notin> set b"
  then have "\<forall>c \<in> set (rev b). c \<noteq> d" by auto
  then have "takeWhile (\<lambda>c. c \<noteq> d) (rev b @ d # rev a) = rev b"
    "dropWhile (\<lambda>c. c \<noteq> d) (rev b @ d # rev a) = d # rev a"
    by (subst takeWhile_append2 dropWhile_append2; simp)+
  then show ?thesis by (simp add: rsplit_once_def)
qed

lemma rsplit_once_Some: "rsplit_once d s = Some (a, b) \<longleftrightarrow> s = a @ d # b \<and> d \<notin> set b"
proof
  assume *: "rsplit_once d s = Some (a, b)"
  then have "d \<in> set s" by (auto simp: rsplit_once_def split: if_splits)
  then obtain x y where "s = x @ d # y" "d \<notin> set y"
    by (meson split_list_last)
  then show "s = a @ d # b \<and> d \<notin> set b" using * rsplit_once_intro by fastforce
qed (auto intro: rsplit_once_intro)

section \<open>Trimming by a character\<close>

definition trim_start_matches :: "(rchar \<Rightarrow> bool) \<Rightarrow> rstr \<Rightarrow> rstr" where
  "trim_start_matches p s = dropWhile p s"

definition trim_matches :: "(rchar \<Rightarrow> bool) \<Rightarrow> rstr \<Rightarrow> rstr" where
  "trim_matches p s = trim_end_by p (trim_start_matches p s)"

lemma trim_start_matches_eq:
  obtains n where "s = replicate n d @ trim_start_matches (\<lambda>c. c = d) s"
proof -
  have "takeWhile (\<lambda>c. c = d) s = replicate (length (takeWhile (\<lambda>c. c = d) s)) d"
    by (rule replicate_eqI) (auto dest: set_takeWhileD)
  then show thesis using that by (metis takeWhile_dropWhile_id trim_start_matches_def)
qed

lemma trim_end_by_eq:
  obtains n where "s = trim_end_by (\<lambda>c. c = d) s @ replicate n d"
proof -
  obtain n where "rev s = replicate n d @ dropWhile (\<lambda>c. c = d) (rev s)"
    using trim_start_matches_eq [of "rev s" d] by (auto simp: trim_start_matches_def)
  then have "s = rev (dropWhile (\<lambda>c. c = d) (rev s)) @ replicate n d"
    by (metis rev_append rev_replicate rev_rev_ident)
  then show thesis using that by (simp add: trim_end_by_def)
qed

lemma trim_start_matches_replicate:
  "trim_start_matches (\<lambda>c. c = d) (replicate n d @ s) = trim_start_matches (\<lambda>c. c = d) s"
  by (induction n) (auto simp: trim_start_matches_def)

lemma trim_end_by_replicate:
  "trim_end_by (\<lambda>c. c = d) (s @ replicate n d) = trim_end_by (\<lambda>c. c = d) s"
  using trim_start_matches_replicate [of d n "rev s"]
  by (simp add: trim_end_by_def trim_start_matches_def)

section \<open>Lines and words\<close>

text \<open>\<^theory_text>\<open>str::lines\<close>: the pieces that end with a newline, without it and without a CR before it.\<close>

definition strip_eol :: "rstr \<Rightarrow> rstr" where
  "strip_eol w =
     (if w \<noteq> [] \<and> last w = nl
      then (let v = butlast w in if v \<noteq> [] \<and> last v = cr then butlast v else v)
      else w)"

definition str_lines :: "rstr \<Rightarrow> rstr list" where
  "str_lines s = map strip_eol (split_inclusive nl s)"

function split_whitespace :: "rstr \<Rightarrow> rstr list" where
  "split_whitespace s =
     (let s' = trim_start s in
      if s' = [] then []
      else takeWhile (\<lambda>c. \<not> is_whitespace c) s'
             # split_whitespace (dropWhile (\<lambda>c. \<not> is_whitespace c) s'))"
  by pat_completeness auto
termination
proof (relation "measure length", simp)
  fix s s' :: rstr
  assume s': "s' = trim_start s" "s' \<noteq> []"
  then have "\<not> is_whitespace (hd s')" by (simp add: trim_start_def hd_dropWhile)
  then have "dropWhile (\<lambda>c. \<not> is_whitespace c) s' = dropWhile (\<lambda>c. \<not> is_whitespace c) (tl s')"
    using s'(2) s'(1) [symmetric] by (cases s') auto
  then have "length (dropWhile (\<lambda>c. \<not> is_whitespace c) s') < length s'"
    using length_dropWhile_le [of "\<lambda>c. \<not> is_whitespace c" "tl s'"] s'(2)
    by (simp add: less_Suc_eq_le [symmetric])
  also have "length s' \<le> length s" using s' by (simp add: trim_start_def length_dropWhile_le)
  finally show "(dropWhile (\<lambda>c. \<not> is_whitespace c) s', s) \<in> measure length" by simp
qed

declare split_whitespace.simps [simp del]

lemma split_whitespace_word:
  "w \<in> set (split_whitespace s) \<Longrightarrow> w \<noteq> [] \<and> (\<forall>c \<in> set w. \<not> is_whitespace c)"
proof (induction s rule: split_whitespace.induct)
  case (1 s)
  let ?t = "trim_start s"
  show ?case
  proof (cases "?t = []")
    case True
    then show ?thesis using "1.prems" by (simp add: split_whitespace.simps [of s])
  next
    case False
    then have hd: "\<not> is_whitespace (hd ?t)" by (simp add: trim_start_def hd_dropWhile)
    have "w = takeWhile (\<lambda>c. \<not> is_whitespace c) ?t
        \<or> w \<in> set (split_whitespace (dropWhile (\<lambda>c. \<not> is_whitespace c) ?t))"
      using "1.prems" False by (auto simp: split_whitespace.simps [of s] Let_def)
    then show ?thesis
    proof
      assume "w = takeWhile (\<lambda>c. \<not> is_whitespace c) ?t"
      then show ?thesis using hd False by (cases ?t) (auto dest: set_takeWhileD)
    qed (use "1.IH" [OF refl False] in blast)
  qed
qed

end
