(* ===== verification/F64.thy ===== *)
theory F64
  imports Rust_Str
begin

text \<open>
  The part of \<^theory_text>\<open>f64\<close> and of \<^theory_text>\<open>std::time::Duration\<close> the program uses: parsing a decimal,
  multiplying by a unit, the conversion to a duration, and printing with a fixed number of
  decimals. A finite value is a sign and a fraction of natural numbers; \<open>round_f64\<close> is the
  rounding of an exact result to 53 bits, ties to even, with gradual underflow and overflow to
  infinity. A duration is a number of nanoseconds.
\<close>

section \<open>Rounding\<close>

text \<open>
  The quotient \<open>a / b\<close> rounded to the nearest integer, ties to even: what printing a float with a
  fixed number of decimals does to an exact binary fraction.
\<close>

definition round_half_even :: "nat \<Rightarrow> nat \<Rightarrow> nat" where
  "round_half_even a b =
     (let q = a div b; r = a mod b
      in if 2 * r < b \<or> 2 * r = b \<and> even q then q else q + 1)"

lemma round_half_even_exact [simp]: "0 < b \<Longrightarrow> round_half_even (n * b) b = n"
  by (simp add: round_half_even_def)

lemma round_half_even_near:
  assumes "0 < b"
  shows "2 * (round_half_even a b * b) \<le> 2 * a + b" "2 * a \<le> 2 * (round_half_even a b * b) + b"
proof -
  obtain q r where q: "q = a div b" and r: "r = a mod b" by blast
  have a: "a = q * b + r" using q r by simp
  have "r < b" using r assms by simp
  moreover have "round_half_even a b = q \<and> 2 * r \<le> b \<or> round_half_even a b = q + 1 \<and> b \<le> 2 * r"
    using q r by (auto simp: round_half_even_def Let_def)
  ultimately show "2 * (round_half_even a b * b) \<le> 2 * a + b"
    "2 * a \<le> 2 * (round_half_even a b * b) + b"
    unfolding a by (auto simp: distrib_right)
qed

fun bits :: "nat \<Rightarrow> nat" where
  "bits n = (if n = 0 then 0 else Suc (bits (n div 2)))"

declare bits.simps [simp del]

lemma bits_le: "n < 2 ^ k \<Longrightarrow> bits n \<le> k"
proof (induction k arbitrary: n)
  case (Suc k)
  then show ?case by (subst bits.simps) (auto simp: less_mult_imp_div_less)
qed (simp add: bits.simps)

section \<open>Values\<close>

datatype f64 = Fin bool nat nat | Infinite bool | NaN

text \<open>The exponent of the last bit kept of the positive fraction \<open>a / b\<close>.\<close>

definition last_bit :: "nat \<Rightarrow> nat \<Rightarrow> int" where
  "last_bit a b =
     (let t = (if 0 < a div b then int (bits (a div b)) else 1 - int (bits ((b - 1) div a)))
      in max (t - 53) (- 1074))"

definition round_f64 :: "bool \<Rightarrow> nat \<Rightarrow> nat \<Rightarrow> f64" where
  "round_f64 neg a b =
     (if a = 0 then Fin neg 0 1
      else (let e = last_bit a b
            in if 0 \<le> e
               then (let m = round_half_even a (b * 2 ^ nat e)
                     in if 1024 < bits m + nat e then Infinite neg else Fin neg (m * 2 ^ nat e) 1)
               else Fin neg (round_half_even (a * 2 ^ nat (- e)) b) (2 ^ nat (- e))))"

fun is_finite :: "f64 \<Rightarrow> bool" where
  "is_finite (Fin neg a b) = True"
| "is_finite _ = False"

text \<open>Comparison of a finite value with zero, which does not see the sign of a zero.\<close>

fun positive :: "f64 \<Rightarrow> bool" where
  "positive (Fin neg a b) = (\<not> neg \<and> 0 < a)"
| "positive (Infinite neg) = (\<not> neg)"
| "positive NaN = False"

fun times_nat :: "f64 \<Rightarrow> nat \<Rightarrow> f64" where
  "times_nat (Fin neg a b) k = round_f64 neg (a * k) b"
| "times_nat x k = x"

text \<open>A value that is the natural number \<open>n\<close>.\<close>

fun is_nat_value :: "f64 \<Rightarrow> nat \<Rightarrow> bool" where
  "is_nat_value (Fin neg a b) n = (\<not> neg \<and> 0 < b \<and> a = n * b)"
| "is_nat_value _ n = False"

lemma round_f64_nat:
  assumes "0 < b" and "n < 2 ^ 53"
  shows "is_nat_value (round_f64 False (n * b) b) n"
proof (cases "n = 0")
  case False
  define j where "j = 53 - bits n"
  have "bits n \<le> 53" using assms bits_le by blast
  then have e: "last_bit (n * b) b = - int j"
    using assms False by (simp add: last_bit_def j_def)
  have "round_half_even (n * b * 2 ^ j) b = n * 2 ^ j"
    using round_half_even_exact [OF assms(1), of "n * 2 ^ j"] by (simp add: ac_simps)
  then show ?thesis using False assms e \<open>bits n \<le> 53\<close> by (cases "j = 0") (auto simp: round_f64_def)
qed (simp add: round_f64_def)

lemma times_nat_exact:
  assumes "is_nat_value x n" and "n * k < 2 ^ 53"
  shows "is_nat_value (times_nat x k) (n * k)"
proof (cases x)
  case (Fin neg a b)
  then have *: "\<not> neg" "0 < b" "a = n * b" using assms(1) by auto
  then have ak: "a * k = n * k * b" by simp
  have t: "times_nat x k = round_f64 neg (a * k) b" using Fin by simp
  show ?thesis unfolding t ak using *(1) round_f64_nat [OF *(2) assms(2)] by simp
qed (use assms in auto)

section \<open>Parsing\<close>

definition is_digit :: "rchar \<Rightarrow> bool" where
  "is_digit c \<longleftrightarrow> 48 \<le> c \<and> c \<le> 57"

text \<open>
  \<^theory_text>\<open>str::parse::<f64>\<close> on a string without ASCII letters, the only kind the program parses: no
  exponent, no \<open>inf\<close>, no \<open>nan\<close>.
\<close>

definition parse_decimal :: "bool \<Rightarrow> rstr \<Rightarrow> f64 option" where
  "parse_decimal neg s =
     (let whole = takeWhile is_digit s; rest = dropWhile is_digit s;
          frac = (case rest of c # r \<Rightarrow> if c = 46 then Some r else None | [] \<Rightarrow> Some [])
      in case frac of
           None \<Rightarrow> None
         | Some fr \<Rightarrow>
             if list_all is_digit fr \<and> whole @ fr \<noteq> []
             then Some (round_f64 neg (undec 0 (whole @ fr)) (10 ^ length fr))
             else None)"

definition parse_f64 :: "rstr \<Rightarrow> f64 option" where
  "parse_f64 s =
     (case s of
        [] \<Rightarrow> None
      | c # r \<Rightarrow> if c = 45 then parse_decimal True r
                 else if c = 43 then parse_decimal False r
                 else parse_decimal False s)"

lemma dec_is_digit: "list_all is_digit (dec n)"
  using dec_digits by (fastforce simp: list_all_iff is_digit_def)

lemma parse_f64_dec:
  assumes "n < 2 ^ 53"
  obtains x where "parse_f64 (dec n) = Some x" "is_nat_value x n"
proof -
  have d: "takeWhile is_digit (dec n) = dec n" "dropWhile is_digit (dec n) = []"
    using dec_is_digit [of n] by (auto simp: list_all_iff takeWhile_eq_all_conv dropWhile_eq_Nil_conv)
  have "hd (dec n) \<in> set (dec n)" by simp
  then have "hd (dec n) \<noteq> 45" "hd (dec n) \<noteq> 43" using dec_digits [of "hd (dec n)" n] by auto
  then have "parse_f64 (dec n) = parse_decimal False (dec n)"
    by (cases "dec n") (auto simp: parse_f64_def)
  also have "\<dots> = Some (round_f64 False n 1)"
    by (simp add: parse_decimal_def d undec_dec)
  finally show thesis using that round_f64_nat [of 1 n] assms by simp
qed

section \<open>Durations\<close>

text \<open>\<^theory_text>\<open>Duration::from_secs_f64\<close>, which panics when the seconds do not fit in 64 bits.\<close>

type_synonym duration = nat

definition from_secs :: "nat \<Rightarrow> duration" where
  "from_secs s = s * 10 ^ 9"

fun from_secs_f64 :: "f64 \<Rightarrow> duration option" where
  "from_secs_f64 (Fin neg a b) =
     (if neg \<and> 0 < a \<or> 2 ^ 64 * b \<le> a then None else Some (round_half_even (a * 10 ^ 9) b))"
| "from_secs_f64 _ = None"

lemma from_secs_f64_nat:
  assumes "is_nat_value x n" and "n < 2 ^ 64"
  shows "from_secs_f64 x = Some (from_secs n)"
proof (cases x)
  case (Fin neg a b)
  then have x: "\<not> neg" "0 < b" "a = n * b" using assms(1) by auto
  have "round_half_even (n * b * 10 ^ 9) b = n * 10 ^ 9"
    using round_half_even_exact [OF x(2), of "n * 10 ^ 9"] by (simp add: ac_simps)
  moreover have "\<not> 2 ^ 64 * b \<le> n * b" using assms(2) x(2) by simp
  ultimately show ?thesis using x Fin by (simp add: from_secs_def del: mult_le_cancel2)
qed (use assms in auto)

lemma is_nat_value_positive: "is_nat_value x n \<Longrightarrow> positive x \<longleftrightarrow> 0 < n"
  by (cases x) auto

lemma is_nat_value_finite: "is_nat_value x n \<Longrightarrow> is_finite x"
  by (cases x) auto

text \<open>\<^theory_text>\<open>Duration::as_secs_f64\<close>: the whole seconds and the rest are rounded, and so is their sum.\<close>

definition as_secs_f64 :: "duration \<Rightarrow> f64" where
  "as_secs_f64 d =
     (case (round_f64 False (d div 10 ^ 9) 1, round_f64 False (d mod 10 ^ 9) (10 ^ 9)) of
        (Fin _ a b, Fin _ c e) \<Rightarrow> round_f64 False (a * e + c * b) (b * e)
      | (x, _) \<Rightarrow> x)"

lemma as_secs_f64_from_secs:
  assumes "n < 2 ^ 53"
  shows "is_nat_value (as_secs_f64 (from_secs n)) n"
proof -
  have "is_nat_value (round_f64 False (n * 1) 1) n" using assms by (intro round_f64_nat) simp
  then obtain a b where ab: "round_f64 False n 1 = Fin False a b" "0 < b" "a = n * b"
    by (cases "round_f64 False n 1") auto
  have "round_f64 False 0 (10 ^ 9) = Fin False 0 1" by (simp add: round_f64_def)
  then have "as_secs_f64 (from_secs n) = round_f64 False (n * b) b"
    using ab by (simp add: as_secs_f64_def from_secs_def)
  then show ?thesis using round_f64_nat [OF ab(2) assms] by simp
qed

text \<open>Evaluation by the simplifier, whose numerals are binary.\<close>

lemmas f64_eval =
  parse_f64_def parse_decimal_def is_digit_def round_f64_def last_bit_def bits.simps
  round_half_even_def Let_def

end
