(* ===== verification/Ip_Addr.thy ===== *)
theory Ip_Addr
  imports F64
begin

text \<open>
  \<^theory_text>\<open>std::net::IpAddr\<close> and its parser, which decides whether \<^theory_text>\<open>MCPOD_HOST\<close> is accepted: four
  decimal octets without leading zeros, or the colon form of IPv6 with at most one \<open>::\<close> and an
  optional embedded IPv4 address at the end.
\<close>

datatype ip_addr = V4 "byte list" | V6 "16 word list"

definition to_digit :: "nat \<Rightarrow> rchar \<Rightarrow> nat option" where
  "to_digit radix c =
     (let d = (if 48 \<le> c \<and> c \<le> 57 then c - 48
               else if 97 \<le> c \<and> c \<le> 102 then c - 87
               else if 65 \<le> c \<and> c \<le> 70 then c - 55
               else radix)
      in if d < radix then Some d else None)"

text \<open>At most \<open>digits\<close> digits with a value up to \<open>bound\<close>, and what follows.\<close>

definition read_number :: "nat \<Rightarrow> nat \<Rightarrow> bool \<Rightarrow> nat \<Rightarrow> rstr \<Rightarrow> (nat \<times> rstr) option" where
  "read_number radix digits zero_prefix bound s =
     (let ds = takeWhile (\<lambda>c. to_digit radix c \<noteq> None) s;
          v = foldl (\<lambda>a c. a * radix + the (to_digit radix c)) 0 ds
      in if ds = [] \<or> digits < length ds \<or> \<not> zero_prefix \<and> hd ds = 48 \<and> 1 < length ds \<or> bound < v
         then None else Some (v, drop (length ds) s))"

text \<open>A part that is preceded by a separator, except for the first.\<close>

definition read_separator ::
  "rchar \<Rightarrow> nat \<Rightarrow> (rstr \<Rightarrow> ('a \<times> rstr) option) \<Rightarrow> rstr \<Rightarrow> ('a \<times> rstr) option" where
  "read_separator sep i inner s =
     (if i = 0 then inner s
      else case s of [] \<Rightarrow> None | c # r \<Rightarrow> if c = sep then inner r else None)"

fun read_octets :: "nat \<Rightarrow> nat \<Rightarrow> rstr \<Rightarrow> (nat list \<times> rstr) option" where
  "read_octets i 0 s = Some ([], s)"
| "read_octets i (Suc k) s =
     (case read_separator 46 i (read_number 10 3 False 255) s of
        None \<Rightarrow> None
      | Some (v, r) \<Rightarrow> map_option (\<lambda>(vs, r'). (v # vs, r')) (read_octets (i + 1) k r))"

definition read_ipv4 :: "rstr \<Rightarrow> (nat list \<times> rstr) option" where
  "read_ipv4 s = read_octets 0 4 s"

text \<open>
  Groups of an IPv6 address from number \<open>i\<close> on, with room for \<open>k\<close>; the flag says that the last
  two were an embedded IPv4 address.
\<close>

fun read_groups :: "nat \<Rightarrow> nat \<Rightarrow> rstr \<Rightarrow> nat list \<times> bool \<times> rstr" where
  "read_groups i 0 s = ([], False, s)"
| "read_groups i (Suc k) s =
     (case (if k = 0 then None else read_separator 58 i read_ipv4 s) of
        Some (os, r) \<Rightarrow> ([os ! 0 * 256 + os ! 1, os ! 2 * 256 + os ! 3], True, r)
      | None \<Rightarrow>
          (case read_separator 58 i (read_number 16 4 True 65535) s of
             None \<Rightarrow> ([], False, s)
           | Some (g, r) \<Rightarrow> (let (gs, f, r') = read_groups (i + 1) k r in (g # gs, f, r'))))"

definition read_ipv6 :: "rstr \<Rightarrow> (nat list \<times> rstr) option" where
  "read_ipv6 s =
     (let (front, ipv4, r) = read_groups 0 8 s
      in if length front = 8 then Some (front, r)
         else if ipv4 then None
         else case strip_prefix r (lit ''::'') of
             None \<Rightarrow> None
           | Some r' \<Rightarrow>
               (let (back, _, r'') = read_groups 0 (8 - (length front + 1)) r'
                in Some (front @ replicate (8 - length front - length back) 0 @ back, r'')))"

definition parse_ip_addr :: "rstr \<Rightarrow> ip_addr option" where
  "parse_ip_addr s =
     (case (case read_ipv4 s of
              Some (os, r) \<Rightarrow> Some (V4 (map of_nat os), r)
            | None \<Rightarrow> map_option (\<lambda>(gs, r). (V6 (map of_nat gs), r)) (read_ipv6 s)) of
        Some (a, []) \<Rightarrow> Some a
      | _ \<Rightarrow> None)"

text \<open>The addresses that only this machine can reach.\<close>

definition is_loopback :: "ip_addr \<Rightarrow> bool" where
  "is_loopback a = (case a of V4 os \<Rightarrow> hd os = 127 | V6 gs \<Rightarrow> gs = replicate 7 0 @ [1])"

lemma parse_ip_examples:
  "parse_ip_addr (lit ''127.0.0.1'') = Some (V4 [127, 0, 0, 1])"
  "parse_ip_addr (lit ''::1'') = Some (V6 [0, 0, 0, 0, 0, 0, 0, 1])"
  "parse_ip_addr (lit ''fe80::1:192.0.2.1'') = Some (V6 [0xfe80, 0, 0, 0, 0, 1, 0xc000, 0x0201])"
  "parse_ip_addr (lit ''127.0.0.01'') = None"
  "parse_ip_addr (lit ''localhost'') = None"
  by code_simp+

end
