(* ===== verification/Paths.thy ===== *)
theory Paths
  imports Rust_Str
begin

text \<open>
  Rust's \<^theory_text>\<open>std::path\<close> on Unix, as far as the program uses it. A \<^theory_text>\<open>Path\<close> is modelled by its
  components, the view on which \<^theory_text>\<open>Path\<close> defines equality, \<^theory_text>\<open>starts_with\<close>, \<^theory_text>\<open>parent\<close>,
  \<^theory_text>\<open>file_name\<close>, \<^theory_text>\<open>join\<close> and \<^theory_text>\<open>pop\<close>. Names are valid Unicode here; a name that is not
  is outside the model.
\<close>

section \<open>Components\<close>

datatype component = RootDir | CurDir | ParentDir | Normal rstr

type_synonym path = "component list"
type_synonym fpath = "rstr list"    \<comment> \<open>the names of an absolute path without dots or links\<close>

definition slash :: rchar where
  "slash = 47"

definition dot :: rstr where
  "dot = [46]"

definition dotdot :: rstr where
  "dotdot = [46, 46]"

text \<open>The pieces between slashes.\<close>

fun split_slash :: "rstr \<Rightarrow> rstr list" where
  "split_slash [] = [[]]"
| "split_slash (c # s) =
     (if c = slash then [] # split_slash s
      else case split_slash s of
          [] \<Rightarrow> [[c]]
        | w # ws \<Rightarrow> (c # w) # ws)"

fun component_of :: "rstr \<Rightarrow> component" where
  "component_of w = (if w = dotdot then ParentDir else Normal w)"

definition is_absolute :: "rstr \<Rightarrow> bool" where
  "is_absolute s \<longleftrightarrow> (case s of [] \<Rightarrow> False | c # _ \<Rightarrow> c = slash)"

text \<open>
  \<^theory_text>\<open>Path::components\<close>: repeated and trailing slashes vanish, and so does \<open>.\<close> except at the start
  of a relative path.
\<close>

definition components :: "rstr \<Rightarrow> path" where
  "components s =
     (let ws = split_slash s;
          rest = map component_of (filter (\<lambda>w. w \<noteq> [] \<and> w \<noteq> dot) ws)
      in if is_absolute s then RootDir # rest
         else if hd ws = dot then CurDir # rest
         else rest)"

section \<open>Operations\<close>

definition abs_path :: "fpath \<Rightarrow> path" where
  "abs_path names = RootDir # map Normal names"

definition path_join :: "path \<Rightarrow> rstr \<Rightarrow> path" where
  "path_join p s =
     (if is_absolute s then components s else p @ filter (\<lambda>c. c \<noteq> CurDir) (components s))"

definition path_starts_with :: "path \<Rightarrow> path \<Rightarrow> bool" where
  "path_starts_with p base = (take (length base) p = base)"

definition path_parent :: "path \<Rightarrow> path option" where
  "path_parent p = (if p = [] \<or> last p = RootDir then None else Some (butlast p))"

definition path_file_name :: "path \<Rightarrow> rstr option" where
  "path_file_name p =
     (if p = [] then None else case last p of Normal n \<Rightarrow> Some n | _ \<Rightarrow> None)"

text \<open>\<^theory_text>\<open>PathBuf::push\<close> of one component; pushing the root directory replaces the path.\<close>

definition path_push :: "path \<Rightarrow> component \<Rightarrow> path" where
  "path_push p c = (if c = RootDir then [RootDir] else p @ [c])"

text \<open>The string of an absolute path (\<^theory_text>\<open>Path::display\<close>).\<close>

fun component_str :: "component \<Rightarrow> rstr" where
  "component_str RootDir = []"
| "component_str CurDir = dot"
| "component_str ParentDir = dotdot"
| "component_str (Normal n) = n"

fun join_slash :: "rstr list \<Rightarrow> rstr" where
  "join_slash [] = []"
| "join_slash [w] = w"
| "join_slash (w # ws) = w @ [slash] @ join_slash ws"

definition path_display :: "path \<Rightarrow> rstr" where
  "path_display p =
     (if p = [RootDir] then [slash] else join_slash (map component_str p))"

section \<open>Basic facts\<close>

lemma path_starts_with_prefix: "path_starts_with p base \<longleftrightarrow> prefix base p"
  unfolding path_starts_with_def by (metis append_eq_conv_conj append_take_drop_id prefix_def)

lemma abs_path_inject [simp]: "abs_path a = abs_path b \<longleftrightarrow> a = b"
  by (auto simp: abs_path_def dest: map_injective intro: injI)

lemma prefix_map_Normal [simp]: "prefix (map Normal a) (map Normal b) \<longleftrightarrow> prefix a b"
proof
  assume "prefix (map Normal a) (map Normal b)"
  then have "map Normal a = take (length a) (map Normal b)"
    by (metis append_eq_conv_conj length_map prefix_def)
  then have "map Normal a = map Normal (take (length a) b)" by (simp add: take_map)
  then have "a = take (length a) b" by (rule map_injective) (simp add: inj_def)
  then show "prefix a b" by (metis take_is_prefix)
qed (auto simp: prefix_def)

lemma prefix_abs_path [simp]: "prefix (abs_path a) (abs_path b) \<longleftrightarrow> prefix a b"
  by (simp add: abs_path_def)

lemma abs_path_push [simp]: "path_push (abs_path p) (Normal n) = abs_path (p @ [n])"
  by (simp add: path_push_def abs_path_def)

lemma path_parent_abs [simp]:
  "path_parent (abs_path p) = (if p = [] then None else Some (abs_path (butlast p)))"
  by (simp add: path_parent_def abs_path_def map_butlast last_map)

lemma path_file_name_abs [simp]:
  "path_file_name (abs_path p) = (if p = [] then None else Some (last p))"
  by (simp add: path_file_name_def abs_path_def last_map)

lemma components_absolute:
  "is_absolute s \<Longrightarrow> \<exists>rest. components s = RootDir # rest \<and> RootDir \<notin> set rest \<and> CurDir \<notin> set rest"
  by (auto simp: components_def Let_def split: if_splits)

lemma components_relative:
  "\<not> is_absolute s \<Longrightarrow> RootDir \<notin> set (components s)"
  by (auto simp: components_def Let_def split: if_splits)

lemma path_join_absolute:
  "\<exists>rest. path_join (abs_path base) s = RootDir # rest \<and> RootDir \<notin> set rest \<and> CurDir \<notin> set rest"
  using components_absolute [of s] components_relative [of s]
  by (auto simp: path_join_def abs_path_def)

text \<open>Printing the components of a parsed absolute path and parsing them again changes nothing.\<close>

definition plain_name :: "rstr \<Rightarrow> bool" where
  "plain_name w \<longleftrightarrow> w \<noteq> [] \<and> w \<noteq> dot \<and> w \<noteq> dotdot \<and> slash \<notin> set w"

lemma split_slash_nonempty: "split_slash s \<noteq> []"
  by (induction s) (auto split: list.splits)

lemma split_slash_no_slash: "w \<in> set (split_slash s) \<Longrightarrow> slash \<notin> set w"
  by (induction s arbitrary: w) (auto split: if_splits list.splits)

lemma split_slash_word: "slash \<notin> set w \<Longrightarrow> split_slash w = [w]"
  by (induction w) auto

lemma split_slash_append:
  "slash \<notin> set w \<Longrightarrow> split_slash (w @ slash # s) = w # split_slash s"
  by (induction w) auto

lemma split_join_slash:
  assumes "ws \<noteq> []" and "\<forall>w \<in> set ws. slash \<notin> set w"
  shows "split_slash (join_slash ws) = ws"
  using assms
  by (induction ws rule: join_slash.induct) (auto simp: split_slash_word split_slash_append)

lemma components_display_abs:
  assumes "\<forall>w \<in> set names. plain_name w"
  shows "components (path_display (abs_path names)) = abs_path names"
proof (cases names)
  case Nil
  then show ?thesis by (simp add: components_def path_display_def abs_path_def is_absolute_def)
next
  case (Cons a as)
  let ?s = "join_slash ([] # names)"
  have disp: "path_display (abs_path names) = ?s"
    using Cons by (simp add: path_display_def abs_path_def comp_def)
  have split: "split_slash ?s = [] # names"
    using assms by (intro split_join_slash) (auto simp: plain_name_def)
  have abs: "is_absolute ?s" using Cons by (simp add: is_absolute_def)
  have "filter (\<lambda>w. w \<noteq> [] \<and> w \<noteq> dot) names = names"
    using assms by (intro filter_True) (auto simp: plain_name_def)
  moreover have "map component_of names = map Normal names"
    using assms by (auto simp: plain_name_def)
  ultimately show ?thesis unfolding disp components_def Let_def split using abs
    by (simp add: abs_path_def)
qed

lemma components_plain:
  assumes "Normal w \<in> set (components s)"
  shows "plain_name w"
  using assms split_slash_no_slash [of w s]
  by (auto simp: components_def Let_def plain_name_def split: if_splits)

end
