(* ===== verification/File_System.thy ===== *)
theory File_System
  imports Paths
begin

text \<open>
  The part of the operating system the file tools talk to: a tree of directories, files and
  symbolic links, path lookup with the kernel's limit on links (also the limit of
  \<^theory_text>\<open>realpath(3)\<close>, which \<^theory_text>\<open>Path::canonicalize\<close> calls), and the calls of \<^theory_text>\<open>std::fs\<close> and
  \<^theory_text>\<open>tokio::fs\<close> that the program makes. Permissions are not modelled, and a name may be any text
  without a slash: that the kernel refuses names with a zero byte and names that are too long (the
  temporary name is some twenty bytes longer than the name of the target) is not a property of the
  tree. The failures a call can have for such reasons are given to the operations as faults where
  they matter.
\<close>

section \<open>Nodes and errors\<close>

datatype node = File "byte list" | Dir | Link rstr

type_synonym fs = "fpath \<rightharpoonup> node"

datatype io_error = ENOENT | EEXIST | ENOTDIR | EISDIR | ELOOP | ENOSPC | EIO | EINVAL

fun io_error_text :: "io_error \<Rightarrow> rstr" where
  "io_error_text ENOENT = lit ''No such file or directory (os error 2)''"
| "io_error_text EEXIST = lit ''File exists (os error 17)''"
| "io_error_text ENOTDIR = lit ''Not a directory (os error 20)''"
| "io_error_text EISDIR = lit ''Is a directory (os error 21)''"
| "io_error_text ELOOP = lit ''Too many levels of symbolic links (os error 40)''"
| "io_error_text ENOSPC = lit ''No space left on device (os error 28)''"
| "io_error_text EIO = lit ''Input/output error (os error 5)''"
| "io_error_text EINVAL = lit ''Invalid argument (os error 22)''"

text \<open>A tree: the root is a directory and every node lies in a directory, under a plain name.\<close>

definition wf_fs :: "fs \<Rightarrow> bool" where
  "wf_fs fs \<longleftrightarrow> fs [] = Some Dir \<and>
     (\<forall>p n. fs (p @ [n]) \<noteq> None \<longrightarrow> fs p = Some Dir \<and> plain_name n)"

section \<open>Path lookup\<close>

definition max_links :: nat where
  "max_links = 40"

text \<open>
  Lookup of the components \<open>cs\<close> from the directory \<open>cur\<close>, with \<open>n\<close> links left. The flag says
  whether a missing last component is an error or the place of a file to be created
  (\<^theory_text>\<open>O_CREAT\<close>, which follows a dangling link).
\<close>

function walk :: "fs \<Rightarrow> bool \<Rightarrow> nat \<Rightarrow> fpath \<Rightarrow> path \<Rightarrow> io_error + nat \<times> fpath" where
  "walk fs creat n cur [] = Inr (n, cur)"
| "walk fs creat n cur (RootDir # cs) =
     (if fs cur = Some Dir then walk fs creat n [] cs else Inl ENOTDIR)"
| "walk fs creat n cur (CurDir # cs) =
     (if fs cur = Some Dir then walk fs creat n cur cs else Inl ENOTDIR)"
| "walk fs creat n cur (ParentDir # cs) =
     (if fs cur = Some Dir then walk fs creat n (butlast cur) cs else Inl ENOTDIR)"
| "walk fs creat n cur (Normal s # cs) =
     (if fs cur = Some Dir then
        (case fs (cur @ [s]) of
           None \<Rightarrow> if creat \<and> cs = [] then Inr (n, cur @ [s]) else Inl ENOENT
         | Some (Link t) \<Rightarrow>
             (case n of 0 \<Rightarrow> Inl ELOOP | Suc m \<Rightarrow> walk fs creat m cur (components t @ cs))
         | Some (File b) \<Rightarrow> walk fs creat n (cur @ [s]) cs
         | Some Dir \<Rightarrow> walk fs creat n (cur @ [s]) cs)
      else Inl ENOTDIR)"
  by pat_completeness auto
termination
  by (relation "measures [\<lambda>(fs, creat, n, cur, cs). n, \<lambda>(fs, creat, n, cur, cs). length cs]") auto

text \<open>\<^theory_text>\<open>Path::canonicalize\<close>, for an absolute path.\<close>

definition canonicalize :: "fs \<Rightarrow> path \<Rightarrow> io_error + fpath" where
  "canonicalize fs p = map_sum id snd (walk fs False max_links [] p)"

section \<open>Canonical paths\<close>

text \<open>A path of directories that ends in a directory or a file, without a link.\<close>

definition canonical :: "fs \<Rightarrow> fpath \<Rightarrow> bool" where
  "canonical fs p \<longleftrightarrow> (\<forall>k < length p. fs (take k p) = Some Dir) \<and>
     (\<exists>x. fs p = Some x \<and> (\<forall>t. x \<noteq> Link t))"

lemma wf_fs_root: "wf_fs fs \<Longrightarrow> fs [] = Some Dir"
  by (simp add: wf_fs_def)

lemma wf_fs_parent: "wf_fs fs \<Longrightarrow> fs (p @ [n]) = Some x \<Longrightarrow> fs p = Some Dir"
  unfolding wf_fs_def by blast

lemma wf_fs_butlast: "wf_fs fs \<Longrightarrow> fs p = Some x \<Longrightarrow> fs (butlast p) = Some Dir \<or> p = []"
  by (cases p rule: rev_cases) (auto dest: wf_fs_parent)

lemma wf_fs_prefixes:
  assumes "wf_fs fs" and "fs (p @ q) = Some x" and "q \<noteq> []"
  shows "fs p = Some Dir"
  using assms(2,3)
proof (induction q arbitrary: x rule: rev_induct)
  case (snoc n q)
  then have "fs (p @ q) = Some Dir" using wf_fs_parent [OF assms(1), of "p @ q" n x] by simp
  then show ?case using snoc.IH by (cases q) auto
qed simp

lemma canonical_wf:
  assumes "wf_fs fs"
  shows "canonical fs p \<longleftrightarrow> (\<exists>x. fs p = Some x \<and> (\<forall>t. x \<noteq> Link t))"
proof
  assume "\<exists>x. fs p = Some x \<and> (\<forall>t. x \<noteq> Link t)"
  then obtain x where x: "fs p = Some x" "\<forall>t. x \<noteq> Link t" by blast
  have "fs (take k p) = Some Dir" if "k < length p" for k
    using wf_fs_prefixes [OF assms, of "take k p" "drop k p"] x that by simp
  then show "canonical fs p" using x by (auto simp: canonical_def)
qed (auto simp: canonical_def)

lemma canonical_dir: "canonical fs p \<Longrightarrow> p = q @ r \<Longrightarrow> r \<noteq> [] \<Longrightarrow> fs q = Some Dir"
  unfolding canonical_def
  by (elim conjE allE [of _ "length q"]) auto

lemma walk_append:
  assumes "cs \<noteq> [] \<Longrightarrow> \<not> creat"
  shows "walk fs creat n cur (bs @ cs) =
    (case walk fs creat n cur bs of Inl e \<Rightarrow> Inl e | Inr (m, p) \<Rightarrow> walk fs creat m p cs)"
proof (cases "cs = []")
  case True
  then show ?thesis by (auto split: sum.splits prod.splits)
next
  case False
  then have "\<not> creat" using assms by simp
  then show ?thesis
    by (induction fs creat n cur bs rule: walk.induct)
      (auto split: option.splits node.splits nat.splits)
qed

lemmas walk_append_lookup = walk_append [where creat = False, simplified]

text \<open>A canonical path is looked up without links and is its own canonical form.\<close>

lemma walk_canonical:
  assumes "wf_fs fs" and "canonical fs (p @ q)"
  shows "walk fs creat n p (map Normal q) = Inr (n, p @ q)"
  using assms(2)
proof (induction q arbitrary: p)
  case (Cons s q)
  then have c: "canonical fs ((p @ [s]) @ q)" by simp
  have "fs p = Some Dir" using canonical_dir [OF Cons.prems, of p "s # q"] by simp
  moreover have "\<exists>x. fs (p @ [s]) = Some x \<and> (\<forall>t. x \<noteq> Link t)"
    using canonical_dir [OF c, of "p @ [s]" q] c by (cases q) (auto simp: canonical_def)
  ultimately show ?case using Cons.IH [OF c]
    by (auto split: node.splits)
qed simp

lemma canonicalize_canonical:
  assumes "wf_fs fs" and "canonical fs p"
  shows "canonicalize fs (abs_path p) = Inr p"
  using walk_canonical [of fs "[]" p False max_links] assms
  by (simp add: canonicalize_def abs_path_def wf_fs_root [OF assms(1)])

lemma walk_result_canonical:
  assumes "wf_fs fs" and "walk fs False n cur cs = Inr (m, p)" and "canonical fs cur"
  shows "canonical fs p"
  using assms
proof (induction fs "False" n cur cs arbitrary: m p rule: walk.induct)
  case (4 fs n cur cs)
  then have "fs cur = Some Dir" by (simp split: if_splits)
  then have "canonical fs (butlast cur)"
    using wf_fs_butlast [OF 4(2), of cur Dir] wf_fs_root [OF 4(2)] 4(2) by (auto simp: canonical_wf)
  then show ?case using 4 by (simp split: if_splits)
next
  case (5 fs n cur s cs)
  then show ?case
    by (auto simp: canonical_wf split: if_splits option.splits node.splits nat.splits)
qed (auto simp: canonical_wf wf_fs_root split: if_splits)

lemma canonicalize_Inr_canonical:
  assumes "wf_fs fs" and "canonicalize fs p = Inr q"
  shows "canonical fs q"
proof -
  obtain m where "walk fs False max_links [] p = Inr (m, q)"
    using assms(2) by (cases "walk fs False max_links [] p") (auto simp: canonicalize_def)
  then show ?thesis
    by (rule walk_result_canonical [OF assms(1)]) (simp add: canonical_wf assms(1) wf_fs_root [OF assms(1)])
qed

text \<open>A failure other than running out of links is the same with more links.\<close>

lemma walk_more_links:
  assumes "walk fs creat n cur cs = Inl e" and "e \<noteq> ELOOP" and "n \<le> m"
  shows "walk fs creat m cur cs = Inl e"
  using assms
proof (induction fs creat n cur cs arbitrary: m rule: walk.induct)
  case (5 fs creat n cur s cs)
  show ?case
  proof (cases "fs cur = Some Dir")
    case True
    show ?thesis
    proof (cases "fs (cur @ [s])")
      case None
      then show ?thesis using 5(4) True by (simp split: if_splits)
    next
      case (Some x)
      show ?thesis
      proof (cases x)
        case (Link t)
        obtain n' where n: "n = Suc n'" using 5(4,5) True Some Link by (cases n) auto
        then obtain m' where m: "m = Suc m'" "n' \<le> m'" using 5(6) by (cases m) auto
        show ?thesis using 5(3) [OF True Some Link n _ 5(5) m(2)] 5(4) True Some Link n m by simp
      next
        case (File b)
        show ?thesis using 5(1) [OF True Some File _ 5(5,6)] 5(4) True Some File by simp
      next
        case Dir
        show ?thesis using 5(2) [OF True Some Dir _ 5(5,6)] 5(4) True Some Dir by simp
      qed
    qed
  qed (use 5(4) in simp)
qed (auto split: if_splits)

section \<open>Calls\<close>

text \<open>The place of a path whose last component is not followed: its directory and its name.\<close>

definition locate :: "fs \<Rightarrow> path \<Rightarrow> io_error + fpath" where
  "locate fs p =
     (case path_file_name p of
        None \<Rightarrow> Inl EISDIR
      | Some n \<Rightarrow>
          (case walk fs False max_links [] (butlast p) of
             Inl e \<Rightarrow> Inl e
           | Inr (_, d) \<Rightarrow> if fs d = Some Dir then Inr (d @ [n]) else Inl ENOTDIR))"

definition fs_read :: "fs \<Rightarrow> path \<Rightarrow> io_error + byte list" where
  "fs_read fs p =
     (case canonicalize fs p of
        Inl e \<Rightarrow> Inl e
      | Inr q \<Rightarrow> (case fs q of Some (File b) \<Rightarrow> Inr b | Some Dir \<Rightarrow> Inl EISDIR | _ \<Rightarrow> Inl ENOENT))"

definition fs_is_dir :: "fs \<Rightarrow> path \<Rightarrow> bool" where
  "fs_is_dir fs p =
     (case canonicalize fs p of Inl _ \<Rightarrow> False | Inr q \<Rightarrow> fs q = Some Dir)"

text \<open>\<^theory_text>\<open>File::create\<close>: the file that is opened, and the tree with the file empty.\<close>

definition fs_create :: "fs \<Rightarrow> path \<Rightarrow> io_error + fpath \<times> fs" where
  "fs_create fs p =
     (case walk fs True max_links [] p of
        Inl e \<Rightarrow> Inl e
      | Inr (_, q) \<Rightarrow> if fs q = Some Dir then Inl EISDIR else Inr (q, fs(q \<mapsto> File [])))"

text \<open>\<^theory_text>\<open>mkdir\<close> and \<^theory_text>\<open>DirBuilder::create_dir_all\<close>, with the tree that is left behind.\<close>

definition fs_mkdir :: "fs \<Rightarrow> path \<Rightarrow> io_error + fs" where
  "fs_mkdir fs p =
     (case path_file_name p of
        None \<Rightarrow> Inl EEXIST
      | Some n \<Rightarrow>
          (case locate fs p of
             Inl e \<Rightarrow> Inl e
           | Inr q \<Rightarrow> if fs q = None then Inr (fs(q \<mapsto> Dir)) else Inl EEXIST))"

function create_dir_all :: "fs \<Rightarrow> path \<Rightarrow> (io_error + unit) \<times> fs" where
  "create_dir_all fs p =
     (if p = [] then (Inr (), fs)
      else case fs_mkdir fs p of
          Inr fs' \<Rightarrow> (Inr (), fs')
        | Inl e \<Rightarrow>
            if e = ENOENT then
              (case path_parent p of
                 None \<Rightarrow> (Inl ENOENT, fs)
               | Some d \<Rightarrow>
                   (case create_dir_all fs d of
                      (Inl e', fs') \<Rightarrow> (Inl e', fs')
                    | (Inr _, fs') \<Rightarrow>
                        (case fs_mkdir fs' p of
                           Inr fs'' \<Rightarrow> (Inr (), fs'')
                         | Inl e' \<Rightarrow> (if fs_is_dir fs' p then Inr () else Inl e', fs'))))
            else (if fs_is_dir fs p then Inr () else Inl e, fs))"
  by pat_completeness auto
termination
  by (relation "measure (length \<circ> snd)") (auto simp: path_parent_def split: if_splits)

declare create_dir_all.simps [simp del]

text \<open>\<^theory_text>\<open>rename\<close> of a file over a file, and \<^theory_text>\<open>remove_file\<close>.\<close>

definition fs_rename :: "fs \<Rightarrow> path \<Rightarrow> path \<Rightarrow> io_error + fs" where
  "fs_rename fs p p' =
     (case locate fs p of
        Inl e \<Rightarrow> Inl e
      | Inr q \<Rightarrow>
          (case locate fs p' of
             Inl e \<Rightarrow> Inl e
           | Inr q' \<Rightarrow>
               (case fs q of
                  None \<Rightarrow> Inl ENOENT
                | Some Dir \<Rightarrow> Inl ENOTDIR
                | Some x \<Rightarrow>
                    if fs q' = Some Dir then Inl EISDIR
                    else if q = q' then Inr fs
                    else Inr (fs(q := None, q' \<mapsto> x)))))"

definition fs_remove :: "fs \<Rightarrow> path \<Rightarrow> io_error + fs" where
  "fs_remove fs p =
     (case locate fs p of
        Inl e \<Rightarrow> Inl e
      | Inr q \<Rightarrow>
          (case fs q of None \<Rightarrow> Inl ENOENT | Some Dir \<Rightarrow> Inl EISDIR | Some _ \<Rightarrow> Inr (fs(q := None))))"

section \<open>Calls on paths in canonical directories\<close>

lemma fs_mkdir_abs:
  "fs_mkdir fs (abs_path (p @ [x])) =
     (case canonicalize fs (abs_path p) of
        Inl e \<Rightarrow> Inl e
      | Inr d \<Rightarrow> if fs d \<noteq> Some Dir then Inl ENOTDIR
                 else if fs (d @ [x]) = None then Inr (fs(d @ [x] \<mapsto> Dir)) else Inl EEXIST)"
proof -
  have "butlast (abs_path (p @ [x])) = abs_path p" by (simp add: abs_path_def butlast_append)
  then show ?thesis
    by (cases "walk fs False max_links [] (abs_path p)")
      (auto simp: fs_mkdir_def locate_def canonicalize_def)
qed

lemma locate_canonical:
  assumes "wf_fs fs" and "canonical fs d" and "fs d = Some Dir"
  shows "locate fs (abs_path (d @ [n])) = Inr (d @ [n])"
proof -
  have "butlast (abs_path (d @ [n])) = abs_path d"
    by (simp add: abs_path_def butlast_append)
  then show ?thesis
    using walk_canonical [of fs "[]" d False max_links] assms
    by (simp add: locate_def) (simp add: abs_path_def wf_fs_root [OF assms(1)])
qed

lemma fs_read_canonical:
  assumes "wf_fs fs" and "fs p = Some (File b)"
  shows "fs_read fs (abs_path p) = Inr b"
  using assms canonicalize_canonical [of fs p] by (simp add: fs_read_def canonical_wf)

lemma wf_fs_Some_dir: "wf_fs fs \<Longrightarrow> fs p = Some Dir \<Longrightarrow> canonical fs p"
  by (simp add: canonical_wf)

lemma fs_create_canonical:
  assumes "wf_fs fs" and "fs d = Some Dir" and "fs (d @ [n]) = None \<or> (\<exists>b. fs (d @ [n]) = Some (File b))"
  shows "fs_create fs (abs_path (d @ [n])) = Inr (d @ [n], fs(d @ [n] \<mapsto> File []))"
proof -
  have "walk fs True max_links [] (abs_path (d @ [n])) = Inr (max_links, d @ [n])"
  proof -
    have "walk fs True m p (map Normal q @ [Normal n]) = Inr (m, p @ q @ [n])"
      if "d = p @ q" for p q m
      using that
    proof (induction q arbitrary: p)
      case Nil
      then show ?case using assms by auto
    next
      case (Cons s q)
      have "fs p = Some Dir"
        using wf_fs_prefixes [OF assms(1), of p "s # q" Dir] assms(2) Cons.prems by simp
      moreover have "fs (p @ [s]) = Some Dir"
        using wf_fs_prefixes [OF assms(1), of "p @ [s]" q Dir] assms(2) Cons.prems by (cases "q = []") simp_all
      ultimately show ?case using Cons.IH [of "p @ [s]"] Cons.prems by simp
    qed
    from this [of "[]" d] show ?thesis by (simp add: abs_path_def wf_fs_root [OF assms(1)])
  qed
  then show ?thesis using assms(3) by (auto simp: fs_create_def)
qed

lemma fs_rename_canonical:
  assumes "wf_fs fs" and "fs d = Some Dir" and "fs (d @ [n]) = Some (File b)" and "n \<noteq> n'"
    and "fs (d @ [n']) \<noteq> Some Dir"
  shows "fs_rename fs (abs_path (d @ [n])) (abs_path (d @ [n'])) =
    Inr (fs(d @ [n] := None, d @ [n'] \<mapsto> File b))"
  using assms by (simp add: fs_rename_def locate_canonical wf_fs_Some_dir)

lemma fs_remove_canonical:
  assumes "wf_fs fs" and "fs d = Some Dir" and "fs (d @ [n]) = Some (File b)"
  shows "fs_remove fs (abs_path (d @ [n])) = Inr (fs(d @ [n] := None))"
  using assms by (simp add: fs_remove_def locate_canonical wf_fs_Some_dir)

section \<open>The calls keep the tree well-formed\<close>

lemma wf_fsI:
  assumes "fs [] = Some Dir" and "\<And>q p n x. fs q = Some x \<Longrightarrow> q = p @ [n] \<Longrightarrow> fs p = Some Dir \<and> plain_name n"
  shows "wf_fs fs"
  using assms unfolding wf_fs_def by blast

lemma wf_fsD: "wf_fs fs \<Longrightarrow> fs q = Some x \<Longrightarrow> q = p @ [n] \<Longrightarrow> fs p = Some Dir \<and> plain_name n"
  unfolding wf_fs_def by blast

lemma wf_fs_set:
  assumes "wf_fs fs" and "fs d = Some Dir" and "plain_name n" and "fs (d @ [n]) = Some Dir \<Longrightarrow> x = Dir"
  shows "wf_fs (fs(d @ [n] \<mapsto> x))"
proof (rule wf_fsI)
  show "(fs(d @ [n] \<mapsto> x)) [] = Some Dir" using wf_fs_root [OF assms(1)] by simp
next
  fix q p m y
  assume q: "(fs(d @ [n] \<mapsto> x)) q = Some y" "q = p @ [m]"
  have "fs p = Some Dir \<and> plain_name m"
  proof (cases "q = d @ [n]")
    case True
    then show ?thesis using q(2) assms(2,3) by simp
  next
    case False
    then have "fs q = Some y" using q(1) by simp
    then show ?thesis using q(2) by (rule wf_fsD [OF assms(1)])
  qed
  then show "(fs(d @ [n] \<mapsto> x)) p = Some Dir \<and> plain_name m" using assms(4) by auto
qed

lemma wf_fs_remove:
  assumes "wf_fs fs" and "fs p \<noteq> Some Dir"
  shows "wf_fs (fs(p := None))"
proof (rule wf_fsI)
  show "(fs(p := None)) [] = Some Dir" using wf_fs_root [OF assms(1)] assms(2) by auto
next
  fix q r n x
  assume "(fs(p := None)) q = Some x" "q = r @ [n]"
  then have "fs r = Some Dir \<and> plain_name n"
    using wf_fsD [OF assms(1), of q x r n] by (simp split: if_splits)
  then show "(fs(p := None)) r = Some Dir \<and> plain_name n" using assms(2) by auto
qed

text \<open>An executable check for trees given as association lists.\<close>

definition wf_check :: "(fpath \<times> node) list \<Rightarrow> bool" where
  "wf_check xs \<longleftrightarrow> map_of xs [] = Some Dir \<and>
     list_all (\<lambda>(q, x). q = [] \<or> map_of xs (butlast q) = Some Dir \<and> plain_name (last q)) xs"

lemma wf_fs_map_of:
  assumes "wf_check xs"
  shows "wf_fs (map_of xs)"
proof (rule wf_fsI)
  show "map_of xs [] = Some Dir" using assms by (simp add: wf_check_def)
next
  fix q p n x
  assume "map_of xs q = Some x" "q = p @ [n]"
  then have "(q, x) \<in> set xs" by (simp add: map_of_SomeD)
  then show "map_of xs p = Some Dir \<and> plain_name n"
    using assms \<open>q = p @ [n]\<close> by (auto simp: wf_check_def list_all_iff)
qed

lemma wf_fs_plain:
  assumes "wf_fs fs" and "fs p = Some x" and "n \<in> set p"
  shows "plain_name n"
proof -
  obtain q r where p: "p = (q @ [n]) @ r" using split_list [OF assms(3)] by auto
  have "\<exists>y. fs (q @ [n]) = Some y"
    using wf_fs_prefixes [OF assms(1), of "q @ [n]" r x] assms(2) p by (cases "r = []") auto
  then show ?thesis using wf_fsD [OF assms(1)] by blast
qed

lemma fs_is_dir_canonical:
  "wf_fs fs \<Longrightarrow> canonical fs p \<Longrightarrow> fs_is_dir fs (abs_path p) \<longleftrightarrow> fs p = Some Dir"
  by (simp add: fs_is_dir_def canonicalize_canonical)

text \<open>A lookup that succeeds is not disturbed by nodes that are added.\<close>

lemma walk_mono:
  assumes "walk fs False n cur cs = Inr r" and "fs \<subseteq>\<^sub>m fs'"
  shows "walk fs' False n cur cs = Inr r"
  using assms
proof (induction fs "False" n cur cs rule: walk.induct)
  case (5 fs n cur s cs)
  have dir: "fs cur = Some Dir" using "5.prems"(1) by (simp split: if_splits)
  have up: "fs' q = Some x" if "fs q = Some x" for q x
    using "5.prems"(2) that by (metis domI map_le_def)
  show ?case
  proof (cases "fs (cur @ [s])")
    case None
    then show ?thesis using "5.prems"(1) dir by simp
  next
    case (Some x)
    show ?thesis
    proof (cases x)
      case (File b)
      then show ?thesis using "5.hyps"(1) [OF dir] "5.prems" dir Some up by simp
    next
      case Dir
      then show ?thesis using "5.hyps"(2) [OF dir] "5.prems" dir Some up by simp
    next
      case (Link t)
      then show ?thesis using "5.hyps"(3) [OF dir] "5.prems" dir Some up by (cases n) simp_all
    qed
  qed
qed (auto simp: map_le_def dom_def split: if_splits)

lemma fs_mkdir_Inr:
  assumes "fs_mkdir fs p = Inr fs'"
  obtains d n where "fs d = Some Dir" "fs (d @ [n]) = None" "fs' = fs(d @ [n] \<mapsto> Dir)"
    "Normal n \<in> set p" "canonicalize fs' p = Inr (d @ [n])"
proof -
  obtain n where n: "path_file_name p = Some n"
    using assms by (auto simp: fs_mkdir_def split: option.splits)
  then have p: "p = butlast p @ [Normal n]"
    by (cases p rule: rev_cases) (auto simp: path_file_name_def split: component.splits if_splits)
  obtain k d where w: "walk fs False max_links [] (butlast p) = Inr (k, d)" "fs d = Some Dir"
      "fs (d @ [n]) = None" "fs' = fs(d @ [n] \<mapsto> Dir)"
    using assms n by (auto simp: fs_mkdir_def locate_def split: sum.splits if_splits)
  have "fs \<subseteq>\<^sub>m fs'" using w by (auto simp: map_le_def)
  then have "walk fs' False max_links [] (butlast p) = Inr (k, d)" using walk_mono [OF w(1)] by blast
  then have "walk fs' False max_links [] (butlast p @ [Normal n]) = Inr (k, d @ [n])"
    using w by (simp add: walk_append_lookup)
  then have "canonicalize fs' p = Inr (d @ [n])"
    unfolding canonicalize_def by (subst p) simp
  moreover have "Normal n \<in> set p" by (subst p) simp
  ultimately show thesis using that w by blast
qed

lemma fs_mkdir_wf:
  assumes "wf_fs fs" and "fs_mkdir fs p = Inr fs'" and "\<forall>w. Normal w \<in> set p \<longrightarrow> plain_name w"
  shows "wf_fs fs' \<and> fs_is_dir fs' p"
proof (rule fs_mkdir_Inr [OF assms(2)])
  fix d n
  assume *: "fs d = Some Dir" "fs (d @ [n]) = None" "fs' = fs(d @ [n] \<mapsto> Dir)" "Normal n \<in> set p"
    "canonicalize fs' p = Inr (d @ [n])"
  have "plain_name n" using assms(3) *(4) by blast
  then have "wf_fs fs'" using wf_fs_set [OF assms(1) *(1)] *(2,3) by simp
  then show "wf_fs fs' \<and> fs_is_dir fs' p" using *(3,5) by (simp add: fs_is_dir_def)
qed

lemma create_dir_all_spec:
  assumes "wf_fs fs" and "\<forall>w. Normal w \<in> set p \<longrightarrow> plain_name w" and "create_dir_all fs p = (res, fs')"
  shows "wf_fs fs' \<and> (res = Inr () \<longrightarrow> p \<noteq> [] \<longrightarrow> fs_is_dir fs' p)"
  using assms
proof (induction fs p arbitrary: res fs' rule: create_dir_all.induct)
  case (1 fs p)
  have mk: "wf_fs f' \<and> fs_is_dir f' p" if "wf_fs f" "fs_mkdir f p = Inr f'" for f f'
    using fs_mkdir_wf [OF that "1.prems"(2)] .
  note eq = "1.prems"(3) [unfolded create_dir_all.simps [of fs p]]
  show ?case
  proof (cases "p = []")
    case True
    then show ?thesis using eq "1.prems"(1) by simp
  next
    case False
    show ?thesis
    proof (cases "fs_mkdir fs p")
      case (Inr f)
      then show ?thesis using eq False mk [OF "1.prems"(1) Inr] by simp
    next
      case (Inl e)
      show ?thesis
      proof (cases "e = ENOENT \<and> path_parent p \<noteq> None")
        case False': False
        then show ?thesis using eq False Inl "1.prems"(1) by (auto split: if_splits)
      next
        case True
        then obtain d where d: "path_parent p = Some d" by blast
        obtain res1 f1 where c: "create_dir_all fs d = (res1, f1)" by fastforce
        have "set d \<subseteq> set p" using d by (auto simp: path_parent_def dest: in_set_butlastD split: if_splits)
        then have wf1: "wf_fs f1" using "1.IH" [OF False Inl _ d "1.prems"(1) _ c] True "1.prems"(2) by blast
        show ?thesis
        proof (cases res1)
          case Inl': (Inl e')
          then show ?thesis using eq False Inl True d c wf1 Inl' by auto
        next
          case (Inr u)
          then show ?thesis
            using eq False Inl True d c wf1 mk [OF wf1] by (cases "fs_mkdir f1 p") (auto split: if_splits)
        qed
      qed
    qed
  qed
qed

end
