(* ===== verification/Workspace_Path.thy ===== *)
theory Workspace_Path
  imports File_System
begin

text \<open>
  The workspace sandbox, \<^theory_text>\<open>fs/path.rs\<close>: the lexical pass over \<open>..\<close>, the symlink pass that
  canonicalises the deepest existing ancestor, and what the path that comes out is worth when the
  kernel looks it up.
\<close>

section \<open>The lexical pass\<close>

definition normalize_step :: "path \<Rightarrow> component \<Rightarrow> path" where
  "normalize_step normalized c =
     (case c of
        CurDir \<Rightarrow> normalized
      | ParentDir \<Rightarrow>
          (case path_parent normalized of
             Some p \<Rightarrow> p
           | None \<Rightarrow> path_push normalized ParentDir)
      | other \<Rightarrow> path_push normalized other)"

definition lexical_normalize :: "path \<Rightarrow> path" where
  "lexical_normalize p = foldl normalize_step [] p"

section \<open>The symlink pass\<close>

datatype path_error = Escapes rstr | CannotResolve rstr

fun path_error_text :: "path_error \<Rightarrow> rstr" where
  "path_error_text (Escapes requested) = lit ''path escapes the workspace: '' @ requested"
| "path_error_text (CannotResolve requested) = lit ''cannot resolve path: '' @ requested"

text \<open>
  The loop: \<open>current\<close> is shortened until it can be canonicalised, the names that were cut off are
  collected in \<open>tail\<close>, last name first.
\<close>

function resolve_loop :: "fs \<Rightarrow> path \<Rightarrow> rstr list \<Rightarrow> (fpath \<times> rstr list) option" where
  "resolve_loop fs current tail =
     (case canonicalize fs current of
        Inr realp \<Rightarrow> Some (realp, tail)
      | Inl _ \<Rightarrow>
          (case path_file_name current of
             Some name \<Rightarrow>
               (case path_parent current of
                  Some shorter \<Rightarrow> resolve_loop fs shorter (tail @ [name])
                | None \<Rightarrow> None)
           | None \<Rightarrow> None))"
  by pat_completeness auto
termination
  by (relation "measure (\<lambda>(fs, current, tail). length current)")
    (auto simp: path_parent_def split: if_splits)

declare resolve_loop.simps [simp del]

definition resolve_in_workspace :: "fs \<Rightarrow> path \<Rightarrow> rstr \<Rightarrow> path_error + path" where
  "resolve_in_workspace fs base requested =
     (let normalized = lexical_normalize (path_join base requested)
      in if \<not> path_starts_with normalized base then Inl (Escapes requested)
         else case resolve_loop fs normalized [] of
             None \<Rightarrow> Inl (CannotResolve requested)
           | Some (real_ancestor, tail) \<Rightarrow>
               (let target = foldl (\<lambda>p c. path_push p (Normal c)) (abs_path real_ancestor) (rev tail)
                in if \<not> path_starts_with target base then Inl (Escapes requested)
                   else Inr target))"

section \<open>The shape of a normalised path\<close>

text \<open>
  A normalised absolute path has no dots, except that popping above the root leaves one leading
  \<open>..\<close> behind.
\<close>

definition normal_shape :: "path \<Rightarrow> bool" where
  "normal_shape p \<longleftrightarrow> (\<exists>ns. p = abs_path ns \<or> p = RootDir # ParentDir # map Normal ns)"

lemma normal_shape_step:
  assumes "normal_shape p" and "c \<noteq> RootDir"
  shows "normal_shape (normalize_step p c)"
proof -
  obtain ns where ns: "p = abs_path ns \<or> p = RootDir # ParentDir # map Normal ns"
    using assms(1) by (auto simp: normal_shape_def)
  show ?thesis
  proof (cases c)
    case ParentDir
    show ?thesis using ns
    proof
      assume p: "p = abs_path ns"
      show ?thesis
      proof (cases "ns = []")
        case True
        have "normalize_step p c = RootDir # ParentDir # map Normal []"
          using p True ParentDir by (simp add: normalize_step_def path_push_def) (simp add: abs_path_def)
        then show ?thesis unfolding normal_shape_def by blast
      next
        case False
        then have "normalize_step p c = abs_path (butlast ns)"
          using p ParentDir by (simp add: normalize_step_def)
        then show ?thesis unfolding normal_shape_def by blast
      qed
    next
      assume p: "p = RootDir # ParentDir # map Normal ns"
      show ?thesis
      proof (cases "ns = []")
        case True
        then have "normalize_step p c = abs_path []"
          using p ParentDir by (simp add: normalize_step_def path_parent_def abs_path_def)
        then show ?thesis unfolding normal_shape_def by blast
      next
        case False
        then have "normalize_step p c = RootDir # ParentDir # map Normal (butlast ns)"
          using p ParentDir by (simp add: normalize_step_def path_parent_def last_map map_butlast)
        then show ?thesis unfolding normal_shape_def by blast
      qed
    qed
  next
    case (Normal n)
    have "normalize_step p c = abs_path (ns @ [n]) \<or>
        normalize_step p c = RootDir # ParentDir # map Normal (ns @ [n])"
      using ns Normal by (auto simp: normalize_step_def path_push_def abs_path_def)
    then show ?thesis unfolding normal_shape_def by blast
  qed (use assms in \<open>simp_all add: normalize_step_def\<close>)
qed

lemma normal_shape_foldl:
  "normal_shape p \<Longrightarrow> RootDir \<notin> set cs \<Longrightarrow> normal_shape (foldl normalize_step p cs)"
proof (induction cs arbitrary: p)
  case (Cons c cs)
  then have "c \<noteq> RootDir" by auto
  then show ?case using Cons normal_shape_step by simp
qed simp

lemma normal_shape_normalize:
  "normal_shape (lexical_normalize (path_join (abs_path r) requested))"
proof -
  obtain rest where rest: "path_join (abs_path r) requested = RootDir # rest" "RootDir \<notin> set rest"
    using path_join_absolute [of r requested] by blast
  have "normalize_step [] RootDir = abs_path []"
    by (simp add: normalize_step_def path_push_def abs_path_def)
  then have "normal_shape (normalize_step [] RootDir)" unfolding normal_shape_def by blast
  then show ?thesis using rest by (simp add: lexical_normalize_def normal_shape_foldl)
qed

lemma normal_shape_under:
  assumes "normal_shape p" and "prefix (abs_path r) p"
  obtains A ns where "p = A @ map Normal ns" "A = abs_path r \<or> r = [] \<and> A = [RootDir, ParentDir]"
proof -
  obtain ns where ns: "p = abs_path ns \<or> p = RootDir # ParentDir # map Normal ns"
    using assms(1) by (auto simp: normal_shape_def)
  then show thesis
  proof
    assume p: "p = abs_path ns"
    then have "prefix r ns" using assms(2) by simp
    then obtain ms where "ns = r @ ms" by (auto simp: prefix_def)
    then show thesis using p that [of "abs_path r" ms] by (simp add: abs_path_def)
  next
    assume p: "p = RootDir # ParentDir # map Normal ns"
    then have "r = []" using assms(2) by (cases r) (auto simp: abs_path_def)
    then show thesis using p that [of "[RootDir, ParentDir]" ns] by simp
  qed
qed

section \<open>What the loop computes\<close>

lemma resolve_loop_Some:
  assumes "resolve_loop fs current tail = Some (realp, tail')"
  shows "\<exists>A ns. current = A @ map Normal ns \<and> tail' = tail @ rev ns \<and> canonicalize fs A = Inr realp \<and>
    (ns \<noteq> [] \<longrightarrow> (\<exists>e. canonicalize fs (A @ [Normal (hd ns)]) = Inl e))"
  using assms
proof (induction fs current tail rule: resolve_loop.induct)
  case (1 fs current tail)
  show ?case
  proof (cases "canonicalize fs current")
    case (Inr q)
    then show ?thesis using 1(2) by (intro exI [of _ current] exI [of _ "[]"])
        (simp add: resolve_loop.simps)
  next
    case (Inl e)
    obtain name shorter where ns: "path_file_name current = Some name" "path_parent current = Some shorter"
        "resolve_loop fs shorter (tail @ [name]) = Some (realp, tail')"
      using 1(2) Inl by (subst (asm) resolve_loop.simps) (auto split: option.splits)
    have cur: "current = shorter @ [Normal name]"
      using ns(1,2) by (cases current rule: rev_cases)
        (auto simp: path_file_name_def path_parent_def split: component.splits if_splits)
    from 1(1) [OF Inl ns(1,2,3)] obtain A ms where A: "shorter = A @ map Normal ms"
        "tail' = (tail @ [name]) @ rev ms" "canonicalize fs A = Inr realp"
        "ms \<noteq> [] \<longrightarrow> (\<exists>e. canonicalize fs (A @ [Normal (hd ms)]) = Inl e)"
      by blast
    show ?thesis
      using A cur Inl by (intro exI [of _ A] exI [of _ "ms @ [name]"]) (cases ms; simp)
  qed
qed

lemma resolve_loop_total:
  assumes "canonicalize fs A = Inr q"
  shows "resolve_loop fs (A @ map Normal ns) tail \<noteq> None"
proof (induction ns arbitrary: tail rule: rev_induct)
  case Nil
  then show ?case using assms by (simp add: resolve_loop.simps)
next
  case (snoc n ns)
  have "path_file_name (A @ map Normal (ns @ [n])) = Some n"
    "path_parent (A @ map Normal (ns @ [n])) = Some (A @ map Normal ns)"
    by (simp_all add: path_file_name_def path_parent_def butlast_append)
  then show ?case using snoc.IH
    by (subst resolve_loop.simps) (auto split: sum.splits)
qed

lemma push_tail: "foldl (\<lambda>p c. path_push p (Normal c)) (abs_path q) ns = abs_path (q @ ns)"
  by (induction ns arbitrary: q) auto

lemma walk_links_left: "walk fs creat n cur cs = Inr (m, p) \<Longrightarrow> m \<le> n"
proof (induction fs creat n cur cs arbitrary: m p rule: walk.induct)
  case (5 fs creat n cur s cs)
  then show ?case by (fastforce split: if_splits option.splits node.splits nat.splits)
qed (auto split: if_splits)

lemma canonicalize_split:
  assumes "canonicalize fs A = Inr q"
  obtains m where "walk fs False max_links [] A = Inr (m, q)" "m \<le> max_links"
    "\<And>cs. canonicalize fs (A @ cs) = map_sum id snd (walk fs False m q cs)"
proof -
  obtain m where m: "walk fs False max_links [] A = Inr (m, q)"
    using assms by (cases "walk fs False max_links [] A") (auto simp: canonicalize_def)
  then show thesis using that walk_links_left [OF m]
    by (simp add: canonicalize_def walk_append)
qed

text \<open>
  If the loop stops at \<open>A\<close> for a reason other than too many links, the name behind it cannot be
  looked up from the canonical path either, and the target is final.
\<close>

lemma canonicalize_behind:
  assumes "wf_fs fs" and "canonicalize fs A = Inr realp"
    and "canonicalize fs (A @ [Normal n]) = Inl e" and "e \<noteq> ELOOP"
  shows "canonicalize fs (abs_path (realp @ n # ms)) = Inl e"
proof -
  have c: "canonical fs realp" by (rule canonicalize_Inr_canonical [OF assms(1,2)])
  obtain m where m: "m \<le> max_links" "walk fs False max_links [] A = Inr (m, realp)"
      "\<And>cs. canonicalize fs (A @ cs) = map_sum id snd (walk fs False m realp cs)"
    by (rule canonicalize_split [OF assms(2)]) blast
  have "map_sum id snd (walk fs False m realp [Normal n]) = Inl e"
    using assms(3) m(3) [of "[Normal n]"] by simp
  then have "walk fs False m realp [Normal n] = Inl e"
    by (cases "walk fs False m realp [Normal n]") auto
  then have fail: "walk fs False max_links realp [Normal n] = Inl e"
    using walk_more_links assms(4) m(1) by blast
  have step: "walk fs False max_links [] (abs_path realp) = Inr (max_links, realp)"
    using walk_canonical [of fs "[]" realp] assms(1) c by (simp add: abs_path_def wf_fs_root)
  have "abs_path (realp @ n # ms) = abs_path realp @ [Normal n] @ map Normal ms"
    by (simp add: abs_path_def)
  then have "walk fs False max_links [] (abs_path (realp @ n # ms)) = Inl e"
    by (simp only: walk_append_lookup step fail sum.case prod.case)
  then show ?thesis by (simp add: canonicalize_def)
qed

lemma target_not_redirected:
  assumes "wf_fs fs" and "canonicalize fs A = Inr realp"
    and "ns \<noteq> [] \<Longrightarrow> canonicalize fs (A @ [Normal (hd ns)]) = Inl e \<and> e \<noteq> ELOOP"
    and "canonicalize fs (abs_path (realp @ ns)) = Inr q"
  shows "q = realp @ ns"
proof (cases ns)
  case Nil
  have "canonical fs realp" by (rule canonicalize_Inr_canonical [OF assms(1,2)])
  then show ?thesis using canonicalize_canonical [OF assms(1)] assms(4) Nil by simp
next
  case (Cons n ms)
  then have "canonicalize fs (abs_path (realp @ ns)) = Inl e"
    using canonicalize_behind [OF assms(1,2)] assms(3) by simp
  then show ?thesis using assms(4) by simp
qed

lemma resolve_in_workspace_Inr:
  assumes "resolve_in_workspace fs base requested = Inr target"
  obtains A ns realp where "lexical_normalize (path_join base requested) = A @ map Normal ns"
    "prefix base (lexical_normalize (path_join base requested))"
    "canonicalize fs A = Inr realp" "target = abs_path (realp @ ns)" "prefix base target"
    "ns \<noteq> [] \<Longrightarrow> \<exists>e. canonicalize fs (A @ [Normal (hd ns)]) = Inl e"
proof -
  let ?n = "lexical_normalize (path_join base requested)"
  obtain realp tail where rt: "resolve_loop fs ?n [] = Some (realp, tail)" "prefix base ?n"
      "target = abs_path (realp @ rev tail)" "prefix base target"
    using assms
    by (auto simp: resolve_in_workspace_def Let_def path_starts_with_prefix push_tail
        split: if_splits option.splits)
  from resolve_loop_Some [OF rt(1)] obtain A ns where "?n = A @ map Normal ns" "tail = rev ns"
      "canonicalize fs A = Inr realp" "ns \<noteq> [] \<longrightarrow> (\<exists>e. canonicalize fs (A @ [Normal (hd ns)]) = Inl e)"
    by auto
  then show thesis using that rt by simp
qed

lemma walk_no_link:
  assumes "\<forall>k \<le> length q. \<forall>t. fs (p @ take k q) \<noteq> Some (Link t)"
    and "walk fs False n p (map Normal q) = Inr (m, x)"
  shows "x = p @ q"
  using assms
proof (induction q arbitrary: p)
  case (Cons s q)
  have nl: "\<forall>t. fs (p @ [s]) \<noteq> Some (Link t)"
    using Cons.prems(1) by (elim allE [of _ 1]) simp
  have "\<forall>k \<le> length q. \<forall>t. fs ((p @ [s]) @ take k q) \<noteq> Some (Link t)"
  proof (intro allI impI)
    fix k t
    assume "k \<le> length q"
    then show "fs ((p @ [s]) @ take k q) \<noteq> Some (Link t)"
      using Cons.prems(1) by (elim allE [of _ "Suc k"]) simp
  qed
  moreover have "walk fs False n (p @ [s]) (map Normal q) = Inr (m, x)"
    using Cons.prems(2) nl by (auto split: if_splits option.splits node.splits)
  ultimately show ?case using Cons.IH [of "p @ [s]"] by simp
qed simp

section \<open>Properties of the sandbox\<close>

text \<open>A workspace as \<^theory_text>\<open>Config::from_env\<close> leaves it: a directory without links on the way.\<close>

definition workspace :: "fs \<Rightarrow> fpath \<Rightarrow> bool" where
  "workspace fs r \<longleftrightarrow> wf_fs fs \<and> fs r = Some Dir"

text \<open>
  C20: A path that the sandbox accepts is an absolute path without \<open>.\<close>, \<open>..\<close> or repeated
  separators, and it lies in the workspace component by component: a sibling directory whose name
  only starts with the workspace's name is outside. The requested path had to be inside lexically
  as well.
\<close>

theorem resolve_stays_inside:
  assumes "resolve_in_workspace fs (abs_path r) requested = Inr target"
  shows "\<exists>names. target = abs_path (r @ names)
    \<and> prefix (abs_path r) (lexical_normalize (path_join (abs_path r) requested))"
proof -
  obtain A ns realp where "target = abs_path (realp @ ns)" "prefix (abs_path r) target"
      "prefix (abs_path r) (lexical_normalize (path_join (abs_path r) requested))"
    by (rule resolve_in_workspace_Inr [OF assms])
  then have "prefix r (realp @ ns)" by simp
  then obtain names where "realp @ ns = r @ names" by (auto simp: prefix_def)
  then show ?thesis
    using \<open>target = abs_path (realp @ ns)\<close> \<open>prefix (abs_path r) (lexical_normalize (path_join (abs_path r) requested))\<close>
    by simp
qed

lemma resolve_stays_inside_witness:
  "\<exists>names. abs_path [lit ''ws'', lit ''a''] = abs_path ([lit ''ws''] @ names)
    \<and> prefix (abs_path [lit ''ws'']) (lexical_normalize (path_join (abs_path [lit ''ws'']) (lit ''b/../a'')))"
  by (rule resolve_stays_inside [of "map_of [([], Dir), ([lit ''ws''], Dir)]"]) code_simp

text \<open>
  C4: No link leads out. Unless the request runs into the kernel's limit on symbolic links, the
  path that the sandbox returns is final: if it can be looked up at all, the file that the kernel
  finds is the one the path names, so it is inside the workspace. This covers links that are the
  last component, links in the middle, chains of links, and targets that do not exist yet.
\<close>

theorem resolve_no_symlink_escape:
  assumes "workspace fs r"
    and "resolve_in_workspace fs (abs_path r) requested = Inr target"
    and "\<forall>k. canonicalize fs (take k (lexical_normalize (path_join (abs_path r) requested))) \<noteq> Inl ELOOP"
    and "canonicalize fs target = Inr q"
  shows "target = abs_path q \<and> prefix r q"
proof -
  obtain A ns realp where R: "lexical_normalize (path_join (abs_path r) requested) = A @ map Normal ns"
      "canonicalize fs A = Inr realp" "target = abs_path (realp @ ns)" "prefix (abs_path r) target"
      "ns \<noteq> [] \<Longrightarrow> \<exists>e. canonicalize fs (A @ [Normal (hd ns)]) = Inl e"
    by (rule resolve_in_workspace_Inr [OF assms(2)]) blast
  have "\<exists>e. canonicalize fs (A @ [Normal (hd ns)]) = Inl e \<and> e \<noteq> ELOOP" if "ns \<noteq> []"
  proof -
    have "take (length A + 1) (A @ map Normal ns) = A @ [Normal (hd ns)]"
      using that by (cases ns) simp_all
    then show ?thesis using R(5) [OF that] assms(3) R(1) by metis
  qed
  then obtain e where "ns \<noteq> [] \<Longrightarrow> canonicalize fs (A @ [Normal (hd ns)]) = Inl e \<and> e \<noteq> ELOOP" by blast
  then have "q = realp @ ns"
    using target_not_redirected [OF _ R(2), of ns e q] assms(1,4) R(3) by (auto simp: workspace_def)
  then show ?thesis using R(3,4) by simp
qed

text \<open>A tree with a workspace, a link that stays inside, one that leaves, and a dangling one.\<close>

definition sample_tree :: "(fpath \<times> node) list" where
  "sample_tree =
    [([], Dir), ([lit ''ws''], Dir), ([lit ''etc''], Dir), ([lit ''etc'', lit ''passwd''], File [1]),
     ([lit ''ws'', lit ''d''], Dir), ([lit ''ws'', lit ''d'', lit ''f''], File [2]),
     ([lit ''ws'', lit ''in''], Link (lit ''d'')), ([lit ''ws'', lit ''out''], Link (lit ''/etc'')),
     ([lit ''ws'', lit ''lost''], Link (lit ''/etc/none''))]"

lemma workspace_sample: "workspace (map_of sample_tree) [lit ''ws'']"
  unfolding workspace_def by (rule conjI, rule wf_fs_map_of) code_simp+

lemma resolve_no_symlink_escape_witness:
  "abs_path [lit ''ws'', lit ''d'', lit ''f''] = abs_path [lit ''ws'', lit ''d'', lit ''f''] \<and>
   prefix [lit ''ws''] [lit ''ws'', lit ''d'', lit ''f'']"
proof (rule resolve_no_symlink_escape [OF workspace_sample, of "lit ''in/f''"])
  let ?n = "lexical_normalize (path_join (abs_path [lit ''ws'']) (lit ''in/f''))"
  have len: "length ?n = 4" by code_simp
  have "\<forall>k \<in> set [0..<5]. canonicalize (map_of sample_tree) (take k ?n) \<noteq> Inl ELOOP" by code_simp
  moreover have "take k ?n = take (min k 4) ?n" for k using len by (simp add: min_def)
  ultimately show "\<forall>k. canonicalize (map_of sample_tree) (take k ?n) \<noteq> Inl ELOOP"
    by (metis atLeastLessThan_iff le0 less_Suc_eq_le min.cobounded2 numeral_eq_Suc pred_numeral_simps(3) set_upt)
qed code_simp+

text \<open>The links of the sample that leave the workspace are rejected.\<close>

lemma sample_links_rejected:
  "resolve_in_workspace (map_of sample_tree) (abs_path [lit ''ws'']) (lit ''out/passwd'') = Inl (Escapes (lit ''out/passwd''))"
  "resolve_in_workspace (map_of sample_tree) (abs_path [lit ''ws'']) (lit ''out/new'') = Inl (Escapes (lit ''out/new''))"
  "resolve_in_workspace (map_of sample_tree) (abs_path [lit ''ws'']) (lit ''../etc'') = Inl (Escapes (lit ''../etc''))"
  by code_simp+

text \<open>
  C27: The sandbox always decides: in a workspace, a request is either accepted or rejected as an
  escape. The loop over ancestors ends at the workspace directory at the latest, so the error
  \<open>cannot resolve path\<close> is never reported.
\<close>

theorem resolve_decides:
  assumes "workspace fs r"
  shows "resolve_in_workspace fs (abs_path r) requested \<noteq> Inl (CannotResolve requested)"
proof
  let ?n = "lexical_normalize (path_join (abs_path r) requested)"
  assume "resolve_in_workspace fs (abs_path r) requested = Inl (CannotResolve requested)"
  then have none: "resolve_loop fs ?n [] = None" and pre: "prefix (abs_path r) ?n"
    by (auto simp: resolve_in_workspace_def Let_def path_starts_with_prefix split: if_splits option.splits)
  obtain A ns where A: "?n = A @ map Normal ns" "A = abs_path r \<or> r = [] \<and> A = [RootDir, ParentDir]"
    by (rule normal_shape_under [OF normal_shape_normalize pre])
  have "\<exists>q. canonicalize fs A = Inr q"
  proof (cases "A = abs_path r")
    case True
    have "canonicalize fs (abs_path r) = Inr r"
      by (rule canonicalize_canonical) (use assms in \<open>simp_all add: workspace_def canonical_wf\<close>)
    then show ?thesis using True by blast
  next
    case False
    then have "A = [RootDir, ParentDir]" using A(2) by blast
    then show ?thesis using assms by (simp add: workspace_def canonicalize_def wf_fs_root)
  qed
  then show False using resolve_loop_total A(1) none by metis
qed

lemma resolve_decides_witness:
  "resolve_in_workspace (map_of sample_tree) (abs_path [lit ''ws'']) (lit ''x/y'')
     \<noteq> Inl (CannotResolve (lit ''x/y''))"
  by (rule resolve_decides [OF workspace_sample])

text \<open>The ways to split an absolute path into a path and names behind it.\<close>

lemma abs_path_splitE:
  assumes "abs_path x = A @ map Normal ns"
  obtains k where "A = abs_path (take k x)" "ns = drop k x"
proof (cases A)
  case Nil
  then show thesis using assms by (cases ns) (simp_all add: abs_path_def)
next
  case (Cons c cs)
  have c: "c = RootDir" "map Normal x = cs @ map Normal ns" using assms Cons by (simp_all add: abs_path_def)
  then have cs: "cs = map Normal (take (length cs) x)"
    by (metis append_eq_conv_conj take_map)
  have "map Normal ns = map Normal (drop (length cs) x)"
    using c(2) by (metis append_eq_conv_conj drop_map)
  then have "ns = drop (length cs) x" by (rule map_injective) (simp add: inj_def)
  moreover have "A = abs_path (take (length cs) x)" using Cons c(1) cs by (simp add: abs_path_def)
  ultimately show thesis using that by blast
qed

text \<open>
  The sandbox accepts what it should: a request that is lexically inside and meets no link
  resolves to exactly the path it names, whether or not that path exists.
\<close>

theorem resolve_plain_path:
  assumes "workspace fs r"
    and "lexical_normalize (path_join (abs_path r) requested) = abs_path (r @ names)"
    and "\<forall>k \<le> length names. \<forall>t. fs (r @ take k names) \<noteq> Some (Link t)"
  shows "resolve_in_workspace fs (abs_path r) requested = Inr (abs_path (r @ names))"
proof -
  let ?n = "lexical_normalize (path_join (abs_path r) requested)"
  have wf: "wf_fs fs" and d: "fs r = Some Dir" using assms(1) by (simp_all add: workspace_def)
  have nl: "\<forall>t. fs (take k (r @ names)) \<noteq> Some (Link t)" for k
  proof (cases "k \<le> length r")
    case True
    then show ?thesis using wf_fs_prefixes [OF wf, of "take k r" "drop k r" Dir] d by (cases "k = length r") auto
  next
    case False
    then have "take k (r @ names) = r @ take (min (k - length r) (length names)) names"
      by (cases "k - length r \<le> length names") (simp_all add: min_def)
    then show ?thesis using assms(3) by (metis min.cobounded2)
  qed
  have cr: "canonicalize fs (abs_path r) = Inr r"
    using wf d by (simp add: canonicalize_canonical canonical_wf)
  have "resolve_loop fs (abs_path r @ map Normal names) [] \<noteq> None"
    by (rule resolve_loop_total [OF cr])
  then obtain realp tail where rl: "resolve_loop fs ?n [] = Some (realp, tail)"
    unfolding assms(2) by (auto simp: abs_path_def)
  from resolve_loop_Some [OF rl] obtain A ns where A: "abs_path (r @ names) = A @ map Normal ns"
      "tail = rev ns" "canonicalize fs A = Inr realp"
    unfolding assms(2) by auto
  obtain k where k: "A = abs_path (take k (r @ names))" "ns = drop k (r @ names)"
    by (rule abs_path_splitE [OF A(1)])
  then obtain m where "walk fs False max_links [] (map Normal (take k (r @ names))) = Inr (m, realp)"
    using A(3) wf by (cases "walk fs False max_links [] (map Normal (take k (r @ names)))")
      (auto simp: canonicalize_def abs_path_def wf_fs_root)
  then have "realp = [] @ take k (r @ names)"
  proof (rule walk_no_link [rotated])
    show "\<forall>j \<le> length (take k (r @ names)). \<forall>t. fs ([] @ take j (take k (r @ names))) \<noteq> Some (Link t)"
      using nl by (simp only: append_Nil take_take) blast
  qed
  then have "realp @ ns = r @ names" using k(2) by (simp only: append_Nil append_take_drop_id)
  then show ?thesis using rl A(2) unfolding resolve_in_workspace_def Let_def
    by (simp add: assms(2) path_starts_with_prefix push_tail)
qed

lemma resolve_plain_path_witness:
  "resolve_in_workspace (map_of sample_tree) (abs_path [lit ''ws'']) (lit ''d/./x/../new/y'') =
    Inr (abs_path ([lit ''ws''] @ [lit ''d'', lit ''new'', lit ''y'']))"
proof (rule resolve_plain_path [OF workspace_sample])
  have chk: "\<forall>k \<in> set [0..<4]. case map_of sample_tree ([lit ''ws''] @ take k [lit ''d'', lit ''new'', lit ''y'']) of
      Some (Link t) \<Rightarrow> False | _ \<Rightarrow> True"
    by code_simp
  have "map_of sample_tree ([lit ''ws''] @ take k [lit ''d'', lit ''new'', lit ''y'']) \<noteq> Some (Link t)"
    if "k < 4" for k t
  proof
    assume link: "map_of sample_tree ([lit ''ws''] @ take k [lit ''d'', lit ''new'', lit ''y'']) = Some (Link t)"
    have "k \<in> set [0..<4]" using that by simp
    from bspec [OF chk this] show False unfolding link by simp
  qed
  then show "\<forall>k \<le> length [lit ''d'', lit ''new'', lit ''y''].
      \<forall>t. map_of sample_tree ([lit ''ws''] @ take k [lit ''d'', lit ''new'', lit ''y'']) \<noteq> Some (Link t)"
    by simp
qed code_simp

end
