(* ===== verification/Config.thy ===== *)
theory Config
  imports Str_Split Ip_Addr Workspace_Path
begin

text \<open>
  \<^theory_text>\<open>config.rs\<close>: the configuration read from the environment variables and the check of an
  \<^theory_text>\<open>Origin\<close> header against it. The environment is a function from names to values (\<^theory_text>\<open>None\<close>
  for a variable that is unset or not Unicode), the current directory and the file system are
  arguments. A panic is \<^theory_text>\<open>None\<close>.
\<close>

section \<open>The configuration\<close>

record config =
  cf_token :: "rstr option"
  cf_host :: ip_addr
  cf_port :: "16 word"
  cf_workspace :: fpath
  cf_allowed_hosts :: "rstr list"
  cf_allowed_origins :: "rstr list"
  cf_sse_session_ttl :: duration
  cf_sse_keepalive :: duration

type_synonym env = "rstr \<Rightarrow> rstr option"

datatype config_error =
    InvalidHost
  | InvalidPort
  | CannotCreateWorkspace io_error
  | CannotResolveWorkspace io_error
  | InvalidDuration rstr rstr
  | NotPositive rstr rstr
  | InvalidUnit rstr rstr

section \<open>Reading single variables\<close>

definition token_env :: "env \<Rightarrow> rstr option" where
  "token_env env =
     (case map_option trim (env (lit ''MCPOD_TOKEN'')) of
        Some t \<Rightarrow> if t \<noteq> [] then Some t else None
      | None \<Rightarrow> None)"

definition host_env :: "env \<Rightarrow> ip_addr option" where
  "host_env env =
     parse_ip_addr (case env (lit ''MCPOD_HOST'') of Some v \<Rightarrow> v | None \<Rightarrow> lit ''127.0.0.1'')"

text \<open>\<^theory_text>\<open>str::parse::<u16>\<close>: digits with an optional plus sign, no larger than the type.\<close>

definition parse_u16 :: "rstr \<Rightarrow> 16 word option" where
  "parse_u16 s =
     (let ds = (case s of [] \<Rightarrow> [] | c # r \<Rightarrow> if c = 43 then r else s)
      in if ds \<noteq> [] \<and> list_all is_digit ds \<and> undec 0 ds < 2 ^ 16
         then Some (of_nat (undec 0 ds)) else None)"

definition port_env :: "env \<Rightarrow> 16 word option" where
  "port_env env =
     (case env (lit ''MCPOD_PORT'') of Some v \<Rightarrow> parse_u16 v | None \<Rightarrow> Some 3000)"

definition csv_env :: "env \<Rightarrow> rstr \<Rightarrow> rstr list" where
  "csv_env env name =
     filter (\<lambda>s. s \<noteq> [])
       (map trim (split_char 44 (case env name of Some v \<Rightarrow> v | None \<Rightarrow> [])))"

definition is_ascii_alphabetic :: "rchar \<Rightarrow> bool" where
  "is_ascii_alphabetic c \<longleftrightarrow> 65 \<le> c \<and> c \<le> 90 \<or> 97 \<le> c \<and> c \<le> 122"

definition duration_env :: "env \<Rightarrow> rstr \<Rightarrow> nat \<Rightarrow> (config_error + duration) option" where
  "duration_env env name default_secs =
     (case env name of
        None \<Rightarrow> Some (Inr (from_secs default_secs))
      | Some value \<Rightarrow>
          (let raw = trim value
           in if raw = [] then Some (Inr (from_secs default_secs))
              else (let number = takeWhile (\<lambda>c. \<not> is_ascii_alphabetic c) raw;
                        unit = trim (dropWhile (\<lambda>c. \<not> is_ascii_alphabetic c) raw)
                    in case parse_f64 (trim number) of
                         None \<Rightarrow> Some (Inl (InvalidDuration name raw))
                       | Some value \<Rightarrow>
                           if \<not> is_finite value \<or> \<not> positive value
                           then Some (Inl (NotPositive name raw))
                           else if unit = [] \<or> unit = lit ''s''
                           then map_option Inr (from_secs_f64 value)
                           else if unit = lit ''m''
                           then map_option Inr (from_secs_f64 (times_nat value 60))
                           else if unit = lit ''h''
                           then map_option Inr (from_secs_f64 (times_nat value 3600))
                           else Some (Inl (InvalidUnit name unit)))))"

section \<open>The workspace\<close>

definition default_workspace :: "fpath option \<Rightarrow> path option" where
  "default_workspace cwd = map_option abs_path cwd"

text \<open>
  A relative value is taken from the current directory by the file system calls; they fail when
  there is none.
\<close>

definition workspace_env :: "env \<Rightarrow> fpath option \<Rightarrow> path option" where
  "workspace_env env cwd =
     (case map_option trim (env (lit ''MCPOD_WORKSPACE'')) of
        Some w \<Rightarrow>
          if w \<noteq> [] then Some (path_join (case cwd of Some d \<Rightarrow> abs_path d | None \<Rightarrow> []) w)
          else default_workspace cwd
      | None \<Rightarrow> default_workspace cwd)"

definition canonicalize_root :: "fs \<Rightarrow> path \<Rightarrow> (config_error + fpath) \<times> fs" where
  "canonicalize_root fs p =
     (case (if take 1 p = [RootDir] then create_dir_all fs p else (Inl ENOENT, fs)) of
        (Inl e, fs') \<Rightarrow> (Inl (CannotCreateWorkspace e), fs')
      | (Inr _, fs') \<Rightarrow>
          (case canonicalize fs' p of
             Inl e \<Rightarrow> (Inl (CannotResolveWorkspace e), fs')
           | Inr q \<Rightarrow> (Inr q, fs')))"

section \<open>Everything\<close>

definition from_env :: "env \<Rightarrow> fpath option \<Rightarrow> fs \<Rightarrow> ((config_error + config) \<times> fs) option" where
  "from_env env cwd fs =
     (case host_env env of
        None \<Rightarrow> Some (Inl InvalidHost, fs)
      | Some host \<Rightarrow>
     (case port_env env of
        None \<Rightarrow> Some (Inl InvalidPort, fs)
      | Some port \<Rightarrow>
     (case workspace_env env cwd of
        None \<Rightarrow> None
      | Some p \<Rightarrow>
     (case canonicalize_root fs p of
        (Inl e, fs') \<Rightarrow> Some (Inl e, fs')
      | (Inr base, fs') \<Rightarrow>
     (case duration_env env (lit ''MCPOD_SSE_SESSION_TTL'') (30 * 60) of
        None \<Rightarrow> None
      | Some (Inl e) \<Rightarrow> Some (Inl e, fs')
      | Some (Inr ttl) \<Rightarrow>
     (case duration_env env (lit ''MCPOD_SSE_KEEPALIVE'') 15 of
        None \<Rightarrow> None
      | Some (Inl e) \<Rightarrow> Some (Inl e, fs')
      | Some (Inr keepalive) \<Rightarrow>
          Some (Inr \<lparr>cf_token = token_env env, cf_host = host, cf_port = port,
                     cf_workspace = base,
                     cf_allowed_hosts = csv_env env (lit ''MCPOD_ALLOWED_HOSTS''),
                     cf_allowed_origins = csv_env env (lit ''MCPOD_ALLOWED_ORIGINS''),
                     cf_sse_session_ttl = ttl, cf_sse_keepalive = keepalive\<rparr>, fs')))))))"

section \<open>Origins\<close>

definition origin_allowed :: "config \<Rightarrow> rstr \<Rightarrow> bool" where
  "origin_allowed config origin =
     (if cf_allowed_origins config \<noteq> []
      then list_ex (\<lambda>allowed. allowed = origin) (cf_allowed_origins config)
      else case split_once (lit ''://'') origin of
          None \<Rightarrow> False
        | Some (scheme, rest) \<Rightarrow>
            if scheme \<noteq> lit ''http'' \<and> scheme \<noteq> lit ''https'' then False
            else (let host = (case rsplit_once 58 rest of None \<Rightarrow> rest | Some (h, _) \<Rightarrow> h);
                      host = trim_end_by (\<lambda>c. c = 93) (trim_start_matches (\<lambda>c. c = 91) host)
                  in host = lit ''localhost'' \<or> host = lit ''127.0.0.1'' \<or> host = lit ''::1''))"

section \<open>Properties\<close>

lemma trim_no_space:
  assumes "s \<noteq> []" and "\<not> is_whitespace (hd s)" and "\<not> is_whitespace (last s)"
  shows "trim s = s"
proof -
  have "trim_start s = s" using assms by (cases s) (auto simp: trim_start_def)
  moreover have "trim_end_by is_whitespace s = s"
    using assms by (cases s rule: rev_cases) (auto simp: trim_end_by_def)
  ultimately show ?thesis by (simp add: trim_def)
qed

lemma trim_ends:
  assumes "trim s \<noteq> []"
  shows "\<not> is_whitespace (hd (trim s))" "\<not> is_whitespace (last (trim s))"
proof -
  show "\<not> is_whitespace (last (trim s))"
    using assms trim_end_by_last unfolding trim_def by blast
  obtain t where t: "trim_start s = trim s @ t"
    using trim_end_by_prefix unfolding trim_def prefix_def by blast
  then have "trim_start s \<noteq> []" "hd (trim_start s) = hd (trim s)" using assms by auto
  then show "\<not> is_whitespace (hd (trim s))"
    unfolding trim_start_def by (metis hd_dropWhile)
qed

lemma trim_idem: "trim (trim s) = trim s"
  using trim_no_space [of "trim s"] trim_ends [of s]
  by (cases "trim s = []") (simp_all, simp add: trim_def trim_start_def trim_end_by_def)

lemma trim_subset: "set (trim s) \<subseteq> set s"
  unfolding trim_def trim_start_def trim_end_by_def
  by (auto dest!: set_dropWhileD)

lemma csv_env_entry:
  assumes "h \<in> set (csv_env env name)"
  shows "h \<noteq> [] \<and> trim h = h \<and> 44 \<notin> set h"
proof -
  obtain w s where w: "w \<in> set (split_char 44 s)" "h = trim w" "h \<noteq> []"
    using assms unfolding csv_env_def by auto
  then show ?thesis using split_char_free [OF w(1)] trim_subset [of w] by (auto simp: trim_idem)
qed

subsection \<open>Durations\<close>

definition unit_seconds :: "rstr \<Rightarrow> nat option" where
  "unit_seconds u =
     (if u = [] \<or> u = lit ''s'' then Some 1 else if u = lit ''m'' then Some 60
      else if u = lit ''h'' then Some 3600 else None)"

lemma unit_secondsE:
  assumes "unit_seconds u = Some k"
  obtains "u = []" "k = 1" | c where "u = [c]" "is_ascii_alphabetic c" "\<not> is_whitespace c"
  using assms
  by (auto simp: unit_seconds_def lit_def is_ascii_alphabetic_def is_whitespace_def split: if_splits)

lemma dec_char:
  assumes "d \<in> set (dec n)"
  shows "\<not> is_ascii_alphabetic d" "\<not> is_whitespace d"
  using dec_digits [OF assms] by (auto simp: is_ascii_alphabetic_def is_whitespace_def)

lemma trim_dec: "trim (dec n) = dec n"
  using dec_char(2) [of "hd (dec n)" n] dec_char(2) [of "last (dec n)" n]
  by (intro trim_no_space) auto

lemma number_and_unit:
  assumes "unit_seconds u = Some k"
  shows "trim (dec n @ u) = dec n @ u"
    "takeWhile (\<lambda>c. \<not> is_ascii_alphabetic c) (dec n @ u) = dec n"
    "dropWhile (\<lambda>c. \<not> is_ascii_alphabetic c) (dec n @ u) = u" "trim u = u"
proof -
  have all: "\<forall>c \<in> set (dec n). \<not> is_ascii_alphabetic c" using dec_char by blast
  have hd: "\<not> is_whitespace (hd (dec n @ u))" using dec_char(2) [of "hd (dec n)" n] by simp
  show "trim (dec n @ u) = dec n @ u"
    using assms
  proof (rule unit_secondsE)
    assume "u = []"
    then show ?thesis by (simp add: trim_dec)
  qed (rule trim_no_space, use hd in auto)
  show "takeWhile (\<lambda>c. \<not> is_ascii_alphabetic c) (dec n @ u) = dec n"
    "dropWhile (\<lambda>c. \<not> is_ascii_alphabetic c) (dec n @ u) = u"
    using assms by (auto elim!: unit_secondsE simp: takeWhile_append dropWhile_append all)
  show "trim u = u"
    using assms by (rule unit_secondsE) (auto intro: trim_no_space simp: trim_def trim_start_def trim_end_by_def)
qed

text \<open>
  A duration written as a positive number with the unit \<open>s\<close>, \<open>m\<close>, \<open>h\<close> or none is that many
  seconds, minutes or hours, exactly, although it is computed in floating point, as long as the
  seconds fit in the 53 bits of an \<^theory_text>\<open>f64\<close>.
\<close>
theorem duration_env_exact:
  assumes "env name = Some (dec n @ u)" and "unit_seconds u = Some k" and "0 < n" and "n * k < 2 ^ 53"
  shows "duration_env env name d = Some (Inr (from_secs (n * k)))"
proof -
  have k: "0 < k" using assms(2) by (auto simp: unit_seconds_def split: if_splits)
  then have "n \<le> n * k" by simp
  then have n: "n < 2 ^ 53" using assms(4) by (rule le_less_trans)
  then obtain x where x: "parse_f64 (dec n) = Some x" "is_nat_value x n" by (rule parse_f64_dec)
  have "n * k < 2 ^ 64" using assms(4) by (rule less_trans) simp
  then have conv: "from_secs_f64 (times_nat x k) = Some (from_secs (n * k))"
    using from_secs_f64_nat times_nat_exact [OF x(2) assms(4)] by blast
  have one: "from_secs_f64 x = Some (from_secs n)"
    using from_secs_f64_nat [OF x(2)] n by simp
  have raw: "dec n @ u \<noteq> []" by simp
  note pos = is_nat_value_positive [OF x(2)] is_nat_value_finite [OF x(2)]
  note eqs = assms(1) number_and_unit [OF assms(2)] trim_dec x(1) pos assms(3)
  show ?thesis
    using assms(2) conv one raw
    by (auto simp: duration_env_def eqs unit_seconds_def lit_def split: if_splits)
qed

theorem duration_env_exact_witness:
  "duration_env [lit ''MCPOD_SSE_SESSION_TTL'' \<mapsto> dec 45 @ lit ''m''] (lit ''MCPOD_SSE_SESSION_TTL'') 1800
     = Some (Inr (from_secs (45 * 60)))"
  by (rule duration_env_exact [where u = "lit ''m''"]) (simp_all add: unit_seconds_def lit_def)

text \<open>
  A value that is finite and positive still panics when it does not fit in a \<^theory_text>\<open>Duration\<close>, and
  one below half a nanosecond passes the check and becomes zero.
\<close>

lemmas duration_eval =
  f64_eval duration_env_def trim_def trim_start_def trim_end_by_def is_whitespace_def
  is_ascii_alphabetic_def lit_def from_secs_def

lemma duration_env_panics:
  "duration_env [lit ''T'' \<mapsto> lit ''20000000000000000000''] (lit ''T'') 15 = None"
  by (simp add: duration_eval)

lemma duration_env_zero:
  "duration_env [lit ''T'' \<mapsto> lit ''0.0000000001''] (lit ''T'') 15 = Some (Inr 0)"
  by (simp add: duration_eval)

subsection \<open>The workspace\<close>

lemma workspace_env_plain:
  assumes "workspace_env env cwd = Some p" and "\<And>d. cwd = Some d \<Longrightarrow> workspace fs d" and "Normal w \<in> set p"
  shows "plain_name w"
proof -
  have cwd: "plain_name w" if "cwd = Some d" "Normal w \<in> set (abs_path d)" for d
    using assms(2) [OF that(1)] that(2) by (auto simp: workspace_def abs_path_def intro: wf_fs_plain)
  have "Normal w \<in> set (components v) \<or> (\<exists>d. cwd = Some d \<and> Normal w \<in> set (abs_path d))"
    if "p = path_join (case cwd of Some d \<Rightarrow> abs_path d | None \<Rightarrow> []) v" for v
    using that assms(3) by (auto simp: path_join_def split: option.splits if_splits)
  then show ?thesis
    using assms(1,3) cwd components_plain
    by (auto simp: workspace_env_def default_workspace_def split: option.splits if_splits)
qed

lemma canonicalize_root_Inr:
  assumes "wf_fs fs" and "\<forall>w. Normal w \<in> set p \<longrightarrow> plain_name w" and "canonicalize_root fs p = (Inr q, fs')"
  shows "workspace fs' q"
proof -
  obtain u where c: "create_dir_all fs p = (Inr u, fs')" "p \<noteq> []" "canonicalize fs' p = Inr q"
    using assms(3) by (cases "p = []") (auto simp: canonicalize_root_def split: sum.splits prod.splits if_splits)
  then have "wf_fs fs' \<and> fs_is_dir fs' p"
    using create_dir_all_spec [OF assms(1,2) c(1)] by simp
  then show ?thesis using c(3) by (simp add: workspace_def fs_is_dir_def)
qed

lemma from_env_Inr:
  assumes "from_env env cwd fs = Some (Inr c, fs')"
  obtains p where "workspace_env env cwd = Some p" "canonicalize_root fs p = (Inr (cf_workspace c), fs')"
    "cf_token c = token_env env" "cf_allowed_hosts c = csv_env env (lit ''MCPOD_ALLOWED_HOSTS'')"
    "cf_allowed_origins c = csv_env env (lit ''MCPOD_ALLOWED_ORIGINS'')"
    "host_env env = Some (cf_host c)" "port_env env = Some (cf_port c)"
  using assms
  by (auto simp: from_env_def split: option.splits sum.splits prod.splits)

lemma from_env_workspace:
  assumes "wf_fs fs" and "\<And>d. cwd = Some d \<Longrightarrow> workspace fs d"
    and "from_env env cwd fs = Some (Inr c, fs')"
  shows "workspace fs' (cf_workspace c)"
proof -
  obtain p where "workspace_env env cwd = Some p" "canonicalize_root fs p = (Inr (cf_workspace c), fs')"
    by (rule from_env_Inr [OF assms(3)])
  then show ?thesis using canonicalize_root_Inr [OF assms(1)] workspace_env_plain assms(2) by blast
qed

text \<open>
  C36: A configuration that is read successfully is well formed: the workspace is the canonical path
  of an existing directory (the assumption the file tools work under), a token is neither empty nor
  surrounded by white space, and the same holds of every allowed host and origin, none of which
  contains a comma.
\<close>
theorem from_env_well_formed:
  assumes "wf_fs fs" and "\<And>d. cwd = Some d \<Longrightarrow> workspace fs d"
    and "from_env env cwd fs = Some (Inr c, fs')"
  shows "workspace fs' (cf_workspace c) \<and> cf_token c \<noteq> Some [] \<and>
    map_option trim (cf_token c) = cf_token c \<and>
    list_all (\<lambda>h. h \<noteq> [] \<and> trim h = h \<and> 44 \<notin> set h) (cf_allowed_hosts c @ cf_allowed_origins c)"
proof -
  obtain p where p: "workspace_env env cwd = Some p" "canonicalize_root fs p = (Inr (cf_workspace c), fs')"
    "cf_token c = token_env env" "cf_allowed_hosts c = csv_env env (lit ''MCPOD_ALLOWED_HOSTS'')"
    "cf_allowed_origins c = csv_env env (lit ''MCPOD_ALLOWED_ORIGINS'')"
    by (rule from_env_Inr [OF assms(3)])
  have "workspace fs' (cf_workspace c)" by (rule from_env_workspace [OF assms])
  moreover have "cf_token c \<noteq> Some [] \<and> map_option trim (cf_token c) = cf_token c"
    unfolding p(3) token_env_def by (auto simp: trim_idem split: option.splits)
  moreover have "list_all (\<lambda>h. h \<noteq> [] \<and> trim h = h \<and> 44 \<notin> set h) (cf_allowed_hosts c @ cf_allowed_origins c)"
    unfolding p(4,5) list_all_iff using csv_env_entry by auto
  ultimately show ?thesis by blast
qed

definition env_sample :: env where
  "env_sample = map_of
     [(lit ''MCPOD_TOKEN'', lit '' secret ''), (lit ''MCPOD_WORKSPACE'', lit ''sub/w''),
      (lit ''MCPOD_ALLOWED_ORIGINS'', lit ''https://a.example, ,https://b.example'')]"

definition config_fs :: fs where
  "config_fs = map_of [([], Dir), ([lit ''home''], Dir)]"

theorem from_env_well_formed_witness:
  "\<exists>c fs'. from_env env_sample (Some [lit ''home'']) config_fs = Some (Inr c, fs') \<and>
     cf_token c = Some (lit ''secret'') \<and> workspace fs' (cf_workspace c)"
proof -
  let ?r = "from_env env_sample (Some [lit ''home'']) config_fs"
  have "(case ?r of Some (Inr c, fs') \<Rightarrow> cf_token c = Some (lit ''secret'') | _ \<Rightarrow> False)"
    by code_simp
  then obtain c fs' where r: "?r = Some (Inr c, fs')" "cf_token c = Some (lit ''secret'')"
    by (auto split: option.splits sum.splits prod.splits)
  have "wf_fs config_fs" unfolding config_fs_def by (rule wf_fs_map_of) code_simp
  moreover have "workspace config_fs [lit ''home'']"
    using calculation by (simp add: workspace_def config_fs_def lit_def)
  ultimately show ?thesis using from_env_well_formed [of config_fs "Some [lit ''home'']", OF _ _ r(1)] r by auto
qed

subsection \<open>Origins\<close>












text \<open>The IPv6 loopback without a port is an origin of this machine and is refused.\<close>

definition open_config :: config where
  "open_config = \<lparr>cf_token = None, cf_host = V4 [127, 0, 0, 1], cf_port = 3000, cf_workspace = [],
     cf_allowed_hosts = [], cf_allowed_origins = [], cf_sse_session_ttl = from_secs 1800,
     cf_sse_keepalive = from_secs 15\<rparr>"

lemma ipv6_origin_needs_port:
  "\<not> origin_allowed open_config (lit ''http://[::1]'')"
  "origin_allowed open_config (lit ''http://[::1]:80'')"
  "origin_allowed open_config (lit ''http://localhost:not a port'')"
  by code_simp+

end
