(* ===== verification/Http.thy ===== *)
theory Http
  imports Rust_Str
begin

text \<open>
  Requests, responses and handlers as the middleware and the endpoints see them. Parsing and
  routing HTTP is the work of the axum and http crates: a request is what they hand to the
  program. A handler reads the state of the server and gives the log records it emits, the
  response and the new state.
\<close>

record request =
  rq_method :: rstr
  rq_path :: rstr
  rq_header :: "rstr \<Rightarrow> byte list option"    \<comment> \<open>\<^theory_text>\<open>HeaderMap::get\<close> on a lower-case name\<close>
  rq_session_id :: rstr                        \<comment> \<open>the query parameter \<^theory_text>\<open>sessionId\<close>\<close>
  rq_body :: "byte list"

record response =
  rs_status :: nat
  rs_headers :: "(rstr \<times> rstr) list"
  rs_body :: rstr

definition plain_response :: "nat \<Rightarrow> rstr \<Rightarrow> response" where
  "plain_response status body = \<lparr>rs_status = status, rs_headers = [], rs_body = body\<rparr>"

text \<open>The log records of the middleware, with their fields.\<close>

datatype log_record =
    RequestReceived rstr rstr rstr
  | RequestCompleted rstr rstr rstr nat
  | AuthenticationFailed rstr rstr
  | OriginRejected rstr rstr

type_synonym 's handler = "request \<Rightarrow> 's \<Rightarrow> log_record list \<times> response \<times> 's"

text \<open>
  \<^theory_text>\<open>HeaderValue::to_str\<close> of the http crate is a parameter \<open>to_str\<close> of the middleware. A function
  with its documented behaviour, visible ASCII or nothing, is used where an input is evaluated.
\<close>

definition visible_ascii :: "byte list \<Rightarrow> rstr option" where
  "visible_ascii bs =
     (if list_all (\<lambda>b. 32 \<le> unat b \<and> unat b < 127 \<or> unat b = 9) bs then Some (map unat bs) else None)"

section \<open>Gates\<close>

text \<open>
  What a piece of middleware that guards a handler promises: a request it lets pass is the
  handler's, any other is answered without the handler and without a change of the state.
\<close>

locale gate =
  fixes wrap :: "'s handler \<Rightarrow> 's handler"
    and pass :: "request \<Rightarrow> bool"
    and refuse :: "request \<Rightarrow> log_record list \<times> response"
  assumes passes: "pass r \<Longrightarrow> wrap h r s = h r s"
    and refuses: "\<not> pass r \<Longrightarrow> wrap h r s = (fst (refuse r), snd (refuse r), s)"
begin

lemma wrap_eq: "wrap h r s = (if pass r then h r s else (fst (refuse r), snd (refuse r), s))"
  using passes refuses by simp

lemma refused_state: "\<not> pass r \<Longrightarrow> snd (snd (wrap h r s)) = s"
  by (simp add: refuses)

lemma handler_irrelevant: "\<not> pass r \<Longrightarrow> wrap h r s = wrap h' r s"
  by (simp add: refuses)

end

text \<open>One gate behind another is a gate again.\<close>

locale two_gates = outer: gate wrap1 pass1 refuse1 + inner: gate wrap2 pass2 refuse2
  for wrap1 :: "'s handler \<Rightarrow> 's handler" and pass1 refuse1
    and wrap2 :: "'s handler \<Rightarrow> 's handler" and pass2 refuse2

sublocale two_gates \<subseteq> both: gate "\<lambda>h. wrap1 (wrap2 h)" "\<lambda>r. pass1 r \<and> pass2 r"
    "\<lambda>r. if pass1 r then refuse2 r else refuse1 r"
  by unfold_locales (auto simp: outer.wrap_eq inner.wrap_eq)

end
