(* ===== verification/Auth.thy ===== *)
theory Auth
  imports Config Http
begin

text \<open>
  \<^theory_text>\<open>auth.rs\<close>: the middleware that checks the bearer token and the origin, the log records
  around every request, and the comparison whose running time does not depend on the token.
\<close>

section \<open>Transport labels and logging\<close>

definition transport_of :: "rstr \<Rightarrow> rstr" where
  "transport_of path =
     (if path = lit ''/mcp'' then lit ''streamable_http''
      else if path = lit ''/sse'' \<or> path = lit ''/messages'' then lit ''legacy_sse''
      else lit ''http'')"

text \<open>The elapsed time of the second record is left out.\<close>

definition log_requests :: "'s handler \<Rightarrow> 's handler" where
  "log_requests next_handler request s =
     (let method = rq_method request; path = rq_path request; transport = transport_of path;
          (logs, response, s') = next_handler request s
      in ([RequestReceived transport method path] @ logs
            @ [RequestCompleted transport method path (rs_status response)], response, s'))"

section \<open>The bearer token\<close>

definition constant_time_eq :: "byte list \<Rightarrow> byte list \<Rightarrow> bool" where
  "constant_time_eq a b =
     (if length a \<noteq> length b then False
      else foldl (\<lambda>diff (x, y). or diff (xor x y)) 0 (zip a b) = 0)"

definition unauthorized :: response where
  "unauthorized = \<lparr>rs_status = 401, rs_headers = [(lit ''www-authenticate'', lit ''Bearer'')],
     rs_body = lit ''Unauthorized''\<rparr>"

definition require_bearer :: "(byte list \<Rightarrow> rstr option) \<Rightarrow> config \<Rightarrow> 's handler \<Rightarrow> 's handler" where
  "require_bearer to_str config next_handler request s =
     (case cf_token config of
        None \<Rightarrow> next_handler request s
      | Some expected \<Rightarrow>
          (let provided = Option.bind (Option.bind (rq_header request (lit ''authorization'')) to_str)
                            (\<lambda>value. strip_prefix value (lit ''Bearer ''));
               authorized = (case provided of
                               Some token \<Rightarrow> constant_time_eq (utf8_encode token) (utf8_encode expected)
                             | None \<Rightarrow> False)
           in if \<not> authorized
              then ([AuthenticationFailed (transport_of (rq_path request)) (rq_path request)],
                    unauthorized, s)
              else next_handler request s))"

section \<open>The origin\<close>

definition forbidden :: response where
  "forbidden = plain_response 403 (lit ''Forbidden: origin not allowed'')"

definition require_allowed_origin ::
  "(byte list \<Rightarrow> rstr option) \<Rightarrow> config \<Rightarrow> 's handler \<Rightarrow> 's handler" where
  "require_allowed_origin to_str config next_handler request s =
     (case Option.bind (rq_header request (lit ''origin'')) to_str of
        None \<Rightarrow> next_handler request s
      | Some origin \<Rightarrow>
          if \<not> origin_allowed config origin
          then ([OriginRejected (transport_of (rq_path request)) origin], forbidden, s)
          else next_handler request s)"

section \<open>Properties\<close>

lemma or_eq_zero: "or x y = 0 \<longleftrightarrow> x = 0 \<and> y = (0 :: byte)"
  by (auto simp: bit_eq_iff bit_or_iff)

lemma xor_eq_zero: "xor x y = 0 \<longleftrightarrow> x = (y :: byte)"
  by (auto simp: bit_eq_iff bit_xor_iff)

lemma fold_diff: "foldl (\<lambda>diff (x, y). or diff (xor x y)) d ps = (0 :: byte) \<longleftrightarrow>
    d = 0 \<and> (\<forall>(x, y) \<in> set ps. x = y)"
  by (induction ps arbitrary: d) (auto simp: or_eq_zero xor_eq_zero)

lemma constant_time_eq_equal: "constant_time_eq a b = (a = b)"
proof (cases "length a = length b")
  case True
  then have "(\<forall>(x, y) \<in> set (zip a b). x = y) \<longleftrightarrow> a = b"
    by (induction a b rule: list_induct2) auto
  then show ?thesis using True by (simp add: constant_time_eq_def fold_diff)
qed (auto simp: constant_time_eq_def)

text \<open>The two pieces of middleware are gates.\<close>

definition bearer_ok :: "(byte list \<Rightarrow> rstr option) \<Rightarrow> config \<Rightarrow> request \<Rightarrow> bool" where
  "bearer_ok to_str config request \<longleftrightarrow>
     (case cf_token config of
        None \<Rightarrow> True
      | Some expected \<Rightarrow>
          (case Option.bind (Option.bind (rq_header request (lit ''authorization'')) to_str)
                  (\<lambda>value. strip_prefix value (lit ''Bearer '')) of
             Some token \<Rightarrow> utf8_encode token = utf8_encode expected
           | None \<Rightarrow> False))"

definition bearer_refusal :: "request \<Rightarrow> log_record list \<times> response" where
  "bearer_refusal request =
     ([AuthenticationFailed (transport_of (rq_path request)) (rq_path request)], unauthorized)"

definition origin_ok :: "(byte list \<Rightarrow> rstr option) \<Rightarrow> config \<Rightarrow> request \<Rightarrow> bool" where
  "origin_ok to_str config request \<longleftrightarrow>
     (case Option.bind (rq_header request (lit ''origin'')) to_str of
        None \<Rightarrow> True
      | Some origin \<Rightarrow> origin_allowed config origin)"

definition origin_refusal :: "(byte list \<Rightarrow> rstr option) \<Rightarrow> request \<Rightarrow> log_record list \<times> response" where
  "origin_refusal to_str request =
     ([OriginRejected (transport_of (rq_path request))
         (case Option.bind (rq_header request (lit ''origin'')) to_str of Some v \<Rightarrow> v | None \<Rightarrow> [])],
      forbidden)"

interpretation bearer: gate "require_bearer to_str config" "bearer_ok to_str config" bearer_refusal
  for to_str config
  by unfold_locales
    (auto simp: require_bearer_def bearer_ok_def bearer_refusal_def constant_time_eq_equal Let_def
      split: option.splits)

interpretation origin: gate "require_allowed_origin to_str config" "origin_ok to_str config"
  "origin_refusal to_str" for to_str config
  by unfold_locales
    (auto simp: require_allowed_origin_def origin_ok_def origin_refusal_def split: option.splits)

interpretation guarded: two_gates "require_allowed_origin to_str config" "origin_ok to_str config"
  "origin_refusal to_str" "require_bearer to_str config" "bearer_ok to_str config" bearer_refusal
  for to_str config
  by unfold_locales

lemma bearer_ok_iff:
  assumes "cf_token c = Some token" and "valid_str token"
    and "\<And>bs v. to_str bs = Some v \<Longrightarrow> valid_str v"
  shows "bearer_ok to_str c request \<longleftrightarrow>
    Option.bind (rq_header request (lit ''authorization'')) to_str = Some (lit ''Bearer '' @ token)"
proof (cases "Option.bind (rq_header request (lit ''authorization'')) to_str")
  case None
  then show ?thesis by (simp add: bearer_ok_def assms(1))
next
  case (Some v)
  then have v: "valid_str v" using assms(3) by (auto simp: bind_eq_Some_conv)
  show ?thesis
  proof (cases "strip_prefix v (lit ''Bearer '')")
    case None
    then have "v \<noteq> lit ''Bearer '' @ token" by (auto simp: strip_prefix_def)
    then show ?thesis using None by (simp add: bearer_ok_def assms(1) Some)
  next
    case (Some t)
    then have t: "v = lit ''Bearer '' @ t" by (simp add: strip_prefix_eq_Some)
    then have "valid_str t" using v by (simp add: valid_str_def)
    then have "utf8_encode t = utf8_encode token \<longleftrightarrow> t = token"
      using utf8_encode_inj assms(2) by blast
    then show ?thesis using Some t \<open>Option.bind _ _ = Some v\<close> by (simp add: bearer_ok_def assms(1))
  qed
qed

text \<open>
  C35: With a token configured, a request reaches the handler exactly when its first
  \<^theory_text>\<open>Authorization\<close> header is \<open>Bearer \<close> and the token; the comparison in constant time, folded
  over the bytes with bitwise operations, decides equality. Every other request is answered with
  401, leaves the state of the server as it is, and is logged with its path only: neither the
  expected nor the provided token is in the log.
\<close>
theorem bearer_gate:
  assumes "cf_token c = Some token" and "valid_str token"
    and "\<And>bs v. to_str bs = Some v \<Longrightarrow> valid_str v"
  shows "require_bearer to_str c h request s =
    (if Option.bind (rq_header request (lit ''authorization'')) to_str = Some (lit ''Bearer '' @ token)
     then h request s
     else ([AuthenticationFailed (transport_of (rq_path request)) (rq_path request)], unauthorized, s))"
proof -
  have "bearer_ok to_str c request \<longleftrightarrow>
      Option.bind (rq_header request (lit ''authorization'')) to_str = Some (lit ''Bearer '' @ token)"
    using assms by (rule bearer_ok_iff)
  then show ?thesis by (simp add: bearer.wrap_eq bearer_refusal_def)
qed

definition locked_config :: config where
  "locked_config = open_config\<lparr>cf_token := Some (lit ''t0k'')\<rparr>"

lemma visible_ascii_valid: "visible_ascii bs = Some v \<Longrightarrow> valid_str v"
proof -
  assume v: "visible_ascii bs = Some v"
  have "scalar (unat b)" if "b \<in> set bs" for b
    using v that by (auto simp: visible_ascii_def scalar_def list_all_iff split: if_splits dest!: bspec)
  then show ?thesis using v by (auto simp: visible_ascii_def valid_str_def list_all_iff split: if_splits)
qed

definition sample_request :: "rstr \<Rightarrow> (rstr \<times> rstr) list \<Rightarrow> request" where
  "sample_request path headers = \<lparr>rq_method = lit ''GET'', rq_path = path,
     rq_header = (\<lambda>name. map_option utf8_encode (map_of headers name)), rq_session_id = [],
     rq_body = []\<rparr>"

definition counting_handler :: "nat handler" where
  "counting_handler request s = ([], plain_response 200 [], s + 1)"

definition bearer_request :: "rstr \<Rightarrow> request" where
  "bearer_request value = sample_request (lit ''/mcp'') [(lit ''authorization'', value)]"

theorem bearer_gate_witness:
  "require_bearer visible_ascii locked_config counting_handler (bearer_request (lit ''Bearer t0k'')) 1
     = ([], plain_response 200 [], 2) \<and>
   require_bearer visible_ascii locked_config counting_handler (bearer_request (lit ''Bearer t0k2'')) 1
     = ([AuthenticationFailed (lit ''streamable_http'') (lit ''/mcp'')], unauthorized, 1)"
proof -
  have v: "valid_str (lit ''t0k'')" "cf_token locked_config = Some (lit ''t0k'')" by code_simp+
  have e: "Option.bind (rq_header (bearer_request (lit ''Bearer t0k'')) (lit ''authorization'')) visible_ascii
      = Some (lit ''Bearer '' @ lit ''t0k'')"
    "Option.bind (rq_header (bearer_request (lit ''Bearer t0k2'')) (lit ''authorization'')) visible_ascii
      \<noteq> Some (lit ''Bearer '' @ lit ''t0k'')"
    "transport_of (lit ''/mcp'') = lit ''streamable_http''"
    by code_simp+
  have p: "rq_path (bearer_request x) = lit ''/mcp''" for x
    by (simp add: bearer_request_def sample_request_def)
  show ?thesis
    using bearer_gate [OF v(2,1), of visible_ascii counting_handler, OF visible_ascii_valid] e p
    by (simp add: counting_handler_def)
qed

text \<open>
  A header that is not visible ASCII counts as no header: such an origin is not checked.
\<close>

lemma undecodable_origin_passes:
  "require_allowed_origin visible_ascii open_config (\<lambda>_ s. ([], plain_response 200 [], s + 1))
     (sample_request (lit ''/mcp'') [(lit ''origin'', 0xE9 # lit ''vil'')]) (1 :: nat)
   = ([], plain_response 200 [], 2)"
proof -
  have "Option.bind (rq_header (sample_request (lit ''/mcp'') [(lit ''origin'', 0xE9 # lit ''vil'')])
      (lit ''origin'')) visible_ascii = None"
    by code_simp
  then show ?thesis by (simp add: require_allowed_origin_def)
qed

end
