(* ===== verification/Legacy_Sse.thy ===== *)
theory Legacy_Sse
  imports Auth "HOL-Library.AList"
begin

text \<open>
  \<^theory_text>\<open>transport/legacy_sse.rs\<close>: the session manager, the adapter between a session's channels and
  the service loop, the event stream and the handler of posted messages.

  A session is created with two bounded channels and a cancellation token that the map's entry, the
  service loop and the event stream share; the model keeps them in a store, and the entry and the
  tasks refer to them by index. The JSON-RPC loop (\<^theory_text>\<open>serve_with_ct\<close>), JSON, UUIDs and the clock
  belong to libraries: the messages are of types \<open>'m\<close> (client) and \<open>'n\<close> (server), session ids and
  instants are arguments of the steps, and the loop may receive, send or end whenever it likes.
\<close>

section \<open>Constants\<close>

definition OUTBOUND_CAPACITY :: nat where
  "OUTBOUND_CAPACITY = 64"

definition SEND_TIMEOUT :: duration where
  "SEND_TIMEOUT = from_secs 60"

section \<open>Channels\<close>

text \<open>
  A \<^theory_text>\<open>mpsc\<close> channel of capacity \<^theory_text>\<open>OUTBOUND_CAPACITY\<close>: what is in it, and whether its receiver
  is still there. A send waits while the channel is full and fails when the receiver is gone.
\<close>

record 'a channel =
  ch_items :: "'a list"
  ch_open :: bool

definition new_channel :: "'a channel" where
  "new_channel = \<lparr>ch_items = [], ch_open = True\<rparr>"

datatype 'a poll = Pending | Ready 'a

definition channel_send :: "'a \<Rightarrow> 'a channel \<Rightarrow> (bool \<times> 'a channel) poll" where
  "channel_send x ch =
     (if \<not> ch_open ch then Ready (False, ch)
      else if OUTBOUND_CAPACITY \<le> length (ch_items ch) then Pending
      else Ready (True, ch\<lparr>ch_items := ch_items ch @ [x]\<rparr>))"

definition channel_recv :: "'a channel \<Rightarrow> ('a \<times> 'a channel) poll" where
  "channel_recv ch =
     (case ch_items ch of [] \<Rightarrow> Pending | x # xs \<Rightarrow> Ready (x, ch\<lparr>ch_items := xs\<rparr>))"

section \<open>The session manager\<close>

record session_entry =
  se_session :: nat    \<comment> \<open>the index of its inbound channel and its token\<close>
  se_disconnected_at :: "nat option"

datatype sse_event = Event (ev_event: rstr) (ev_data: rstr)

text \<open>
  What the tasks of a session share. \<open>sn_sent\<close> is the history of the messages the service loop has
  handed over, \<open>sn_wire\<close> that of the events the client was sent.
\<close>

record ('m, 'n) session =
  sn_id :: rstr
  sn_cancelled :: bool
  sn_inbound :: "'m channel"
  sn_outbound :: "'n channel"
  sn_guard_fired :: bool
  sn_sent :: "'n list"
  sn_wire :: "sse_event list"

type_synonym session_map = "(rstr \<times> session_entry) list"

record ('m, 'n) sse =
  ss_map :: session_map
  ss_sessions :: "('m, 'n) session list"
  ss_posts :: "(nat \<times> 'm) list"    \<comment> \<open>posts that hold a sender and have not finished sending\<close>

definition sse_new :: "('m, 'n) sse" where
  "sse_new = \<lparr>ss_map = [], ss_sessions = [], ss_posts = []\<rparr>"

text \<open>A new session; the result is its index, through which the stream has the receiver.\<close>

definition open_session :: "rstr \<Rightarrow> ('m, 'n) sse \<Rightarrow> nat \<times> ('m, 'n) sse" where
  "open_session session_id s =
     (let k = length (ss_sessions s)
      in (k, s\<lparr>ss_sessions := ss_sessions s @
                [\<lparr>sn_id = session_id, sn_cancelled = False, sn_inbound = new_channel,
                  sn_outbound = new_channel, sn_guard_fired = False, sn_sent = [], sn_wire = []\<rparr>],
              ss_map := AList.update session_id \<lparr>se_session = k, se_disconnected_at = None\<rparr> (ss_map s)\<rparr>))"

definition upd_session :: "nat \<Rightarrow> (('m, 'n) session \<Rightarrow> ('m, 'n) session) \<Rightarrow> ('m, 'n) sse \<Rightarrow> ('m, 'n) sse" where
  "upd_session k f s = s\<lparr>ss_sessions := (ss_sessions s)[k := f (ss_sessions s ! k)]\<rparr>"

definition cancel_session :: "nat \<Rightarrow> ('m, 'n) sse \<Rightarrow> ('m, 'n) sse" where
  "cancel_session k s = upd_session k (\<lambda>x. x\<lparr>sn_cancelled := True\<rparr>) s"

text \<open>
  \<^theory_text>\<open>deliver\<close> in its two parts: the sender is cloned while the map is locked, the message is sent
  after the lock is released. The second part may have to wait.
\<close>

definition deliver_sender :: "rstr \<Rightarrow> ('m, 'n) sse \<Rightarrow> nat option" where
  "deliver_sender session_id s = map_option se_session (map_of (ss_map s) session_id)"

definition deliver_send :: "nat \<Rightarrow> 'm \<Rightarrow> ('m, 'n) sse \<Rightarrow> (unit option \<times> ('m, 'n) sse) poll" where
  "deliver_send k msg s =
     (case channel_send msg (sn_inbound (ss_sessions s ! k)) of
        Pending \<Rightarrow> Pending
      | Ready (sent, ch) \<Rightarrow>
          Ready (if sent then Some () else None, upd_session k (\<lambda>x. x\<lparr>sn_inbound := ch\<rparr>) s))"

definition deliver :: "rstr \<Rightarrow> 'm \<Rightarrow> ('m, 'n) sse \<Rightarrow> (unit option \<times> ('m, 'n) sse) poll" where
  "deliver session_id msg s =
     (case deliver_sender session_id s of
        Some k \<Rightarrow> deliver_send k msg s
      | None \<Rightarrow> Ready (None, s))"

definition disconnect :: "rstr \<Rightarrow> nat \<Rightarrow> ('m, 'n) sse \<Rightarrow> ('m, 'n) sse" where
  "disconnect session_id now s =
     (case map_of (ss_map s) session_id of
        None \<Rightarrow> s
      | Some e \<Rightarrow>
          (cancel_session (se_session e) s)
            \<lparr>ss_map := AList.update session_id
                (case se_disconnected_at e of
                   None \<Rightarrow> e\<lparr>se_disconnected_at := Some now\<rparr>
                 | Some t0 \<Rightarrow> e) (ss_map s)\<rparr>)"

text \<open>\<^theory_text>\<open>Instant::elapsed\<close> is zero for an instant that is not in the past.\<close>

definition expired :: "duration \<Rightarrow> nat \<Rightarrow> session_entry \<Rightarrow> bool" where
  "expired ttl now e =
     (case se_disconnected_at e of Some t0 \<Rightarrow> ttl < now - t0 | None \<Rightarrow> False)"

definition sweep :: "duration \<Rightarrow> nat \<Rightarrow> ('m, 'n) sse \<Rightarrow> ('m, 'n) sse" where
  "sweep ttl now s = s\<lparr>ss_map := filter (\<lambda>(_, e). \<not> expired ttl now e) (ss_map s)\<rparr>"

definition close_all :: "('m, 'n) sse \<Rightarrow> ('m, 'n) sse" where
  "close_all s = (fold (\<lambda>(_, e). cancel_session (se_session e)) (ss_map s) s)\<lparr>ss_map := []\<rparr>"

definition active_count :: "('m, 'n) sse \<Rightarrow> nat" where
  "active_count s = length (filter (\<lambda>(_, e). se_disconnected_at e = None) (ss_map s))"

text \<open>
  The sweeper's loop: at a tick it sweeps, at the shutdown it closes everything and stops. The
  answer says whether it goes on.
\<close>

datatype sweeper_event = Tick nat | Shutdown

definition sweeper_turn :: "duration \<Rightarrow> sweeper_event \<Rightarrow> ('m, 'n) sse \<Rightarrow> bool \<times> ('m, 'n) sse" where
  "sweeper_turn ttl ev s =
     (case ev of Tick now \<Rightarrow> (True, sweep ttl now s) | Shutdown \<Rightarrow> (False, close_all s))"

section \<open>The transport adapter\<close>

datatype transport_error = Closed | SendTimeout

fun transport_error_text :: "transport_error \<Rightarrow> rstr" where
  "transport_error_text Closed = lit ''session closed''"
| "transport_error_text SendTimeout = lit ''client stopped reading SSE stream''"

text \<open>\<open>waited\<close> is the time the send has been waiting.\<close>

definition transport_send ::
  "nat \<Rightarrow> 'n \<Rightarrow> duration \<Rightarrow> ('m, 'n) sse \<Rightarrow> ((transport_error + unit) \<times> ('m, 'n) sse) poll" where
  "transport_send k item waited s =
     (case channel_send item (sn_outbound (ss_sessions s ! k)) of
        Ready (True, ch) \<Rightarrow>
          Ready (Inr (), upd_session k (\<lambda>x. x\<lparr>sn_outbound := ch, sn_sent := sn_sent x @ [item]\<rparr>) s)
      | Ready (False, ch) \<Rightarrow> Ready (Inl Closed, s)
      | Pending \<Rightarrow> if SEND_TIMEOUT \<le> waited then Ready (Inl SendTimeout, s) else Pending)"

definition transport_receive :: "nat \<Rightarrow> ('m, 'n) sse \<Rightarrow> ('m \<times> ('m, 'n) sse) poll" where
  "transport_receive k s =
     (case channel_recv (sn_inbound (ss_sessions s ! k)) of
        Pending \<Rightarrow> Pending
      | Ready (m, ch) \<Rightarrow> Ready (m, upd_session k (\<lambda>x. x\<lparr>sn_inbound := ch\<rparr>) s))"

text \<open>The loop ends and drops the transport: the inbound channel loses its receiver.\<close>

definition transport_drop :: "nat \<Rightarrow> ('m, 'n) sse \<Rightarrow> ('m, 'n) sse" where
  "transport_drop k s = upd_session k (\<lambda>x. x\<lparr>sn_inbound := (sn_inbound x)\<lparr>ch_open := False\<rparr>\<rparr>) s"

section \<open>The event stream\<close>

definition messages_path :: "rstr \<Rightarrow> rstr" where
  "messages_path session_id = lit ''/messages?sessionId='' @ session_id"

definition endpoint_event :: "rstr \<Rightarrow> sse_event" where
  "endpoint_event session_id = Event (lit ''endpoint'') (messages_path session_id)"

definition message_event :: "('n \<Rightarrow> rstr) \<Rightarrow> 'n \<Rightarrow> sse_event" where
  "message_event to_json m = Event (lit ''message'') (to_json m)"

text \<open>The next event of the stream of session \<open>k\<close>: the endpoint first, then the messages.\<close>

definition stream_next :: "('n \<Rightarrow> rstr) \<Rightarrow> nat \<Rightarrow> ('m, 'n) sse \<Rightarrow> (sse_event \<times> ('m, 'n) sse) poll" where
  "stream_next to_json k s =
     (let x = ss_sessions s ! k
      in if sn_wire x = []
         then Ready (endpoint_event (sn_id x),
                     upd_session k (\<lambda>x. x\<lparr>sn_wire := [endpoint_event (sn_id x)]\<rparr>) s)
         else case channel_recv (sn_outbound x) of
             Pending \<Rightarrow> Pending
           | Ready (m, ch) \<Rightarrow>
               Ready (message_event to_json m,
                      upd_session k (\<lambda>x. x\<lparr>sn_outbound := ch,
                        sn_wire := sn_wire x @ [message_event to_json m]\<rparr>) s))"

text \<open>Dropping the stream fires its guard and drops the receiver.\<close>

definition guard_fire :: "nat \<Rightarrow> nat \<Rightarrow> ('m, 'n) sse \<Rightarrow> ('m, 'n) sse" where
  "guard_fire k now s =
     (if sn_guard_fired (ss_sessions s ! k) then s
      else disconnect (sn_id (ss_sessions s ! k)) now
             (upd_session k (\<lambda>x. x\<lparr>sn_guard_fired := True\<rparr>) s))"

definition stream_drop :: "nat \<Rightarrow> nat \<Rightarrow> ('m, 'n) sse \<Rightarrow> ('m, 'n) sse" where
  "stream_drop k now s =
     guard_fire k now (upd_session k (\<lambda>x. x\<lparr>sn_outbound := (sn_outbound x)\<lparr>ch_open := False\<rparr>\<rparr>) s)"

section \<open>Posted messages\<close>

text \<open>\<open>from_json\<close> is the parser of JSON-RPC messages, with the text of its error.\<close>

definition messages_handler ::
  "(byte list \<Rightarrow> rstr option) \<Rightarrow> (byte list \<Rightarrow> rstr + 'm) \<Rightarrow> request \<Rightarrow> ('m, 'n) sse
     \<Rightarrow> (response \<times> ('m, 'n) sse) poll" where
  "messages_handler to_str from_json request s =
     (if \<not> (case Option.bind (rq_header request (lit ''content-type'')) to_str of
               Some v \<Rightarrow> prefix (lit ''application/json'') v
             | None \<Rightarrow> False)
      then Ready (plain_response 415 (lit ''Content-Type must be application/json''), s)
      else case from_json (rq_body request) of
          Inl e \<Rightarrow> Ready (plain_response 400 (lit ''Invalid JSON-RPC message: '' @ e), s)
        | Inr message \<Rightarrow>
            (case deliver (rq_session_id request) message s of
               Pending \<Rightarrow> Pending
             | Ready (Some _, s') \<Rightarrow> Ready (plain_response 202 (lit ''Accepted''), s')
             | Ready (None, s') \<Rightarrow> Ready (plain_response 404 (lit ''Session not found''), s')))"

end
