(* ===== verification/Sse_Sessions.thy ===== *)
theory Sse_Sessions
  imports Legacy_Sse
begin

text \<open>
  The life of the legacy SSE sessions: every interleaving of the operations of
  \<^theory_text>\<open>transport/legacy_sse.rs\<close> as a step relation, and what holds in every state that can be
  reached. Session ids are fresh, which is what a version 4 UUID is for.
\<close>

section \<open>The steps\<close>

text \<open>What the tasks of the sessions that exist do.\<close>

inductive traffic_step :: "('n \<Rightarrow> rstr) \<Rightarrow> ('m, 'n) sse \<Rightarrow> ('m, 'n) sse \<Rightarrow> bool"
  for to_json where
  post_begin: "deliver_sender i s = Some k \<Longrightarrow>
    traffic_step to_json s (s\<lparr>ss_posts := ss_posts s @ [(k, m)]\<rparr>)"
| post_end: "\<lbrakk>ss_posts s = ps @ (k, m) # qs; deliver_send k m s = Ready (r, s')\<rbrakk> \<Longrightarrow>
    traffic_step to_json s (s'\<lparr>ss_posts := ps @ qs\<rparr>)"
| post_dropped: "ss_posts s = ps @ (k, m) # qs \<Longrightarrow> traffic_step to_json s (s\<lparr>ss_posts := ps @ qs\<rparr>)"
| loop_receive: "\<lbrakk>k < length (ss_sessions s); transport_receive k s = Ready (m, s')\<rbrakk> \<Longrightarrow>
    traffic_step to_json s s'"
| loop_send: "\<lbrakk>k < length (ss_sessions s); transport_send k item waited s = Ready (r, s')\<rbrakk> \<Longrightarrow>
    traffic_step to_json s s'"
| loop_end: "k < length (ss_sessions s) \<Longrightarrow> traffic_step to_json s (transport_drop k s)"
| event: "\<lbrakk>k < length (ss_sessions s); ch_open (sn_outbound (ss_sessions s ! k));
     stream_next to_json k s = Ready (ev, s')\<rbrakk> \<Longrightarrow> traffic_step to_json s s'"
| stream_gone: "k < length (ss_sessions s) \<Longrightarrow> traffic_step to_json s (stream_drop k now s)"

inductive sse_step :: "duration \<Rightarrow> ('n \<Rightarrow> rstr) \<Rightarrow> ('m, 'n) sse \<Rightarrow> ('m, 'n) sse \<Rightarrow> bool"
  for ttl to_json where
  opened: "i \<notin> sn_id ` set (ss_sessions s) \<Longrightarrow> sse_step ttl to_json s (snd (open_session i s))"
| traffic: "traffic_step to_json s s' \<Longrightarrow> sse_step ttl to_json s s'"
| sweeper: "sse_step ttl to_json s (snd (sweeper_turn ttl ev s))"

inductive sse_reach :: "duration \<Rightarrow> ('n \<Rightarrow> rstr) \<Rightarrow> ('m, 'n) sse \<Rightarrow> bool" for ttl to_json where
  start: "sse_reach ttl to_json sse_new"
| step: "sse_reach ttl to_json s \<Longrightarrow> sse_step ttl to_json s s' \<Longrightarrow> sse_reach ttl to_json s'"

section \<open>The map and the tokens\<close>

text \<open>
  What ties the map to the tokens: an entry belongs to the session with its id, it is marked as
  disconnected exactly when the token is cancelled, and a session that is not cancelled has an
  entry.
\<close>

definition tags :: "('m, 'n) sse \<Rightarrow> (rstr \<times> bool) list" where
  "tags s = map (\<lambda>x. (sn_id x, sn_cancelled x)) (ss_sessions s)"

definition table_ok :: "session_map \<Rightarrow> (rstr \<times> bool) list \<Rightarrow> bool" where
  "table_ok m t \<longleftrightarrow>
     distinct (map fst m) \<and> distinct (map fst t) \<and>
     (\<forall>i e. map_of m i = Some e \<longrightarrow>
        se_session e < length t \<and> t ! se_session e = (i, se_disconnected_at e \<noteq> None)) \<and>
     (\<forall>k < length t. \<not> snd (t ! k) \<longrightarrow> map_of m (fst (t ! k)) \<noteq> None)"

lemma table_ok_entry:
  assumes "table_ok m t" and "map_of m i = Some e"
  shows "se_session e < length t" "t ! se_session e = (i, se_disconnected_at e \<noteq> None)"
  using assms by (auto simp: table_ok_def)

lemma table_ok_index:
  assumes "table_ok m t" and "map_of m (fst (t ! k)) = Some e" and "k < length t"
  shows "se_session e = k"
proof -
  have "fst (t ! se_session e) = fst (t ! k)" "se_session e < length t"
    using table_ok_entry [OF assms(1,2)] by simp_all
  moreover have "distinct (map fst t)" using assms(1) by (simp add: table_ok_def)
  ultimately show ?thesis using assms(3) by (metis length_map nth_eq_iff_index_eq nth_map)
qed

lemma table_ok_open:
  assumes "table_ok m t" and "i \<notin> fst ` set t"
  shows "table_ok (AList.update i \<lparr>se_session = length t, se_disconnected_at = None\<rparr> m) (t @ [(i, False)])"
proof -
  have m: "distinct (map fst m)" "distinct (map fst t)" using assms(1) by (simp_all add: table_ok_def)
  have entry: "se_session e < length (t @ [(i, False)]) \<and>
      (t @ [(i, False)]) ! se_session e = (j, se_disconnected_at e \<noteq> None)"
    if "map_of (AList.update i \<lparr>se_session = length t, se_disconnected_at = None\<rparr> m) j = Some e" for j e
  proof (cases "j = i")
    case True
    then show ?thesis using that by (auto simp: update_conv)
  next
    case False
    then have "map_of m j = Some e" using that by (simp add: update_conv)
    from table_ok_entry [OF assms(1) this] show ?thesis by (simp add: nth_append)
  qed
  have live: "map_of (AList.update i \<lparr>se_session = length t, se_disconnected_at = None\<rparr> m)
      (fst ((t @ [(i, False)]) ! k)) \<noteq> None"
    if "k < length (t @ [(i, False)])" "\<not> snd ((t @ [(i, False)]) ! k)" for k
    using that assms(1) by (cases "k < length t") (auto simp: update_conv table_ok_def nth_append)
  show ?thesis
    unfolding table_ok_def using m assms(2) entry live by (auto simp: distinct_update)
qed

lemma table_ok_disconnect:
  assumes "table_ok m t" and "map_of m i = Some e"
  shows "table_ok (AList.update i (case se_disconnected_at e of None \<Rightarrow> e\<lparr>se_disconnected_at := Some now\<rparr>
      | Some t0 \<Rightarrow> e) m) (t[se_session e := (i, True)])"
    (is "table_ok (AList.update i ?e m) ?t")
proof -
  let ?k = "se_session e"
  have k: "?k < length t" "t ! ?k = (i, se_disconnected_at e \<noteq> None)"
    by (rule table_ok_entry [OF assms])+
  have e: "se_session ?e = ?k" "se_disconnected_at ?e \<noteq> None" by (simp_all split: option.splits)
  have m: "distinct (map fst m)" "distinct (map fst t)" using assms(1) by (simp_all add: table_ok_def)
  have ids: "map fst ?t = map fst t" using k by (simp add: map_update list_update_same_conv)
  have entry: "se_session e' < length ?t \<and> ?t ! se_session e' = (j, se_disconnected_at e' \<noteq> None)"
    if "map_of (AList.update i ?e m) j = Some e'" for j e'
  proof (cases "j = i")
    case True
    then have "e' = ?e" using that by (simp add: update_conv)
    then show ?thesis using k e True by simp
  next
    case False
    then have j: "map_of m j = Some e'" using that by (simp add: update_conv)
    note j' = table_ok_entry [OF assms(1) j]
    then have "se_session e' \<noteq> ?k" using k False by auto
    then show ?thesis using j' by simp
  qed
  have live: "map_of (AList.update i ?e m) (fst (?t ! l)) \<noteq> None"
    if "l < length ?t" "\<not> snd (?t ! l)" for l
  proof -
    have "l \<noteq> ?k" using that k by auto
    then show ?thesis using that assms(1) by (auto simp: update_conv table_ok_def)
  qed
  show ?thesis unfolding table_ok_def ids using m entry live by (auto simp: distinct_update)
qed

lemma table_ok_filter:
  assumes "table_ok m t" and "\<And>i e. (i, e) \<in> set m \<Longrightarrow> \<not> P (i, e) \<Longrightarrow> se_disconnected_at e \<noteq> None"
  shows "table_ok (filter P m) t"
proof -
  have d: "distinct (map fst m)" using assms(1) by (simp add: table_ok_def)
  then have d': "distinct (map fst (filter P m))" by (simp add: distinct_map_filter)
  have sub: "map_of m i = Some e" if "map_of (filter P m) i = Some e" for i e
    using map_of_SomeD [OF that] d by simp
  have live: "map_of (filter P m) (fst (t ! k)) \<noteq> None" if k: "k < length t" "\<not> snd (t ! k)" for k
  proof -
    obtain e where e: "map_of m (fst (t ! k)) = Some e"
      using assms(1) k by (auto simp: table_ok_def)
    have "se_session e = k" by (rule table_ok_index [OF assms(1) e k(1)])
    then have "snd (t ! k) = (se_disconnected_at e \<noteq> None)"
      using arg_cong [OF table_ok_entry(2) [OF assms(1) e], of snd] by simp
    then have "se_disconnected_at e = None" using k by simp
    then have "(fst (t ! k), e) \<in> set (filter P m)"
      using assms(2) [OF map_of_SomeD [OF e]] map_of_SomeD [OF e] by auto
    then have "fst (t ! k) \<in> fst ` set (filter P m)" by force
    then show ?thesis by (simp only: map_of_eq_None_iff) simp
  qed
  show ?thesis
    unfolding table_ok_def using d' sub live assms(1) by (auto simp: table_ok_def)
qed

section \<open>The operations on tags\<close>

lemma tags_upd_session:
  assumes "k < length (ss_sessions s)" and "sn_id (f (ss_sessions s ! k)) = sn_id (ss_sessions s ! k)"
    and "sn_cancelled (f (ss_sessions s ! k)) = sn_cancelled (ss_sessions s ! k)"
  shows "tags (upd_session k f s) = tags s"
  using assms by (simp add: tags_def upd_session_def map_update list_update_same_conv)

lemma ss_map_upd_session [simp]: "ss_map (upd_session k f s) = ss_map s"
  by (simp add: upd_session_def)

lemma length_tags [simp]: "length (tags s) = length (ss_sessions s)"
  by (simp add: tags_def)

lemma nth_tags: "k < length (ss_sessions s) \<Longrightarrow>
    tags s ! k = (sn_id (ss_sessions s ! k), sn_cancelled (ss_sessions s ! k))"
  by (simp add: tags_def)

lemma tags_map_upd [simp]: "tags (s\<lparr>ss_map := m\<rparr>) = tags s" "tags (s\<lparr>ss_posts := ps\<rparr>) = tags s"
  by (simp_all add: tags_def)

definition sessions_ok :: "('m, 'n) sse \<Rightarrow> bool" where
  "sessions_ok s \<longleftrightarrow> table_ok (ss_map s) (tags s)"

lemma disconnect_ok: "sessions_ok s \<Longrightarrow> sessions_ok (disconnect i now s)"
proof (cases "map_of (ss_map s) i")
  case (Some e)
  assume ok: "sessions_ok s"
  note e = table_ok_entry [OF ok [unfolded sessions_ok_def] Some]
  have "tags (cancel_session (se_session e) s) = (tags s)[se_session e := (i, True)]"
    using e by (simp add: cancel_session_def upd_session_def tags_def map_update)
  then show ?thesis
    using table_ok_disconnect [OF ok [unfolded sessions_ok_def] Some] Some
    by (simp add: sessions_ok_def disconnect_def)
qed (simp add: disconnect_def)

text \<open>Disconnecting a session by its id cancels exactly that session.\<close>

lemma disconnect_sessions:
  assumes "sessions_ok s" and "k < length (ss_sessions s)" and "i = sn_id (ss_sessions s ! k)"
  shows "ss_sessions (disconnect i now s)
    = (ss_sessions s)[k := (ss_sessions s ! k)\<lparr>sn_cancelled := True\<rparr>]"
proof (cases "map_of (ss_map s) i")
  case None
  then have "sn_cancelled (ss_sessions s ! k)"
    using assms by (force simp: sessions_ok_def table_ok_def nth_tags)
  then have "(ss_sessions s ! k)\<lparr>sn_cancelled := True\<rparr> = ss_sessions s ! k" by simp
  then show ?thesis using None by (simp add: disconnect_def)
next
  case (Some e)
  have "se_session e = k"
    using table_ok_index [OF assms(1) [unfolded sessions_ok_def], of k e] Some assms(2,3)
    by (simp add: nth_tags)
  then show ?thesis using Some by (simp add: disconnect_def cancel_session_def upd_session_def)
qed

section \<open>One session\<close>

text \<open>
  The events on the wire are the endpoint and then the messages the loop has sent, in order, the
  rest of them being in the channel; the channels keep to their capacity; a session whose guard has
  fired is cancelled, and the guard has fired once the stream is gone.
\<close>

definition wire_ok :: "('n \<Rightarrow> rstr) \<Rightarrow> rstr \<Rightarrow> sse_event list \<Rightarrow> 'n list \<Rightarrow> 'n list \<Rightarrow> bool" where
  "wire_ok to_json i wire items sent \<longleftrightarrow>
     (\<exists>done. done @ items = sent \<and>
        (wire = [] \<and> done = [] \<or> wire = endpoint_event i # map (message_event to_json) done))"

definition session_ok :: "('n \<Rightarrow> rstr) \<Rightarrow> ('m, 'n) session \<Rightarrow> bool" where
  "session_ok to_json x \<longleftrightarrow>
     wire_ok to_json (sn_id x) (sn_wire x) (ch_items (sn_outbound x)) (sn_sent x) \<and>
     length (ch_items (sn_outbound x)) \<le> OUTBOUND_CAPACITY \<and>
     length (ch_items (sn_inbound x)) \<le> OUTBOUND_CAPACITY \<and>
     (sn_guard_fired x \<longrightarrow> sn_cancelled x) \<and> (\<not> ch_open (sn_outbound x) \<longrightarrow> sn_guard_fired x)"

lemma channel_send_Ready:
  assumes "channel_send x ch = Ready (sent, ch')"
  shows "ch_open ch' = ch_open ch" "sent \<Longrightarrow> ch_items ch' = ch_items ch @ [x]"
    "\<not> sent \<Longrightarrow> ch' = ch" "length (ch_items ch) \<le> OUTBOUND_CAPACITY \<Longrightarrow> length (ch_items ch') \<le> OUTBOUND_CAPACITY"
  using assms by (auto simp: channel_send_def split: if_splits)

lemma channel_recv_Ready:
  assumes "channel_recv ch = Ready (x, ch')"
  shows "ch_open ch' = ch_open ch" "ch_items ch = x # ch_items ch'"
  using assms by (auto simp: channel_recv_def split: list.splits)

lemma wire_ok_send: "wire_ok to_json i w items sent \<Longrightarrow> wire_ok to_json i w (items @ [x]) (sent @ [x])"
  by (auto simp: wire_ok_def)

lemma wire_ok_endpoint: "wire_ok to_json i [] items sent \<Longrightarrow> wire_ok to_json i [endpoint_event i] items sent"
  by (auto simp: wire_ok_def)

lemma wire_ok_message:
  assumes "wire_ok to_json i w (m # items) sent" and "w \<noteq> []"
  shows "wire_ok to_json i (w @ [message_event to_json m]) items sent"
proof -
  obtain d where "d @ m # items = sent" "w = endpoint_event i # map (message_event to_json) d"
    using assms by (auto simp: wire_ok_def)
  then show ?thesis unfolding wire_ok_def by (intro exI [of _ "d @ [m]"]) simp
qed

section \<open>The invariant\<close>

definition sse_ok :: "('n \<Rightarrow> rstr) \<Rightarrow> ('m, 'n) sse \<Rightarrow> bool" where
  "sse_ok to_json s \<longleftrightarrow> sessions_ok s \<and> (\<forall>x \<in> set (ss_sessions s). session_ok to_json x) \<and>
     (\<forall>(k, m) \<in> set (ss_posts s). k < length (ss_sessions s))"

text \<open>A step that changes one session and none of the tags.\<close>

lemma sse_ok_upd:
  assumes "sse_ok to_json s" and "k < length (ss_sessions s)"
    and "let x = ss_sessions s ! k in
      sn_id (f x) = sn_id x \<and> sn_cancelled (f x) = sn_cancelled x \<and>
      (session_ok to_json x \<longrightarrow> session_ok to_json (f x))"
  shows "sse_ok to_json (upd_session k f s)"
proof -
  have "tags (upd_session k f s) = tags s" using tags_upd_session assms(2,3) by (metis)
  moreover have "session_ok to_json (f (ss_sessions s ! k))"
    using assms by (auto simp: sse_ok_def Let_def)
  ultimately show ?thesis
    using assms(1) by (auto simp: sse_ok_def sessions_ok_def upd_session_def dest: set_update_subset_insert [THEN subsetD])
qed

lemma sse_ok_start: "sse_ok to_json sse_new"
  by (simp add: sse_ok_def sse_new_def sessions_ok_def table_ok_def tags_def)

lemma sse_ok_opened:
  assumes "sse_ok to_json s" and "i \<notin> sn_id ` set (ss_sessions s)"
  shows "sse_ok to_json (snd (open_session i s))"
proof -
  have "i \<notin> fst ` set (tags s)" using assms(2) by (auto simp: tags_def)
  then have "sessions_ok (snd (open_session i s))"
    using table_ok_open [of "ss_map s" "tags s" i] assms(1)
    by (simp add: sse_ok_def sessions_ok_def open_session_def tags_def Let_def)
  then show ?thesis
    using assms(1) by (auto simp: sse_ok_def open_session_def Let_def session_ok_def wire_ok_def new_channel_def)
qed

lemma fold_cancel:
  fixes s :: "('m, 'n) sse" and m :: session_map
  defines "s' \<equiv> fold (\<lambda>(_, e). cancel_session (se_session e)) m s"
  shows "ss_map s' = ss_map s \<and> ss_posts s' = ss_posts s \<and> length (ss_sessions s') = length (ss_sessions s) \<and>
    (\<forall>k < length (ss_sessions s). ss_sessions s' ! k =
       (if k \<in> se_session ` snd ` set m then (ss_sessions s ! k)\<lparr>sn_cancelled := True\<rparr>
        else ss_sessions s ! k))"
  unfolding s'_def
proof (induction m arbitrary: s)
  case (Cons ie m)
  have upd: "xs[i := x] ! j = (if i = j then x else xs ! j)" if "j < length xs"
    for xs :: "('m, 'n) session list" and i j x
    using that by simp
  obtain i e where ie: "ie = (i, e)" by fastforce
  show ?case
    using Cons.IH [of "cancel_session (se_session e) s"] ie
    by (auto simp: cancel_session_def upd_session_def upd)
qed simp

lemma close_all_sessions:
  assumes "sessions_ok s"
  shows "ss_map (close_all s) = []" "ss_posts (close_all s) = ss_posts s"
    "ss_sessions (close_all s) = map (\<lambda>x. x\<lparr>sn_cancelled := True\<rparr>) (ss_sessions s)"
proof -
  let ?s = "fold (\<lambda>(_, e). cancel_session (se_session e)) (ss_map s) s"
  note f = fold_cancel [of "ss_map s" s]
  show "ss_map (close_all s) = []" "ss_posts (close_all s) = ss_posts s"
    using f by (simp_all add: close_all_def)
  have "ss_sessions ?s ! k = (ss_sessions s ! k)\<lparr>sn_cancelled := True\<rparr>" if k: "k < length (ss_sessions s)" for k
  proof (cases "sn_cancelled (ss_sessions s ! k)")
    case True
    then have "(ss_sessions s ! k)\<lparr>sn_cancelled := True\<rparr> = ss_sessions s ! k" by simp
    then show ?thesis using f k by simp
  next
    case False
    then obtain e where e: "map_of (ss_map s) (fst (tags s ! k)) = Some e"
      using assms k by (fastforce simp: sessions_ok_def table_ok_def nth_tags)
    then have "se_session e = k"
      using table_ok_index [OF assms [unfolded sessions_ok_def] e] k by simp
    then have "k \<in> se_session ` snd ` set (ss_map s)" using map_of_SomeD [OF e] by force
    then show ?thesis using f k by simp
  qed
  then show "ss_sessions (close_all s) = map (\<lambda>x. x\<lparr>sn_cancelled := True\<rparr>) (ss_sessions s)"
    using f by (intro nth_equalityI) (simp_all add: close_all_def)
qed

lemma session_ok_cancelled: "session_ok to_json x \<Longrightarrow> session_ok to_json (x\<lparr>sn_cancelled := True\<rparr>)"
  by (simp add: session_ok_def)

lemma sse_ok_close_all:
  assumes "sse_ok to_json s"
  shows "sse_ok to_json (close_all s)"
proof -
  have s: "sessions_ok s" using assms by (simp add: sse_ok_def)
  have d: "distinct (map fst (tags s))" using s by (simp add: sessions_ok_def table_ok_def)
  have "tags (close_all s) = map (\<lambda>(i, _). (i, True)) (tags s)"
    by (simp add: tags_def close_all_sessions [OF s])
  moreover have "map fst (map (\<lambda>(i, _). (i, True)) (tags s)) = map fst (tags s)"
    by (simp add: case_prod_beta')
  ultimately have "sessions_ok (close_all s)"
    using d unfolding sessions_ok_def table_ok_def close_all_sessions [OF s] by (auto simp: case_prod_beta' comp_def)
  then show ?thesis
    using assms session_ok_cancelled by (auto simp: sse_ok_def close_all_sessions [OF s])
qed

lemma sse_ok_sweep: "sse_ok to_json s \<Longrightarrow> sse_ok to_json (sweep ttl now s)"
proof -
  assume ok: "sse_ok to_json s"
  then have "table_ok (filter (\<lambda>(_, e). \<not> expired ttl now e) (ss_map s)) (tags s)"
    by (intro table_ok_filter) (auto simp: sse_ok_def sessions_ok_def expired_def split: option.splits)
  then show ?thesis using ok by (simp add: sse_ok_def sessions_ok_def sweep_def)
qed

lemma sse_ok_stream_drop:
  assumes "sse_ok to_json s" and k: "k < length (ss_sessions s)"
  shows "sse_ok to_json (stream_drop k now s)"
proof -
  let ?x = "ss_sessions s ! k"
  let ?close = "\<lambda>x. x\<lparr>sn_outbound := (sn_outbound x)\<lparr>ch_open := False\<rparr>\<rparr>"
  define s1 where "s1 = upd_session k ?close s"
  have x: "session_ok to_json ?x" using assms by (simp add: sse_ok_def)
  show ?thesis
  proof (cases "sn_guard_fired ?x")
    case True
    then have "stream_drop k now s = s1"
      using k by (simp add: stream_drop_def guard_fire_def s1_def upd_session_def)
    moreover have "sse_ok to_json s1"
      unfolding s1_def by (rule sse_ok_upd [OF assms]) (use True in \<open>simp add: session_ok_def Let_def\<close>)
    ultimately show ?thesis by simp
  next
    case False
    define s2 where "s2 = upd_session k (\<lambda>x. x\<lparr>sn_guard_fired := True\<rparr>) s1"
    have k1: "k < length (ss_sessions s1)" "k < length (ss_sessions s2)"
      using k by (simp_all add: s1_def s2_def upd_session_def)
    have "tags s2 = tags s" using k k1 by (simp add: s1_def s2_def tags_upd_session)
    then have ok2: "sessions_ok s2" using assms(1) by (simp add: sse_ok_def sessions_ok_def s1_def s2_def)
    have "stream_drop k now s = disconnect (sn_id (ss_sessions s1 ! k)) now s2"
      using False k by (simp add: stream_drop_def guard_fire_def s1_def s2_def upd_session_def)
    moreover have "sn_id (ss_sessions s1 ! k) = sn_id (ss_sessions s2 ! k)"
      using k1 k by (simp add: s2_def s1_def upd_session_def)
    ultimately have d: "stream_drop k now s = disconnect (sn_id (ss_sessions s2 ! k)) now s2" by simp
    have "ss_sessions (stream_drop k now s) = (ss_sessions s)[k := (?close ?x)\<lparr>sn_guard_fired := True, sn_cancelled := True\<rparr>]"
      unfolding d disconnect_sessions [OF ok2 k1(2) refl] using k
      by (simp add: s1_def s2_def upd_session_def)
    moreover have "session_ok to_json ((?close ?x)\<lparr>sn_guard_fired := True, sn_cancelled := True\<rparr>)"
      using x by (simp add: session_ok_def)
    moreover have "ss_posts (stream_drop k now s) = ss_posts s"
      unfolding d by (simp add: disconnect_def cancel_session_def upd_session_def s1_def s2_def split: option.splits)
    moreover have "sessions_ok (stream_drop k now s)" unfolding d by (rule disconnect_ok [OF ok2])
    ultimately show ?thesis
      using assms(1) by (auto simp: sse_ok_def dest: set_update_subset_insert [THEN subsetD])
  qed
qed

lemma sse_ok_posts:
  "sse_ok to_json s \<Longrightarrow> set ps \<subseteq> set (ss_posts s) \<Longrightarrow> sse_ok to_json (s\<lparr>ss_posts := ps\<rparr>)"
  by (auto simp: sse_ok_def sessions_ok_def)

lemma deliver_send_Ready:
  assumes "deliver_send k m s = Ready (r, s')"
  obtains ch sent where "channel_send m (sn_inbound (ss_sessions s ! k)) = Ready (sent, ch)"
    "s' = upd_session k (\<lambda>x. x\<lparr>sn_inbound := ch\<rparr>) s" "r = (if sent then Some () else None)"
  using assms by (auto simp: deliver_send_def split: poll.splits)

lemma sse_ok_deliver:
  assumes "sse_ok to_json s" and "k < length (ss_sessions s)" and "deliver_send k m s = Ready (r, s')"
  shows "sse_ok to_json s'"
proof -
  obtain ch sent where c: "channel_send m (sn_inbound (ss_sessions s ! k)) = Ready (sent, ch)"
    "s' = upd_session k (\<lambda>x. x\<lparr>sn_inbound := ch\<rparr>) s"
    using assms(3) by (rule deliver_send_Ready)
  show ?thesis
    unfolding c(2) by (rule sse_ok_upd [OF assms(1,2)])
      (use channel_send_Ready(4) [OF c(1)] in \<open>simp add: session_ok_def Let_def\<close>)
qed

lemma sse_ok_loop_send:
  assumes "sse_ok to_json s" and "k < length (ss_sessions s)"
    and "transport_send k item waited s = Ready (r, s')"
  shows "sse_ok to_json s'"
proof (cases "channel_send item (sn_outbound (ss_sessions s ! k))")
  case Pending
  then show ?thesis using assms by (auto simp: transport_send_def split: if_splits)
next
  case (Ready p)
  obtain sent ch where p: "p = (sent, ch)" by fastforce
  note c = channel_send_Ready [OF Ready [unfolded p]]
  show ?thesis
  proof (cases sent)
    case False
    then show ?thesis using assms Ready p by (simp add: transport_send_def)
  next
    case True
    then have s': "s' = upd_session k (\<lambda>x. x\<lparr>sn_outbound := ch, sn_sent := sn_sent x @ [item]\<rparr>) s"
      using assms(3) Ready p by (simp add: transport_send_def)
    show ?thesis
      unfolding s' by (rule sse_ok_upd [OF assms(1,2)])
        (use c True in \<open>simp add: session_ok_def Let_def wire_ok_send\<close>)
  qed
qed

lemma sse_ok_event:
  assumes "sse_ok to_json s" and "k < length (ss_sessions s)" and "stream_next to_json k s = Ready (ev, s')"
  shows "sse_ok to_json s'"
proof (cases "sn_wire (ss_sessions s ! k) = []")
  case True
  then have s': "s' = upd_session k (\<lambda>x. x\<lparr>sn_wire := [endpoint_event (sn_id x)]\<rparr>) s"
    using assms(3) by (simp add: stream_next_def Let_def)
  show ?thesis
    unfolding s' by (rule sse_ok_upd [OF assms(1,2)])
      (use True in \<open>simp add: session_ok_def Let_def wire_ok_endpoint\<close>)
next
  case False
  then obtain m ch where c: "channel_recv (sn_outbound (ss_sessions s ! k)) = Ready (m, ch)"
    and s': "s' = upd_session k (\<lambda>x. x\<lparr>sn_outbound := ch,
      sn_wire := sn_wire x @ [message_event to_json m]\<rparr>) s"
    using assms(3) by (auto simp: stream_next_def Let_def split: poll.splits)
  show ?thesis
    unfolding s' by (rule sse_ok_upd [OF assms(1,2)])
      (use channel_recv_Ready [OF c] False in \<open>simp add: session_ok_def Let_def wire_ok_message\<close>)
qed

lemma sse_ok_traffic: "traffic_step to_json s s' \<Longrightarrow> sse_ok to_json s \<Longrightarrow> sse_ok to_json s'"
proof (induction rule: traffic_step.induct)
  case (post_begin i s k m)
  then have "k < length (ss_sessions s)"
    using table_ok_entry(1) [of "ss_map s" "tags s"]
    by (auto simp: deliver_sender_def sse_ok_def sessions_ok_def)
  then show ?case using post_begin.prems by (auto simp: sse_ok_def sessions_ok_def)
next
  case (post_end s ps k m qs r s')
  then have k: "k < length (ss_sessions s)" by (auto simp: sse_ok_def)
  have "ss_posts s' = ss_posts s"
    using post_end.hyps(2) by (rule deliver_send_Ready) (simp add: upd_session_def)
  then show ?case
    using sse_ok_deliver [OF post_end.prems k post_end.hyps(2)] post_end.hyps(1)
    by (intro sse_ok_posts) auto
next
  case (post_dropped s ps k m qs)
  then show ?case by (intro sse_ok_posts) auto
next
  case (loop_receive k s m s')
  then obtain ch where c: "channel_recv (sn_inbound (ss_sessions s ! k)) = Ready (m, ch)"
    "s' = upd_session k (\<lambda>x. x\<lparr>sn_inbound := ch\<rparr>) s"
    by (auto simp: transport_receive_def split: poll.splits)
  show ?case
    unfolding c(2) by (rule sse_ok_upd [OF loop_receive.prems loop_receive.hyps(1)])
      (use channel_recv_Ready [OF c(1)] in \<open>simp add: session_ok_def Let_def\<close>)
next
  case (loop_end k s)
  then show ?case
    unfolding transport_drop_def by (intro sse_ok_upd) (simp_all add: session_ok_def Let_def)
qed (blast intro: sse_ok_loop_send sse_ok_event sse_ok_stream_drop)+

lemma sse_ok_step: "sse_step ttl to_json s s' \<Longrightarrow> sse_ok to_json s \<Longrightarrow> sse_ok to_json s'"
proof (induction rule: sse_step.induct)
  case (sweeper s ev)
  then show ?case
    using sse_ok_sweep sse_ok_close_all by (cases ev) (auto simp: sweeper_turn_def)
qed (blast intro: sse_ok_opened sse_ok_traffic)+

lemma sse_reach_ok: "sse_reach ttl to_json s \<Longrightarrow> sse_ok to_json s"
  by (induction rule: sse_reach.induct) (auto intro: sse_ok_start sse_ok_step)

section \<open>Properties\<close>

text \<open>
  C16: In every interleaving, the client of a legacy session is sent the endpoint first, with the
  session's own id, and then exactly the messages the service loop has handed over, each once and
  in order; what it has not been sent yet is in the channel, which never holds more than 64.
\<close>
theorem sse_stream_order:
  assumes "sse_reach ttl to_json s" and "x \<in> set (ss_sessions s)"
  shows "\<exists>done. done @ ch_items (sn_outbound x) = sn_sent x \<and>
    (sn_wire x = [] \<and> done = [] \<or>
     sn_wire x = Event (lit ''endpoint'') (lit ''/messages?sessionId='' @ sn_id x)
                   # map (\<lambda>m. Event (lit ''message'') (to_json m)) done) \<and>
    length (ch_items (sn_outbound x)) \<le> 64"
proof -
  have "session_ok to_json x" using sse_reach_ok [OF assms(1)] assms(2) by (simp add: sse_ok_def)
  then show ?thesis
    by (auto simp: session_ok_def wire_ok_def OUTBOUND_CAPACITY_def endpoint_event_def messages_path_def
        message_event_def [abs_def])
qed

lemma live_session_entry:
  assumes "sse_ok to_json s" and "k < length (ss_sessions s)" and "\<not> sn_cancelled (ss_sessions s ! k)"
  obtains e where "map_of (ss_map s) (sn_id (ss_sessions s ! k)) = Some e" "se_session e = k"
    "se_disconnected_at e = None"
proof -
  have t: "table_ok (ss_map s) (tags s)" using assms(1) by (simp add: sse_ok_def sessions_ok_def)
  then obtain e where e: "map_of (ss_map s) (fst (tags s ! k)) = Some e"
    using assms(2,3) by (fastforce simp: table_ok_def nth_tags)
  have k: "se_session e = k" by (rule table_ok_index [OF t e]) (simp add: assms(2))
  have "se_disconnected_at e = None"
    using table_ok_entry(2) [OF t e] k assms(2,3) by (simp add: nth_tags)
  then show thesis using that e k assms(2) by (simp add: nth_tags)
qed

lemma active_count_live:
  assumes "sse_ok to_json s"
  shows "active_count s = length (filter (\<lambda>x. \<not> sn_cancelled x) (ss_sessions s))"
proof -
  have t: "table_ok (ss_map s) (tags s)" using assms by (simp add: sse_ok_def sessions_ok_def)
  have d: "distinct (map fst (ss_map s))" using t by (simp add: table_ok_def)
  let ?A = "filter (\<lambda>(_, e). se_disconnected_at e = None) (ss_map s)"
  let ?live = "{k. k < length (ss_sessions s) \<and> \<not> sn_cancelled (ss_sessions s ! k)}"
  have tag: "se_session e < length (ss_sessions s)" "tags s ! se_session e = (i, se_disconnected_at e \<noteq> None)"
    if "(i, e) \<in> set (ss_map s)" for i e
    using table_ok_entry [OF t, of i e] that d by simp_all
  have inj: "inj_on (\<lambda>(_, e). se_session e) (set (ss_map s))"
  proof (rule inj_onI, clarify)
    fix i e j f
    assume *: "(i, e) \<in> set (ss_map s)" "(j, f) \<in> set (ss_map s)" "se_session e = se_session f"
    then have "i = j" using tag(2) [OF *(1)] tag(2) [OF *(2)] by simp
    then show "i = j \<and> e = f" using d *(1,2) by (simp add: eq_key_imp_eq_value)
  qed
  have "(\<lambda>(_, e). se_session e) ` set ?A = ?live"
  proof
    show "(\<lambda>(_, e). se_session e) ` set ?A \<subseteq> ?live"
    proof (clarify)
      fix i e
      assume "(i, e) \<in> set ?A"
      then have "(i, e) \<in> set (ss_map s)" "se_disconnected_at e = None" by simp_all
      then show "se_session e < length (ss_sessions s) \<and> \<not> sn_cancelled (ss_sessions s ! se_session e)"
        using tag [of i e] by (simp add: nth_tags)
    qed
    show "?live \<subseteq> (\<lambda>(_, e). se_session e) ` set ?A"
    proof
      fix k
      assume "k \<in> ?live"
      then obtain e where "map_of (ss_map s) (sn_id (ss_sessions s ! k)) = Some e" "se_session e = k"
        "se_disconnected_at e = None"
        using live_session_entry [OF assms] by blast
      then show "k \<in> (\<lambda>(_, e). se_session e) ` set ?A" using map_of_SomeD by force
    qed
  qed
  moreover have "card ((\<lambda>(_, e). se_session e) ` set ?A) = card (set ?A)"
    by (rule card_image, rule inj_on_subset [OF inj]) auto
  ultimately have "card (set ?A) = card ?live" by simp
  moreover have "distinct ?A" using d by (simp add: distinct_map)
  then have "active_count s = card (set ?A)" unfolding active_count_def by (simp only: distinct_card)
  ultimately show ?thesis by (simp only: length_filter_conv_card)
qed

text \<open>
  C12: No service loop is orphaned. In every reachable state a session that is not cancelled has its
  entry in the map, marked as connected, and its stream is still there; so the number of active
  sessions is the number of sessions not cancelled, a stream that has gone has its loop cancelled,
  and closing everything at shutdown leaves no session running.
\<close>
theorem sse_no_orphans:
  assumes "sse_reach ttl to_json s"
  shows "active_count s = length (filter (\<lambda>x. \<not> sn_cancelled x) (ss_sessions s)) \<and>
    list_all (\<lambda>x. sn_cancelled x \<or> ch_open (sn_outbound x)) (ss_sessions s) \<and>
    (\<forall>k < length (ss_sessions s). sn_cancelled (ss_sessions s ! k) \<or>
       deliver_sender (sn_id (ss_sessions s ! k)) s = Some k) \<and>
    list_all sn_cancelled (ss_sessions (close_all s)) \<and> ss_map (close_all s) = []"
proof -
  note ok = sse_reach_ok [OF assms]
  then have s: "sessions_ok s" by (simp add: sse_ok_def)
  have "sn_cancelled x \<or> ch_open (sn_outbound x)" if "x \<in> set (ss_sessions s)" for x
    using ok that by (auto simp: sse_ok_def session_ok_def)
  moreover have "deliver_sender (sn_id (ss_sessions s ! k)) s = Some k"
    if "k < length (ss_sessions s)" "\<not> sn_cancelled (ss_sessions s ! k)" for k
    using live_session_entry [OF ok that] by (auto simp: deliver_sender_def)
  ultimately show ?thesis
    using active_count_live [OF ok] close_all_sessions [OF s] by (auto simp: list_all_iff)
qed

lemma map_of_filter_distinct:
  assumes "distinct (map fst m)"
  shows "map_of (filter P m) i = (case map_of m i of None \<Rightarrow> None | Some e \<Rightarrow> if P (i, e) then Some e else None)"
proof (cases "map_of (filter P m) i")
  case None
  have "\<not> P (i, e)" if "map_of m i = Some e" for e
  proof
    assume "P (i, e)"
    then have "(i, e) \<in> set (filter P m)" using map_of_SomeD [OF that] by simp
    then show False using None by (force simp: map_of_eq_None_iff)
  qed
  then show ?thesis using None by (simp split: option.split)
next
  case (Some e)
  then have e: "(i, e) \<in> set m" "P (i, e)" using map_of_SomeD [OF Some] by simp_all
  then have "map_of m i = Some e" using assms by simp
  then show ?thesis using Some e by simp
qed

text \<open>
  The sweeper removes exactly the sessions whose stream has been gone for longer than the TTL,
  and every session it removes has been cancelled before; an active session is never touched.
\<close>
theorem sse_sweep_exact:
  assumes "sse_reach ttl to_json s"
  shows "map_of (ss_map (sweep ttl now s)) i =
      (case map_of (ss_map s) i of
         None \<Rightarrow> None
       | Some e \<Rightarrow>
           (case se_disconnected_at e of
              Some t0 \<Rightarrow> if ttl < now - t0 then None else Some e
            | None \<Rightarrow> Some e)) \<and>
    ss_sessions (sweep ttl now s) = ss_sessions s \<and>
    (case map_of (ss_map s) i of
       None \<Rightarrow> True
     | Some e \<Rightarrow> sn_cancelled (ss_sessions s ! se_session e) \<longleftrightarrow> se_disconnected_at e \<noteq> None)"
proof -
  have t: "table_ok (ss_map s) (tags s)"
    using sse_reach_ok [OF assms] by (simp add: sse_ok_def sessions_ok_def)
  then have d: "distinct (map fst (ss_map s))" by (simp add: table_ok_def)
  have f: "map_of (filter P (ss_map s)) i = (case map_of (ss_map s) i of None \<Rightarrow> None
      | Some e \<Rightarrow> if P (i, e) then Some e else None)" for P
    by (rule map_of_filter_distinct [OF d])
  have "(case map_of (ss_map s) i of None \<Rightarrow> True
     | Some e \<Rightarrow> sn_cancelled (ss_sessions s ! se_session e) \<longleftrightarrow> se_disconnected_at e \<noteq> None)"
    using table_ok_entry [OF t, of i] by (auto simp: nth_tags split: option.splits)
  then show ?thesis
    by (auto simp: sweep_def f expired_def split: option.splits)
qed

text \<open>
  C37: A post changes the server only when it is accepted: then the session exists already and the
  message is put at the end of its inbound channel. A wrong content type (415), a body that is not
  a message (400) and an unknown or finished session (404) leave everything as it is; no session is
  ever created by a post.
\<close>
theorem messages_outcomes:
  assumes "messages_handler to_str from_json request s = Ready (r, s')"
  shows "(\<exists>k m. rs_status r = 202 \<and> deliver_sender (rq_session_id request) s = Some k \<and>
      from_json (rq_body request) = Inr m \<and> ch_open (sn_inbound (ss_sessions s ! k)) \<and>
      s' = upd_session k (\<lambda>x. x\<lparr>sn_inbound := (sn_inbound x)\<lparr>ch_items := ch_items (sn_inbound x) @ [m]\<rparr>\<rparr>) s) \<or>
    rs_status r \<in> {400, 404, 415} \<and> s' = s"
proof -
  have sent: "(fst the_p = None \<longrightarrow> snd the_p = s) \<and>
      (fst the_p \<noteq> None \<longrightarrow> ch_open (sn_inbound (ss_sessions s ! k)) \<and>
         snd the_p = upd_session k (\<lambda>x. x\<lparr>sn_inbound := (sn_inbound x)\<lparr>ch_items := ch_items (sn_inbound x) @ [m]\<rparr>\<rparr>) s)"
    if "deliver_send k m s = Ready the_p" for k m the_p
    using that
    by (auto simp: deliver_send_def channel_send_def upd_session_def split: if_splits)
  show ?thesis
  proof (cases "from_json (rq_body request)")
    case (Inl e)
    then show ?thesis using assms
      by (auto simp: messages_handler_def plain_response_def split: if_splits)
  next
    case (Inr m)
    show ?thesis
    proof (cases "deliver_sender (rq_session_id request) s")
      case None
      then show ?thesis using assms Inr
        by (auto simp: messages_handler_def plain_response_def deliver_def split: if_splits)
    next
      case (Some k)
      then show ?thesis using assms Inr sent [of k m]
        by (auto simp: messages_handler_def plain_response_def deliver_def split: if_splits poll.splits option.splits)
    qed
  qed
qed

section \<open>A session from its opening to its end\<close>

definition ready_or :: "'s \<Rightarrow> ('a \<times> 's) poll \<Rightarrow> 's" where
  "ready_or s p = (case p of Ready (_, s') \<Rightarrow> s' | Pending \<Rightarrow> s)"

definition demo_open :: "(nat, nat) sse" where
  "demo_open = snd (open_session (lit ''a'') sse_new)"

definition demo_endpoint :: "(nat, nat) sse" where
  "demo_endpoint = ready_or demo_open (stream_next dec 0 demo_open)"

definition demo_sent :: "(nat, nat) sse" where
  "demo_sent = ready_or demo_endpoint (transport_send 0 7 0 demo_endpoint)"

definition demo_message :: "(nat, nat) sse" where
  "demo_message = ready_or demo_sent (stream_next dec 0 demo_sent)"

definition demo_gone :: "(nat, nat) sse" where
  "demo_gone = stream_drop 0 100 demo_message"

lemmas demo_defs = demo_gone_def demo_message_def demo_sent_def demo_endpoint_def demo_open_def
  ready_or_def open_session_def sse_new_def stream_next_def transport_send_def channel_send_def
  channel_recv_def upd_session_def new_channel_def OUTBOUND_CAPACITY_def endpoint_event_def Let_def

lemma demo_reach:
  "sse_reach ttl dec demo_open" "sse_reach ttl dec demo_message" "sse_reach ttl dec demo_gone"
proof -
  show r1: "sse_reach ttl dec demo_open"
    unfolding demo_open_def
    by (rule sse_reach.step [OF sse_reach.start], rule sse_step.opened) (simp add: sse_new_def)
  have "sse_step ttl dec demo_open demo_endpoint"
    by (rule sse_step.traffic, rule traffic_step.event [of 0]) (simp_all add: demo_defs)
  with r1 have r2: "sse_reach ttl dec demo_endpoint" by (rule sse_reach.step)
  have "sse_step ttl dec demo_endpoint demo_sent"
    by (rule sse_step.traffic, rule traffic_step.loop_send [of 0 _ 7 0]) (simp_all add: demo_defs)
  with r2 have r3: "sse_reach ttl dec demo_sent" by (rule sse_reach.step)
  have "sse_step ttl dec demo_sent demo_message"
    by (rule sse_step.traffic, rule traffic_step.event [of 0]) (simp_all add: demo_defs)
  with r3 show r4: "sse_reach ttl dec demo_message" by (rule sse_reach.step)
  have "sse_step ttl dec demo_message demo_gone"
    unfolding demo_gone_def by (rule sse_step.traffic, rule traffic_step.stream_gone) (simp add: demo_defs)
  with r4 show "sse_reach ttl dec demo_gone" by (rule sse_reach.step)
qed

theorem sse_stream_order_witness:
  "sn_wire (hd (ss_sessions demo_message)) =
     [Event (lit ''endpoint'') (lit ''/messages?sessionId=a''), Event (lit ''message'') (dec 7)] \<and>
   length (ch_items (sn_outbound (hd (ss_sessions demo_message)))) \<le> 64"
proof -
  have "hd (ss_sessions demo_message) \<in> set (ss_sessions demo_message)" by (simp add: demo_defs)
  from sse_stream_order [OF demo_reach(2) this] show ?thesis
    by (auto simp: demo_defs message_event_def messages_path_def lit_def)
qed

theorem sse_no_orphans_witness:
  "active_count demo_message = 1 \<and> active_count demo_gone = 0 \<and>
   list_all sn_cancelled (ss_sessions (close_all demo_message))"
proof -
  have "length (filter (\<lambda>x. \<not> sn_cancelled x) (ss_sessions demo_message)) = 1"
    "length (filter (\<lambda>x. \<not> sn_cancelled x) (ss_sessions demo_gone)) = 0"
    by code_simp+
  then show ?thesis
    using sse_no_orphans [OF demo_reach(2)] sse_no_orphans [OF demo_reach(3)] by simp
qed

theorem sse_sweep_exact_witness:
  "map_of (ss_map demo_gone) (lit ''a'') = Some \<lparr>se_session = 0, se_disconnected_at = Some 100\<rparr> \<and>
   map_of (ss_map (sweep 1800 1901 demo_gone)) (lit ''a'') = None \<and>
   map_of (ss_map (sweep 1800 1900 demo_gone)) (lit ''a'') = Some \<lparr>se_session = 0, se_disconnected_at = Some 100\<rparr>"
proof -
  have "map_of (ss_map demo_gone) (lit ''a'') = Some \<lparr>se_session = 0, se_disconnected_at = Some 100\<rparr>"
    by code_simp
  then show ?thesis
    using sse_sweep_exact [OF demo_reach(3), of 1800 1901 "lit ''a''"]
      sse_sweep_exact [OF demo_reach(3), of 1800 1900 "lit ''a''"] by simp
qed

definition post_request :: "rstr \<Rightarrow> rstr \<Rightarrow> request" where
  "post_request session_id body = (sample_request (lit ''/messages'')
     [(lit ''content-type'', lit ''application/json; charset=utf-8'')])
     \<lparr>rq_session_id := session_id, rq_body := utf8_encode body\<rparr>"

definition post_demo :: "rstr \<Rightarrow> rstr \<Rightarrow> (response \<times> (nat, nat) sse) poll" where
  "post_demo session_id body = messages_handler visible_ascii
     (\<lambda>bs. if bs = [] then Inl (lit ''EOF'') else Inr (length bs)) (post_request session_id body) demo_open"

theorem messages_outcomes_witness:
  "\<exists>r1 s1 r2 s2. post_demo (lit ''a'') (lit ''{}'') = Ready (r1, s1) \<and> rs_status r1 = 202 \<and>
     ch_items (sn_inbound (hd (ss_sessions s1))) = [2] \<and>
     post_demo (lit ''b'') (lit ''{}'') = Ready (r2, s2) \<and> rs_status r2 = 404 \<and> s2 = demo_open"
proof -
  have "(case post_demo (lit ''a'') (lit ''{}'') of Ready (r, s) \<Rightarrow> rs_status r = 202 \<and>
      ch_items (sn_inbound (hd (ss_sessions s))) = [2] | Pending \<Rightarrow> False)"
    "(case post_demo (lit ''b'') (lit ''{}'') of Ready (r, s) \<Rightarrow> rs_status r = 404 | Pending \<Rightarrow> False)"
    by code_simp+
  then obtain r1 s1 r2 s2 where p: "post_demo (lit ''a'') (lit ''{}'') = Ready (r1, s1)" "rs_status r1 = 202"
      "ch_items (sn_inbound (hd (ss_sessions s1))) = [2]"
      "post_demo (lit ''b'') (lit ''{}'') = Ready (r2, s2)" "rs_status r2 = 404"
    by (auto split: poll.splits)
  have "s2 = demo_open" using messages_outcomes [OF p(4) [unfolded post_demo_def]] p(5) by auto
  then show ?thesis using p by blast
qed

end
