(* ===== verification/Router.thy ===== *)
theory Router
  imports Sse_Sessions
begin

text \<open>
  The HTTP surface: \<^theory_text>\<open>build_router\<close> of \<^theory_text>\<open>server.rs\<close>, the routers of
  \<^theory_text>\<open>transport/streamable_http.rs\<close> and \<^theory_text>\<open>transport/legacy_sse.rs\<close> and the layers around them. Which
  of the registered routes a request belongs to is decided by axum, the parameter \<open>dispatch\<close>; what
  it answers when there is none is \<open>fallback\<close>. The service behind \<^theory_text>\<open>/mcp\<close> is rmcp's, the parameter
  \<open>mcp\<close>; the handlers of the legacy endpoints are parameters where nothing depends on them.
\<close>

section \<open>Streamable HTTP\<close>

datatype host_policy = AnyHost | OnlyHosts "rstr list"

record mcp_config =
  mc_legacy_session_mode :: bool
  mc_json_response :: bool
  mc_sse_keep_alive :: "duration option"
  mc_hosts :: host_policy

definition mcp_config_of :: "config \<Rightarrow> mcp_config" where
  "mcp_config_of config =
     \<lparr>mc_legacy_session_mode = False, mc_json_response = True, mc_sse_keep_alive = None,
      mc_hosts = (if cf_allowed_hosts config = [] then AnyHost else OnlyHosts (cf_allowed_hosts config))\<rparr>"

definition streamable_router ::
  "(byte list \<Rightarrow> rstr option) \<Rightarrow> config \<Rightarrow> (mcp_config \<Rightarrow> 's handler) \<Rightarrow> 's handler" where
  "streamable_router to_str config mcp = require_bearer to_str config (mcp (mcp_config_of config))"

section \<open>The routes\<close>

datatype endpoint = HealthGet | McpEndpoint | SseGet | MessagesPost

definition health :: "'s handler" where
  "health request s =
     ([], \<lparr>rs_status = 200, rs_headers = [(lit ''content-type'', lit ''application/json'')],
           rs_body = lit ''{\"status\":\"ok\"}''\<rparr>, s)"

definition legacy_router ::
  "(byte list \<Rightarrow> rstr option) \<Rightarrow> config \<Rightarrow> (endpoint \<Rightarrow> 's handler) \<Rightarrow> endpoint \<Rightarrow> 's handler" where
  "legacy_router to_str config legacy e = require_bearer to_str config (legacy e)"

definition build_router ::
  "(byte list \<Rightarrow> rstr option) \<Rightarrow> config \<Rightarrow> (request \<Rightarrow> endpoint option) \<Rightarrow> (request \<Rightarrow> response)
     \<Rightarrow> (mcp_config \<Rightarrow> 's handler) \<Rightarrow> (endpoint \<Rightarrow> 's handler) \<Rightarrow> 's handler" where
  "build_router to_str config dispatch fallback mcp legacy =
     log_requests (require_allowed_origin to_str config (\<lambda>request.
       case dispatch request of
         Some HealthGet \<Rightarrow> health request
       | Some McpEndpoint \<Rightarrow> streamable_router to_str config mcp request
       | Some e \<Rightarrow> legacy_router to_str config legacy e request
       | None \<Rightarrow> (\<lambda>s. ([], fallback request, s))))"

text \<open>\<^theory_text>\<open>GET /sse\<close>: the session is opened, and the stream over it is the body of the response.\<close>

definition event_stream_response :: response where
  "event_stream_response = \<lparr>rs_status = 200,
     rs_headers = [(lit ''content-type'', lit ''text/event-stream'')], rs_body = []\<rparr>"

definition sse_handler :: "rstr \<Rightarrow> ('m, 'n) sse handler" where
  "sse_handler session_id request s = ([], event_stream_response, snd (open_session session_id s))"

section \<open>Protection\<close>

text \<open>An endpoint other than \<^theory_text>\<open>/health\<close> is behind both gates.\<close>

definition endpoint_handler ::
  "(mcp_config \<Rightarrow> 's handler) \<Rightarrow> (endpoint \<Rightarrow> 's handler) \<Rightarrow> config \<Rightarrow> endpoint \<Rightarrow> 's handler" where
  "endpoint_handler mcp legacy config e =
     (case e of McpEndpoint \<Rightarrow> mcp (mcp_config_of config) | _ \<Rightarrow> legacy e)"

lemma build_router_endpoint:
  assumes "dispatch request = Some e" and "e \<noteq> HealthGet"
  shows "build_router to_str config dispatch fallback mcp legacy request s =
    log_requests (\<lambda>r. require_allowed_origin to_str config
      (require_bearer to_str config (endpoint_handler mcp legacy config e)) r) request s"
  using assms
  by (cases e) (auto simp: build_router_def log_requests_def origin.wrap_eq streamable_router_def
      legacy_router_def endpoint_handler_def Let_def split: prod.splits)

lemma log_requests_state: "snd (snd (log_requests h request s)) = snd (snd (h request s))"
  "rs_status (fst (snd (log_requests h request s))) = rs_status (fst (snd (h request s)))"
  by (simp_all add: log_requests_def Let_def split: prod.split)

text \<open>A request that the bearer gate refuses has no effect, and only the probe answers it well.\<close>

lemma router_refuses:
  assumes "\<not> bearer_ok to_str config request"
  shows "snd (snd (build_router to_str config dispatch fallback mcp legacy request s)) = s"
    and "dispatch request = Some e \<Longrightarrow>
      rs_status (fst (snd (build_router to_str config dispatch fallback mcp legacy request s))) =
        (if \<not> origin_ok to_str config request then 403 else if e = HealthGet then 200 else 401)"
proof -
  have guarded: "snd (snd (build_router to_str config dispatch fallback mcp legacy request s)) = s \<and>
      rs_status (fst (snd (build_router to_str config dispatch fallback mcp legacy request s))) =
        (if \<not> origin_ok to_str config request then 403 else 401)"
    if "dispatch request = Some e" "e \<noteq> HealthGet" for e
    unfolding build_router_endpoint [of dispatch request e, OF that] log_requests_state
    using assms guarded.both.refused_state [of to_str config request]
    by (simp add: guarded.both.wrap_eq origin_refusal_def bearer_refusal_def
        forbidden_def plain_response_def unauthorized_def)
  show "snd (snd (build_router to_str config dispatch fallback mcp legacy request s)) = s"
  proof (cases "dispatch request = None \<or> dispatch request = Some HealthGet")
    case True
    then show ?thesis
      by (auto simp: build_router_def log_requests_state origin.wrap_eq health_def)
  next
    case False
    then show ?thesis using guarded by auto
  qed
  show "rs_status (fst (snd (build_router to_str config dispatch fallback mcp legacy request s))) =
      (if \<not> origin_ok to_str config request then 403 else if e = HealthGet then 200 else 401)"
    if "dispatch request = Some e"
    using guarded [OF that] that
    by (cases "e = HealthGet")
      (simp_all add: build_router_def log_requests_state origin.wrap_eq health_def origin_refusal_def
        forbidden_def plain_response_def)
qed

text \<open>
  C8: Nothing but the liveness probe works without the token. When a token is configured, a request
  without it, or with another, is answered by 401, or 403 for a foreign origin, on every MCP
  endpoint; the state of the server is the same before and after, whatever the endpoint's handler
  would have done; so no session is opened and no message delivered. The probe answers without it.
\<close>
theorem router_protected:
  assumes "cf_token config = Some token" and "valid_str token"
    and "\<And>bs v. to_str bs = Some v \<Longrightarrow> valid_str v"
    and "Option.bind (rq_header request (lit ''authorization'')) to_str \<noteq> Some (lit ''Bearer '' @ token)"
  shows "snd (snd (build_router to_str config dispatch fallback mcp legacy request s)) = s \<and>
    (case dispatch request of
       None \<Rightarrow> True
     | Some e \<Rightarrow>
         rs_status (fst (snd (build_router to_str config dispatch fallback mcp legacy request s))) =
           (if \<not> origin_ok to_str config request then 403 else if e = HealthGet then 200 else 401))"
proof -
  have "\<not> bearer_ok to_str config request"
    using bearer_ok_iff [of config token to_str request] assms by blast
  note refused = router_refuses [OF this]
  show ?thesis
  proof (cases "dispatch request")
    case None
    then show ?thesis by (simp add: refused(1))
  next
    case (Some e)
    show ?thesis unfolding Some option.case by (rule conjI [OF refused(1) refused(2) [of dispatch, OF Some]])
  qed
qed

definition open_dispatch :: "request \<Rightarrow> endpoint option" where
  "open_dispatch request =
     (if rq_path request = lit ''/sse'' then Some SseGet
      else if rq_path request = lit ''/health'' then Some HealthGet else None)"

definition demo_router :: "request \<Rightarrow> (nat, nat) sse \<Rightarrow> log_record list \<times> response \<times> (nat, nat) sse" where
  "demo_router = build_router visible_ascii locked_config open_dispatch (\<lambda>_. plain_response 404 [])
     (\<lambda>_ _ s. ([], plain_response 200 [], s)) (\<lambda>_. sse_handler (lit ''a''))"

text \<open>With the token the same request opens a session.\<close>

theorem router_protected_witness:
  "snd (snd (demo_router (sample_request (lit ''/sse'') []) sse_new)) = sse_new \<and>
   rs_status (fst (snd (demo_router (sample_request (lit ''/sse'') []) sse_new))) = 401 \<and>
   rs_status (fst (snd (demo_router (sample_request (lit ''/sse'')
     [(lit ''authorization'', lit ''Bearer t0k'')]) sse_new))) = 200"
proof -
  let ?r = "sample_request (lit ''/sse'') []"
  have v: "cf_token locked_config = Some (lit ''t0k'')" "valid_str (lit ''t0k'')"
    "Option.bind (rq_header ?r (lit ''authorization'')) visible_ascii \<noteq> Some (lit ''Bearer '' @ lit ''t0k'')"
    "open_dispatch ?r = Some SseGet" "origin_ok visible_ascii locked_config ?r"
    by code_simp+
  have p: "snd (snd (demo_router ?r sse_new)) = sse_new \<and>
      (case open_dispatch ?r of None \<Rightarrow> True
       | Some e \<Rightarrow> rs_status (fst (snd (demo_router ?r sse_new))) =
           (if \<not> origin_ok visible_ascii locked_config ?r then 403 else if e = HealthGet then 200 else 401))"
    unfolding demo_router_def using v(1,2) visible_ascii_valid v(3) by (rule router_protected)
  have "rs_status (fst (snd (demo_router (sample_request (lit ''/sse'')
      [(lit ''authorization'', lit ''Bearer t0k'')]) sse_new))) = 200"
    by code_simp
  then show ?thesis using p v(4,5) by simp
qed

text \<open>
  Without a list of hosts every host is accepted; the transport's own default, loopback only, is
  switched off.
\<close>

lemma no_hosts_any_host: "mc_hosts (mcp_config_of open_config) = AnyHost"
  by (simp add: mcp_config_of_def open_config_def)

end
