(* ===== verification/Edit_Match.thy ===== *)
theory Edit_Match
  imports Rust_Str
begin

text \<open>
  The matching half of \<^theory_text>\<open>tools/edit.rs\<close>: an \<^theory_text>\<open>oldText\<close> is located in the file by an exact search
  and, when that finds nothing, by a search in a normalised copy of the file whose positions are
  mapped back to byte ranges of the original. NFKC normalisation of a single character is a
  third-party crate's, so it is the parameter \<open>nfkc\<close> of every definition that uses it.

  \<^theory_text>\<open>None\<close> stands for a panic (an index out of range); an \<^theory_text>\<open>Inl\<close> is the code's \<^theory_text>\<open>MatchError\<close>.
\<close>

section \<open>Character normalisation\<close>

definition map_char :: "rchar \<Rightarrow> rchar" where
  "map_char ch =
     (if ch \<in> {0x2018, 0x2019, 0x201A, 0x201B} then 39
      else if ch \<in> {0x201C, 0x201D, 0x201E, 0x201F} then 34
      else if (0x2010 \<le> ch \<and> ch \<le> 0x2015) \<or> ch \<in> {0x2212, 0xFE58, 0xFE63, 0xFF0D} then 45
      else if ch = 0xA0 \<or> (0x2000 \<le> ch \<and> ch \<le> 0x200A) \<or> ch \<in> {0x202F, 0x205F, 0x3000} then 32
      else ch)"

definition is_blank :: "rchar \<Rightarrow> bool" where
  "is_blank mapped \<longleftrightarrow> mapped = 32 \<or> mapped = 9"

definition nfkc_out :: "(rchar \<Rightarrow> rstr) \<Rightarrow> rchar \<Rightarrow> rstr" where
  "nfkc_out nfkc mapped = (if is_ascii mapped then [mapped] else nfkc mapped)"

text \<open>\<^theory_text>\<open>normalize_chars\<close>: the loop over the needle, with \<open>pending_ws\<close> and \<open>prev_cr\<close>.\<close>

fun normalize_loop :: "(rchar \<Rightarrow> rstr) \<Rightarrow> rstr \<Rightarrow> nat \<Rightarrow> bool \<Rightarrow> rstr \<Rightarrow> rstr" where
  "normalize_loop nfkc chars pending_ws prev_cr [] = chars"
| "normalize_loop nfkc chars pending_ws prev_cr (ch # s) =
     (if ch = cr then normalize_loop nfkc (chars @ [nl]) 0 True s
      else if ch = nl then
        if prev_cr then normalize_loop nfkc chars pending_ws False s
        else normalize_loop nfkc (chars @ [nl]) 0 prev_cr s
      else
        (let mapped = map_char ch
         in if is_blank mapped then normalize_loop nfkc chars (pending_ws + 1) False s
            else normalize_loop nfkc
                   (chars @ replicate pending_ws 32 @ nfkc_out nfkc mapped) 0 False s))"

definition normalize_chars :: "(rchar \<Rightarrow> rstr) \<Rightarrow> rstr \<Rightarrow> rstr" where
  "normalize_chars nfkc input = normalize_loop nfkc [] 0 False input"

section \<open>The normalised text and its position map\<close>

record normalized_text =
  nt_chars :: rstr
  nt_map :: "(nat \<times> nat) list"
  nt_orig_chars :: rstr
  nt_orig_byte_start :: "nat list"

fun byte_starts :: "nat \<Rightarrow> rstr \<Rightarrow> nat list" where
  "byte_starts offset [] = []"
| "byte_starts offset (ch # s) = offset # byte_starts (offset + len_utf8 ch) s"

type_synonym nt_acc = "rstr \<times> (nat \<times> nat) list"

definition push_newline :: "nt_acc \<Rightarrow> nat list \<Rightarrow> nat \<Rightarrow> nat \<Rightarrow> nt_acc" where
  "push_newline a pending_ws newline_index consume =
     (let start = (case pending_ws of [] \<Rightarrow> newline_index | w # _ \<Rightarrow> w);
          consumed = newline_index - start + consume
      in (fst a @ [nl], snd a @ [(start, consumed)]))"

definition push_nfkc :: "(rchar \<Rightarrow> rstr) \<Rightarrow> nt_acc \<Rightarrow> rchar \<Rightarrow> nat \<Rightarrow> nt_acc" where
  "push_nfkc nfkc a ch orig_index =
     (if is_ascii ch then (fst a @ [ch], snd a @ [(orig_index, 1)])
      else (let expanded = nfkc ch
            in (fst a @ expanded, snd a @ map (\<lambda>_. (orig_index, 1)) expanded)))"

definition push_pending :: "nt_acc \<Rightarrow> nat list \<Rightarrow> nt_acc" where
  "push_pending a pending_ws =
     (fst a @ map (\<lambda>_. 32) pending_ws, snd a @ map (\<lambda>w. (w, 1)) pending_ws)"

text \<open>The \<^theory_text>\<open>while\<close> loop of \<^theory_text>\<open>NormalizedText::new\<close>: index \<open>i\<close>, the characters from \<open>i\<close> on.\<close>

function nt_loop :: "(rchar \<Rightarrow> rstr) \<Rightarrow> nat \<Rightarrow> nt_acc \<Rightarrow> nat list \<Rightarrow> rstr \<Rightarrow> nt_acc" where
  "nt_loop nfkc i a pending_ws [] = a"
| "nt_loop nfkc i a pending_ws (ch # s) =
     (if ch = cr then
        (let consume = (if s \<noteq> [] \<and> hd s = nl then 2 else 1)
         in nt_loop nfkc (i + consume) (push_newline a pending_ws i consume) []
              (drop consume (ch # s)))
      else if ch = nl then nt_loop nfkc (i + 1) (push_newline a pending_ws i 1) [] s
      else
        (let mapped = map_char ch
         in if is_blank mapped then nt_loop nfkc (i + 1) a (pending_ws @ [i]) s
            else nt_loop nfkc (i + 1) (push_nfkc nfkc (push_pending a pending_ws) mapped i) [] s))"
  by pat_completeness auto
termination
  by (relation "measure (\<lambda>(nfkc, i, a, pending_ws, s). length s)") (auto simp: Let_def)

definition new_normalized :: "(rchar \<Rightarrow> rstr) \<Rightarrow> rstr \<Rightarrow> normalized_text" where
  "new_normalized nfkc original =
     (let a = nt_loop nfkc 0 ([], []) [] original
      in \<lparr>nt_chars = fst a, nt_map = snd a, nt_orig_chars = original,
          nt_orig_byte_start = byte_starts 0 original\<rparr>)"

definition nth_opt :: "'a list \<Rightarrow> nat \<Rightarrow> 'a option" where
  "nth_opt xs i = (if i < length xs then Some (xs ! i) else None)"

definition original_range :: "normalized_text \<Rightarrow> nat \<Rightarrow> nat \<Rightarrow> (nat \<times> nat) option" where
  "original_range nt start stop =
     (case (nth_opt (nt_map nt) start, nth_opt (nt_map nt) (stop - 1)) of
        (Some (first_char, _), Some (last0, consumed)) \<Rightarrow>
          (let last_char = last0 + consumed - 1
           in case (nth_opt (nt_orig_byte_start nt) first_char,
                    nth_opt (nt_orig_byte_start nt) last_char,
                    nth_opt (nt_orig_chars nt) last_char) of
                (Some b, Some l, Some ch) \<Rightarrow> Some (b, l + len_utf8 ch)
              | _ \<Rightarrow> None)
      | _ \<Rightarrow> None)"

section \<open>Locating a unique match\<close>

definition window_matches :: "rstr \<Rightarrow> rstr \<Rightarrow> nat \<Rightarrow> bool" where
  "window_matches haystack needle start =
     list_all (\<lambda>(offset, expected). haystack ! (start + offset) = expected) (enumerate 0 needle)"

definition find_all_char_positions :: "rstr \<Rightarrow> rstr \<Rightarrow> nat list" where
  "find_all_char_positions haystack needle =
     (if needle = [] \<or> length haystack < length needle then []
      else filter (window_matches haystack needle) [0 ..< length haystack - length needle + 1])"

datatype match_error = NotFound | Multiple nat

definition find_unique_range ::
  "(rchar \<Rightarrow> rstr) \<Rightarrow> rstr \<Rightarrow> rstr \<Rightarrow> (match_error + nat \<times> nat) option" where
  "find_unique_range nfkc content old_text =
     (let exact = match_indices content old_text; count = length exact
      in if count = 1 then Some (Inr (hd exact, hd exact + str_len old_text))
         else if count > 1 then Some (Inl (Multiple count))
         else
           (let normalized = new_normalized nfkc content;
                needle = normalize_chars nfkc old_text
            in if needle = [] then Some (Inl NotFound)
               else
                 (let positions = find_all_char_positions (nt_chars normalized) needle
                  in case positions of
                       [] \<Rightarrow> Some (Inl NotFound)
                     | [start] \<Rightarrow>
                         map_option Inr
                           (original_range normalized start (start + length needle))
                     | _ \<Rightarrow> Some (Inl (Multiple (length positions))))))"

end
