(* ===== verification/Normal_Segments.thy ===== *)
theory Normal_Segments
  imports Edit_Match
begin

text \<open>
  The specification behind \<^theory_text>\<open>NormalizedText::new\<close> and \<^theory_text>\<open>normalize_chars\<close>: the text is cut into
  consecutive segments, each with the characters it contributes to the normalised text. Both loops
  compute the same segmentation, and the position map lists, for every normalised character, the
  segment it came from. What the search in the normalised text selects follows from it.
\<close>

section \<open>Segments\<close>

text \<open>\<open>segs nfkc k s\<close>: the segments of \<open>k\<close> blank characters that are held back, followed by \<open>s\<close>.\<close>

fun segs :: "(rchar \<Rightarrow> rstr) \<Rightarrow> nat \<Rightarrow> rstr \<Rightarrow> (rstr \<times> nat) list" where
  "segs nfkc k [] = []"
| "segs nfkc k (ch # s) =
     (if ch = cr then
        if s \<noteq> [] \<and> hd s = nl then ([nl], k + 2) # segs nfkc 0 (tl s)
        else ([nl], k + 1) # segs nfkc 0 s
      else if ch = nl then ([nl], k + 1) # segs nfkc 0 s
      else if is_blank (map_char ch) then segs nfkc (k + 1) s
      else replicate k ([32], 1) @ (nfkc_out nfkc (map_char ch), 1) # segs nfkc 0 s)"

definition seg_text :: "(rstr \<times> nat) list \<Rightarrow> rstr" where
  "seg_text l = concat (map fst l)"

definition seg_len :: "(rstr \<times> nat) list \<Rightarrow> nat" where
  "seg_len l = sum_list (map snd l)"

fun seg_map :: "nat \<Rightarrow> (rstr \<times> nat) list \<Rightarrow> (nat \<times> nat) list" where
  "seg_map p [] = []"
| "seg_map p (g # l) = map (\<lambda>_. (p, snd g)) (fst g) @ seg_map (p + snd g) l"

named_theorems seg_simps \<open>segment lists\<close>

lemma seg_text_simps [seg_simps]:
  "seg_text [] = []" "seg_text (g # l) = fst g @ seg_text l"
  "seg_text (l @ l') = seg_text l @ seg_text l'"
  by (simp_all add: seg_text_def)

lemma seg_text_replicate [seg_simps]: "seg_text (replicate k ([c], n)) = replicate k c"
  by (induction k) (auto simp: seg_text_def)

lemma seg_len_simps [seg_simps]:
  "seg_len [] = 0" "seg_len (g # l) = snd g + seg_len l"
  "seg_len (l @ l') = seg_len l + seg_len l'"
  "seg_len (replicate k (c, Suc 0)) = k"
  by (simp_all add: seg_len_def sum_list_replicate)

lemma seg_map_append [seg_simps]: "seg_map p (l @ l') = seg_map p l @ seg_map (p + seg_len l) l'"
  by (induction l arbitrary: p) (auto simp: seg_simps add.assoc)

lemma seg_map_replicate [seg_simps]:
  "seg_map p (replicate k ([c], Suc 0)) = map (\<lambda>w. (w, Suc 0)) [p ..< p + k]"
  by (induction k arbitrary: p) (auto simp: upt_conv_Cons simp del: upt_Suc)

lemma length_seg_map [seg_simps]: "length (seg_map p l) = length (seg_text l)"
  by (induction l arbitrary: p) (auto simp: seg_simps)

section \<open>Both loops compute the segmentation\<close>

lemma nt_loop_segs:
  assumes "pending = [i - k ..< i]" and "k \<le> i"
  shows "nt_loop nfkc i a pending s =
    (fst a @ seg_text (segs nfkc k s), snd a @ seg_map (i - k) (segs nfkc k s))"
  using assms
proof (induction nfkc i a pending s arbitrary: k rule: nt_loop.induct)
  case (1 nfkc i a pending)
  then show ?case by (simp add: seg_simps)
next
  case (2 nfkc i a pending ch s)
  have push: "push_newline a pending i n = (fst a @ [nl], snd a @ [(i - k, k + n)])" for n
    using "2.prems" by (cases "k = 0") (auto simp: push_newline_def upt_conv_Cons)
  consider (cr) "ch = cr" | (nl) "ch = nl" | (blank) "ch \<noteq> cr" "ch \<noteq> nl" "is_blank (map_char ch)"
    | (other) "ch \<noteq> cr" "ch \<noteq> nl" "\<not> is_blank (map_char ch)"
    by blast
  then show ?case
  proof cases
    case cr
    define n :: nat where "n = (if s \<noteq> [] \<and> hd s = nl then 2 else 1)"
    have "nt_loop nfkc (i + n) (push_newline a pending i n) [] (drop n (ch # s)) =
      (fst (push_newline a pending i n) @ seg_text (segs nfkc 0 (drop n (ch # s))),
       snd (push_newline a pending i n) @ seg_map (i + n - 0) (segs nfkc 0 (drop n (ch # s))))"
      using "2.IH"(1) [OF cr, of n 0] unfolding n_def by simp
    then show ?thesis using cr push "2.prems"(2)
      by (auto simp: n_def Let_def seg_simps drop_Suc numeral_2_eq_2)
  next
    case nl
    then have "nt_loop nfkc (i + 1) (push_newline a pending i 1) [] s =
      (fst (push_newline a pending i 1) @ seg_text (segs nfkc 0 s),
       snd (push_newline a pending i 1) @ seg_map (i + 1 - 0) (segs nfkc 0 s))"
      using "2.IH"(2) [of 0] by simp
    then show ?thesis using nl push "2.prems"(2) by (simp add: seg_simps)
  next
    case blank
    have "pending @ [i] = [i + 1 - (k + 1) ..< i + 1]" using "2.prems" by simp
    then have "nt_loop nfkc (i + 1) a (pending @ [i]) s =
      (fst a @ seg_text (segs nfkc (k + 1) s),
       snd a @ seg_map (i + 1 - (k + 1)) (segs nfkc (k + 1) s))"
      using "2.IH"(3) [OF blank(1,2) refl blank(3), of "k + 1"] "2.prems"(2) by simp
    then show ?thesis using blank by (simp add: Let_def)
  next
    case other
    let ?a = "push_nfkc nfkc (push_pending a pending) (map_char ch) i"
    have a: "?a = (fst a @ replicate k 32 @ nfkc_out nfkc (map_char ch),
        snd a @ map (\<lambda>w. (w, Suc 0)) [i - k ..< i]
          @ map (\<lambda>_. (i, Suc 0)) (nfkc_out nfkc (map_char ch)))"
      using "2.prems" by (simp add: push_nfkc_def push_pending_def nfkc_out_def Let_def map_replicate_const)
    have "nt_loop nfkc (i + 1) ?a [] s =
      (fst ?a @ seg_text (segs nfkc 0 s), snd ?a @ seg_map (i + 1 - 0) (segs nfkc 0 s))"
      using "2.IH"(4) [OF other(1,2) refl other(3), of 0] by simp
    then show ?thesis using other a "2.prems"(2)
      by (simp add: seg_simps Let_def)
  qed
qed

lemma new_normalized_segs:
  "nt_chars (new_normalized nfkc s) = seg_text (segs nfkc 0 s)"
  "nt_map (new_normalized nfkc s) = seg_map 0 (segs nfkc 0 s)"
  by (simp_all add: new_normalized_def Let_def nt_loop_segs [where k = 0])

lemma normalize_loop_segs:
  "normalize_loop nfkc chars k False s = chars @ seg_text (segs nfkc k s)
   \<and> normalize_loop nfkc chars 0 True s =
       chars @ seg_text (segs nfkc 0 (if s \<noteq> [] \<and> hd s = nl then tl s else s))"
proof (induction s arbitrary: chars k)
  case Nil
  then show ?case by (simp add: seg_simps)
next
  case (Cons ch s)
  then show ?case by (auto simp: Let_def seg_simps)
qed

lemma normalize_chars_segs: "normalize_chars nfkc s = seg_text (segs nfkc 0 s)"
  by (simp add: normalize_chars_def normalize_loop_segs)

section \<open>Segments partition the text\<close>

lemma seg_len_segs: "seg_len (segs nfkc k s) \<le> k + length s"
proof (induction nfkc k s rule: segs.induct)
  case (1 nfkc k)
  then show ?case by (simp add: seg_simps)
next
  case (2 nfkc k ch s)
  show ?case
  proof (cases "ch = cr \<and> s \<noteq> [] \<and> hd s = nl")
    case True
    then have "seg_len (segs nfkc 0 (tl s)) \<le> length s - 1" using "2.IH"(1) by simp
    moreover have "0 < length s" using True by simp
    ultimately have "k + 2 + seg_len (segs nfkc 0 (tl s)) \<le> k + Suc (length s)" by linarith
    then show ?thesis using True by (simp add: seg_simps)
  next
    case False
    then show ?thesis using "2.IH"(2-5) by (auto simp: seg_simps)
  qed
qed

lemma segs_pos: "g \<in> set (segs nfkc k s) \<Longrightarrow> 0 < snd g"
  by (induction nfkc k s rule: segs.induct) (auto split: if_splits)

lemma seg_map_bounds:
  assumes "e \<in> set (seg_map p l)" and "\<And>g. g \<in> set l \<Longrightarrow> 0 < snd g"
  shows "p \<le> fst e \<and> fst e + snd e \<le> p + seg_len l \<and> 0 < snd e"
  using assms
proof (induction l arbitrary: p)
  case Nil
  then show ?case by simp
next
  case (Cons g l)
  then show ?case by (fastforce simp: seg_simps)
qed

lemma seg_map_sorted: "sorted_wrt (\<lambda>e e'. fst e \<le> fst e' \<and> fst e + snd e \<le> fst e' + snd e') (seg_map p l)"
proof (induction l arbitrary: p)
  case Nil
  then show ?case by simp
next
  case (Cons g l)
  have low: "p' \<le> fst e" if "e \<in> set (seg_map p' l')" for p' e and l' :: "(rstr \<times> nat) list"
    using that by (induction l' arbitrary: p') (auto dest: add_leD1)
  have "sorted_wrt (\<lambda>e e'. fst e \<le> fst e' \<and> fst e + snd e \<le> fst e' + snd e')
      (map (\<lambda>_. (p, snd g)) x)" for x :: rstr
    by (induction x) auto
  then show ?case using Cons.IH [of "p + snd g"] low [of _ "p + snd g" l]
    by (fastforce simp: sorted_wrt_append)
qed

lemma length_byte_starts [simp]: "length (byte_starts off s) = length s"
  by (induction s arbitrary: off) auto

lemma nth_byte_starts: "i < length s \<Longrightarrow> byte_starts off s ! i = off + str_len (take i s)"
proof (induction s arbitrary: off i)
  case Nil
  then show ?case by simp
next
  case (Cons c s)
  then show ?case by (cases i) auto
qed

text \<open>
  A range of normalised characters maps back to a non-empty range of characters of the original,
  and none of the lookups is out of range.
\<close>

lemma original_range_ok:
  assumes "start < stop" and "stop \<le> length (nt_chars (new_normalized nfkc s))"
  obtains i j where "i < j" "j \<le> length s"
    "nt_map (new_normalized nfkc s) ! start = (i, snd (nt_map (new_normalized nfkc s) ! start))"
    "j = fst (nt_map (new_normalized nfkc s) ! (stop - 1)) + snd (nt_map (new_normalized nfkc s) ! (stop - 1))"
    "original_range (new_normalized nfkc s) start stop =
       Some (str_len (take i s), str_len (take j s))"
proof -
  let ?m = "seg_map 0 (segs nfkc 0 s)"
  obtain i n where e1: "?m ! start = (i, n)" by fastforce
  obtain p c where e2: "?m ! (stop - 1) = (p, c)" by fastforce
  have len: "start < length ?m" "stop - 1 < length ?m"
    using assms by (simp_all add: new_normalized_segs seg_simps)
  have bounds: "fst e + snd e \<le> length s \<and> 0 < snd e" if "e \<in> set ?m" for e
    using seg_map_bounds [OF that segs_pos] seg_len_segs [of nfkc 0 s] by fastforce
  have le: "i \<le> p \<and> i + n \<le> p + c"
  proof (cases "start = stop - 1")
    case True
    then show ?thesis using e1 e2 by simp
  next
    case False
    then have "start < stop - 1" using assms(1) by simp
    from sorted_wrt_nth_less [OF seg_map_sorted this len(2)] show ?thesis
      unfolding e1 e2 by simp
  qed
  have b1: "i + n \<le> length s" "0 < n" using bounds [of "(i, n)"] len(1) e1 nth_mem by fastforce+
  have b2: "p + c \<le> length s" "0 < c" using bounds [of "(p, c)"] len(2) e2 nth_mem by fastforce+
  have j: "p + c - 1 < length s" "Suc (p + c - 1) = p + c" using b2 by linarith+
  have r: "original_range (new_normalized nfkc s) start stop =
      Some (str_len (take i s), str_len (take (p + c) s))"
    using len e1 e2 b1 b2 j str_len_take_Suc [OF j(1)]
    by (simp add: original_range_def nth_opt_def new_normalized_segs nth_byte_starts)
      (simp add: new_normalized_def Let_def nth_byte_starts)
  show thesis
  proof (rule that [of i "p + c"])
    show "i < p + c" using le b2 b1 by linarith
  qed (use b2 r e1 e2 in \<open>simp_all add: new_normalized_segs\<close>)
qed

lemma original_range_Some:
  assumes "start < stop" and "stop \<le> length (nt_chars (new_normalized nfkc s))"
  shows "\<exists>i j. i < j \<and> j \<le> length s \<and> original_range (new_normalized nfkc s) start stop =
    Some (str_len (take i s), str_len (take j s))"
  using original_range_ok [OF assms] by metis

section \<open>Cutting the text at segment ends\<close>

definition blank_char :: "rchar \<Rightarrow> bool" where
  "blank_char c \<longleftrightarrow> c \<noteq> cr \<and> c \<noteq> nl \<and> is_blank (map_char c)"

lemma segs_blanks: "\<forall>c \<in> set w. blank_char c \<Longrightarrow> segs nfkc k (w @ s) = segs nfkc (k + length w) s"
  by (induction w arbitrary: k) (auto simp: blank_char_def)

lemma segs_all_blank: "\<forall>c \<in> set w. blank_char c \<Longrightarrow> segs nfkc k w = []"
  using segs_blanks [of w nfkc k "[]"] by simp

text \<open>How a text with a first segment starts: the blanks, then a line end or another character.\<close>

lemma segs_ConsE:
  assumes "segs nfkc 0 s = g # l"
  obtains (newline) w n t where "\<forall>c \<in> set w. blank_char c" "s = w @ n @ t"
      "n = [nl] \<or> n = [cr, nl] \<or> n = [cr] \<and> (t = [] \<or> hd t \<noteq> nl)"
      "g = ([nl], length w + length n)" "l = segs nfkc 0 t"
  | (char) c t where "c \<noteq> cr" "c \<noteq> nl" "\<not> is_blank (map_char c)" "s = c # t"
      "g = (nfkc_out nfkc (map_char c), 1)" "l = segs nfkc 0 t"
  | (blank) b w c t where "blank_char b" "\<forall>c \<in> set w. blank_char c" "c \<noteq> cr" "c \<noteq> nl"
      "\<not> is_blank (map_char c)" "s = b # w @ c # t" "g = ([32], 1)" "l = segs nfkc 0 (w @ c # t)"
proof -
  define w where "w = takeWhile blank_char s"
  define u where "u = dropWhile blank_char s"
  have s: "s = w @ u" by (simp add: w_def u_def)
  have w: "\<forall>c \<in> set w. blank_char c" unfolding w_def by (auto dest: set_takeWhileD)
  obtain c t where u: "u = c # t"
    using assms segs_all_blank [OF w] s by (cases u) auto
  have c: "\<not> blank_char c" using u unfolding u_def by (metis hd_dropWhile list.distinct(1) list.sel(1))
  have eq: "segs nfkc (length w) (c # t) = g # l"
    using assms s u segs_blanks [OF w, of nfkc 0 u] by simp
  consider (A) "c = nl" | (B) "c = cr" "t \<noteq> []" "hd t = nl" | (C) "c = cr" "t = [] \<or> hd t \<noteq> nl"
    | (D) "c \<noteq> cr" "c \<noteq> nl" "\<not> is_blank (map_char c)"
    using c by (auto simp: blank_char_def)
  then show thesis
  proof cases
    case A
    then show thesis using eq s u w by (intro newline [of w "[nl]" t]) auto
  next
    case B
    then have "t = nl # tl t" by (metis list.collapse)
    then show thesis using B eq s u w by (intro newline [of w "[cr, nl]" "tl t"]) auto
  next
    case C
    then show thesis using eq s u w by (intro newline [of w "[cr]" t]) auto
  next
    case D
    show thesis
    proof (cases w)
      case Nil
      then show thesis using D eq s u by (intro char [of c t]) auto
    next
      case (Cons b w')
      have "segs nfkc 0 (w' @ c # t) = segs nfkc (length w') (c # t)"
        using w Cons segs_blanks [of w' nfkc 0] by simp
      then show thesis using D Cons w eq s u by (intro blank [of b w' c t]) auto
    qed
  qed
qed

lemma segs_drop1:
  assumes "segs nfkc 0 s = g # l"
  shows "segs nfkc 0 (drop (snd g) s) = l"
  using assms by (cases rule: segs_ConsE) auto

lemma segs_drop: "segs nfkc 0 s = xs @ l \<Longrightarrow> segs nfkc 0 (drop (seg_len xs) s) = l"
proof (induction xs arbitrary: s)
  case Nil
  then show ?case by (simp add: seg_simps)
next
  case (Cons g xs)
  then have "segs nfkc 0 (drop (snd g) s) = xs @ l" by (intro segs_drop1) simp
  then have "segs nfkc 0 (drop (seg_len xs) (drop (snd g) s)) = l" by (rule Cons.IH)
  then show ?case by (simp add: seg_simps add.commute)
qed

lemma segs_take:
  assumes "segs nfkc 0 s = ys @ zs" and "ys \<noteq> []" and "fst (last ys) \<noteq> [32]"
  shows "segs nfkc 0 (take (seg_len ys) s) = ys"
  using assms
proof (induction ys arbitrary: s)
  case Nil
  then show ?case by simp
next
  case (Cons g ys)
  let ?n = "seg_len ys"
  have rest: "segs nfkc 0 (take ?n r) = ys" if "segs nfkc 0 r = ys @ zs" for r
    using Cons.IH [OF that] Cons.prems(3) by (cases "ys = []") (auto simp: seg_simps)
  from Cons.prems(1) have "segs nfkc 0 s = g # (ys @ zs)" by simp
  then show ?case
  proof (cases rule: segs_ConsE)
    case (newline w n t)
    have "take (seg_len (g # ys)) s = w @ n @ take ?n t"
      using newline by (simp add: seg_simps)
    moreover have "segs nfkc (length w) (n @ take ?n t) = g # segs nfkc 0 (take ?n t)"
      using newline(3,4) by (cases t; cases ?n) auto
    ultimately show ?thesis
      using rest [OF newline(5) [symmetric]] segs_blanks [OF newline(1), of nfkc 0] by simp
  next
    case (char c t)
    then show ?thesis using rest [of t] by (simp add: seg_simps)
  next
    case (blank b w c t)
    have IH: "segs nfkc 0 (take ?n (w @ c # t)) = ys"
      by (rule rest) (rule blank(8) [symmetric])
    have "ys \<noteq> []" using Cons.prems(3) blank(7) by auto
    moreover have "\<forall>c \<in> set (take ?n w). blank_char c" using blank(2) by (meson in_set_takeD)
    ultimately have "\<not> ?n \<le> length w" using IH segs_all_blank [of "take ?n w" nfkc 0] by auto
    then obtain m where m: "?n = Suc (length w + m)"
      by (metis Suc_leI add_Suc le_iff_add linorder_not_le)
    then have "take (seg_len (g # ys)) s = (b # w) @ c # take m t"
      using blank(6,7) by (simp add: seg_simps)
    moreover have "segs nfkc 0 ((b # w) @ c # take m t) = g # segs nfkc 0 (w @ c # take m t)"
      using segs_blanks [of "b # w" nfkc 0] segs_blanks [of w nfkc 0] blank by simp
    ultimately show ?thesis using IH m by simp
  qed
qed

section \<open>Normalisation without expansion\<close>

text \<open>
  \<open>nfkc_simple nfkc s\<close>: NFKC turns every character of \<open>s\<close> into one character, not a space. This is
  the case for all text without compatibility ligatures, squared words, fractions and the like.
\<close>

definition nfkc_simple :: "(rchar \<Rightarrow> rstr) \<Rightarrow> rstr \<Rightarrow> bool" where
  "nfkc_simple nfkc s \<longleftrightarrow>
     list_all (\<lambda>c. is_ascii (map_char c) \<or> length (nfkc (map_char c)) = 1 \<and> nfkc (map_char c) \<noteq> [32]) s"

lemma nfkc_simple_Cons [simp]:
  "nfkc_simple nfkc (c # s) \<longleftrightarrow>
     (is_ascii (map_char c) \<or> length (nfkc (map_char c)) = 1 \<and> nfkc (map_char c) \<noteq> [32])
     \<and> nfkc_simple nfkc s"
  by (simp add: nfkc_simple_def)

lemma nfkc_simple_tl: "nfkc_simple nfkc s \<Longrightarrow> nfkc_simple nfkc (tl s)"
  by (cases s) auto

lemma segs_single: "nfkc_simple nfkc s \<Longrightarrow> g \<in> set (segs nfkc k s) \<Longrightarrow> length (fst g) = 1"
  by (induction nfkc k s rule: segs.induct)
    (auto simp: nfkc_out_def nfkc_simple_tl split: if_splits)

lemma segs_last:
  assumes "nfkc_simple nfkc s" and "segs nfkc k s \<noteq> []"
  shows "fst (last (segs nfkc k s)) \<noteq> [32]"
  using assms
proof (induction nfkc k s rule: segs.induct)
  case (1 nfkc k)
  then show ?case by simp
next
  case (2 nfkc k ch s)
  have "nfkc_out nfkc (map_char ch) \<noteq> [32]" if "\<not> is_blank (map_char ch)"
    using that "2.prems"(1) by (auto simp: nfkc_out_def is_blank_def)
  then show ?case
    using 2 by (auto simp: nl_def nfkc_simple_tl)
qed

lemma seg_text_single:
  assumes "\<forall>g \<in> set l. length (fst g) = 1"
  shows "length (seg_text l) = length l" "seg_text (take i l) = take i (seg_text l)"
    "seg_text (drop i l) = drop i (seg_text l)"
    "i < length l \<Longrightarrow> seg_map p l ! i = (p + seg_len (take i l), snd (l ! i))"
proof -
  show "length (seg_text l) = length l" using assms by (induction l) (auto simp: seg_simps)
  show "seg_text (take i l) = take i (seg_text l)" "seg_text (drop i l) = drop i (seg_text l)"
    using assms by (induction l arbitrary: i) (auto simp: seg_simps take_Cons' drop_Cons')
  show "i < length l \<Longrightarrow> seg_map p l ! i = (p + seg_len (take i l), snd (l ! i))"
    using assms
  proof (induction l arbitrary: i p)
    case Nil
    then show ?case by simp
  next
    case (Cons g l)
    then have "map (\<lambda>_. (p, snd g)) (fst g) = [(p, snd g)]" by (cases "fst g") auto
    then show ?case using Cons by (cases i) (auto simp: seg_simps)
  qed
qed

lemma seg_text_last:
  assumes "l \<noteq> []" and "\<forall>g \<in> set l. length (fst g) = 1"
  shows "fst (last l) = [last (seg_text l)]"
  using assms by (induction l rule: rev_induct) (auto simp: seg_simps length_Suc_conv)

section \<open>The search\<close>

lemma window_matches_iff:
  assumes "start + length needle \<le> length haystack"
  shows "window_matches haystack needle start \<longleftrightarrow> take (length needle) (drop start haystack) = needle"
proof -
  have "window_matches haystack needle start \<longleftrightarrow>
    (\<forall>k < length needle. haystack ! (start + k) = needle ! k)"
    unfolding window_matches_def list_all_length by (simp add: nth_enumerate_eq)
  also have "\<dots> \<longleftrightarrow> take (length needle) (drop start haystack) = needle"
    using assms by (auto simp: list_eq_iff_nth_eq)
  finally show ?thesis .
qed

lemma find_all_char_positions_iff:
  "p \<in> set (find_all_char_positions h n) \<longleftrightarrow>
     n \<noteq> [] \<and> p + length n \<le> length h \<and> take (length n) (drop p h) = n"
proof -
  have "p \<le> length h - length n \<longleftrightarrow> p + length n \<le> length h" if "length n \<le> length h"
    using that by linarith
  then show ?thesis
    by (auto simp: find_all_char_positions_def window_matches_iff less_Suc_eq_le simp del: upt_Suc)
qed

lemma find_all_char_positions_distinct: "distinct (find_all_char_positions h n)"
  by (simp add: find_all_char_positions_def)

text \<open>The three outcomes of the search.\<close>

lemma find_unique_range_cases:
  assumes "old \<noteq> []"
  obtains (exact) a where "match_indices content old = [a]"
      "find_unique_range nfkc content old = Some (Inr (a, a + str_len old))"
  | (ambiguous) n where "n = length (match_indices content old)" "1 < n"
      "find_unique_range nfkc content old = Some (Inl (Multiple n))"
  | (no_needle) "match_indices content old = []" "normalize_chars nfkc old = []"
      "find_unique_range nfkc content old = Some (Inl NotFound)"
  | (absent) "match_indices content old = []" "normalize_chars nfkc old \<noteq> []"
      "find_all_char_positions (nt_chars (new_normalized nfkc content)) (normalize_chars nfkc old) = []"
      "find_unique_range nfkc content old = Some (Inl NotFound)"
  | (fallback) st where "match_indices content old = []" "normalize_chars nfkc old \<noteq> []"
      "find_all_char_positions (nt_chars (new_normalized nfkc content)) (normalize_chars nfkc old) = [st]"
      "find_unique_range nfkc content old = map_option Inr
         (original_range (new_normalized nfkc content) st (st + length (normalize_chars nfkc old)))"
  | (fallback_ambiguous) ps where "match_indices content old = []" "normalize_chars nfkc old \<noteq> []"
      "find_all_char_positions (nt_chars (new_normalized nfkc content)) (normalize_chars nfkc old) = ps"
      "1 < length ps" "find_unique_range nfkc content old = Some (Inl (Multiple (length ps)))"
proof (cases "match_indices content old")
  case Nil
  note none = Nil
  show thesis
  proof (cases "normalize_chars nfkc old = []")
    case True
    then show thesis using none by (intro no_needle) (simp_all add: find_unique_range_def Let_def)
  next
    case False
    let ?ps = "find_all_char_positions (nt_chars (new_normalized nfkc content)) (normalize_chars nfkc old)"
    consider "?ps = []" | st where "?ps = [st]" | x y zs where "?ps = x # y # zs"
      by (metis list.exhaust)
    then show thesis
    proof cases
      case 1
      then show thesis using none False
        by (intro absent) (simp_all add: find_unique_range_def Let_def)
    next
      case 2
      then show thesis using none False
        by (intro fallback) (simp_all add: find_unique_range_def Let_def)
    next
      case (3 x y zs)
      then show thesis using none False
        by (intro fallback_ambiguous [of ?ps]) (simp_all add: find_unique_range_def Let_def)
    qed
  qed
next
  case (Cons a as)
  show thesis
  proof (cases as)
    case Nil
    then show thesis using Cons by (intro exact [of a]) (simp_all add: find_unique_range_def Let_def)
  next
    case (Cons b bs)
    then show thesis using \<open>match_indices content old = a # as\<close>
      by (intro ambiguous [OF refl]) (simp_all add: find_unique_range_def Let_def)
  qed
qed

text \<open>
  What a text selects: its only exact occurrence (in the sense of the search, without overlaps), or,
  if there is none, a stretch for the only occurrence of its normalised form in the normalised
  contents. The stretch normalises to the same text when NFKC maps each character of the contents and
  of the text to one character; where it expands one to several nothing is said of the stretch.
\<close>

definition selects :: "(rchar \<Rightarrow> rstr) \<Rightarrow> rstr \<Rightarrow> rstr \<Rightarrow> rstr \<Rightarrow> bool" where
  "selects nfkc content old mid \<longleftrightarrow>
     mid = old \<and> length (match_indices content old) = 1 \<or>
     match_indices content old = [] \<and>
     length (find_all_char_positions (nt_chars (new_normalized nfkc content)) (normalize_chars nfkc old)) = 1 \<and>
     (nfkc_simple nfkc content \<and> nfkc_simple nfkc old \<longrightarrow>
        normalize_chars nfkc mid = normalize_chars nfkc old)"

lemma find_unique_range_total:
  assumes "old \<noteq> []"
  shows "find_unique_range nfkc content old \<noteq> None"
  using assms
proof (cases rule: find_unique_range_cases [where content = content and nfkc = nfkc])
  case (fallback st)
  let ?n = "normalize_chars nfkc old"
  have "st + length ?n \<le> length (nt_chars (new_normalized nfkc content))"
    using find_all_char_positions_iff [of st "nt_chars (new_normalized nfkc content)" ?n] fallback(3)
    by simp
  moreover have "st < st + length ?n" using fallback(2) by simp
  ultimately show ?thesis
    using fallback(4) original_range_Some [of st "st + length ?n" nfkc content] by auto
qed auto

text \<open>The range of the original that a run of segments of one normalised character each stands for.\<close>

lemma original_range_segs:
  assumes one: "\<forall>g \<in> set (segs nfkc 0 content). length (fst g) = 1"
    and l: "segs nfkc 0 content = xs @ ys @ zs" and ne: "ys \<noteq> []"
  shows "original_range (new_normalized nfkc content) (length xs) (length xs + length ys) =
    Some (str_len (take (seg_len xs) content), str_len (take (seg_len xs + seg_len ys) content))"
proof -
  let ?l = "segs nfkc 0 content" and ?t = "new_normalized nfkc content"
  let ?st = "length xs" and ?e = "length xs + length ys"
  note single = seg_text_single [OF one]
  have lt: "?st < length ?l" "?e - 1 < length ?l" "Suc (?e - 1) = ?e" using ne unfolding l by (cases ys; simp)+
  have st: "?st < ?e" "?e \<le> length (nt_chars ?t)"
    using ne lt by (simp_all add: new_normalized_segs single(1) flip: length_greater_0_conv)
  obtain i j where ij: "nt_map ?t ! ?st = (i, snd (nt_map ?t ! ?st))"
      "j = fst (nt_map ?t ! (?e - 1)) + snd (nt_map ?t ! (?e - 1))"
      "original_range ?t ?st ?e = Some (str_len (take i content), str_len (take j content))"
    using original_range_ok [OF st] by metis
  have i: "i = seg_len xs"
    using ij(1) unfolding new_normalized_segs single(4) [OF lt(1)] by (simp add: l)
  have "j = seg_len (take (?e - 1) ?l @ [?l ! (?e - 1)])"
    using ij(2) unfolding new_normalized_segs single(4) [OF lt(2)] by (simp add: seg_simps)
  then have "j = seg_len (take ?e ?l)"
    using take_Suc_conv_app_nth [OF lt(2)] unfolding lt(3) by simp
  then have "j = seg_len xs + seg_len ys" by (simp add: l seg_simps)
  then show ?thesis using ij(3) i by simp
qed

lemma fallback_segments:
  assumes simple: "nfkc_simple nfkc content" "nfkc_simple nfkc old"
    and needle: "normalize_chars nfkc old \<noteq> []"
    and pos: "st \<in> set (find_all_char_positions (nt_chars (new_normalized nfkc content))
      (normalize_chars nfkc old))"
  obtains pre mid post where "content = pre @ mid @ post"
    "normalize_chars nfkc mid = normalize_chars nfkc old"
    "original_range (new_normalized nfkc content) st (st + length (normalize_chars nfkc old)) =
       Some (str_len pre, str_len (pre @ mid))"
proof -
  let ?n = "normalize_chars nfkc old" and ?l = "segs nfkc 0 content"
  have one: "\<forall>g \<in> set ?l. length (fst g) = 1" using segs_single [OF simple(1)] by blast
  note single = seg_text_single [OF one]
  have p: "st + length ?n \<le> length ?l" "take (length ?n) (drop st (seg_text ?l)) = ?n"
    using pos unfolding find_all_char_positions_iff new_normalized_segs single(1) by simp_all
  define xs ys zs where "xs = take st ?l" and "ys = take (length ?n) (drop st ?l)"
    and "zs = drop (length ?n) (drop st ?l)"
  have l: "?l = xs @ ys @ zs" unfolding xs_def ys_def zs_def by (simp only: append_take_drop_id)
  have npos: "0 < length ?n" using needle by simp
  have ys: "length ys = length ?n" using p(1) by (simp add: ys_def)
  then have "ys \<noteq> []" using npos by auto
  note ys = ys this
  have ysl: "xs @ ys = take (st + length ?n) ?l" by (simp add: xs_def ys_def take_add)
  have "\<forall>g \<in> set (drop st ?l). length (fst g) = 1" using one by (auto dest: in_set_dropD)
  then have tys: "seg_text ys = ?n"
    unfolding ys_def using seg_text_single(2) single(3) p(2) by simp
  define pre rest where "pre = take (seg_len xs) content" and "rest = drop (seg_len xs) content"
  define mid where "mid = take (seg_len ys) rest"
  have le: "seg_len xs + seg_len ys \<le> length content"
    using seg_len_segs [of nfkc 0 content] unfolding l by (simp add: seg_simps)
  have "fst (last ys) \<noteq> [32]"
  proof -
    let ?o = "segs nfkc 0 old"
    have "?o \<noteq> []" using needle by (auto simp: normalize_chars_segs seg_simps)
    then have "fst (last ?o) \<noteq> [32]" "fst (last ?o) = [last ?n]"
      using segs_last [OF simple(2)] seg_text_last segs_single [OF simple(2)]
      unfolding normalize_chars_segs by blast+
    moreover have "\<forall>g \<in> set ys. length (fst g) = 1" using one unfolding l by auto
    then have "fst (last ys) = [last ?n]" using seg_text_last [OF ys(2)] tys by simp
    ultimately show ?thesis by simp
  qed
  then have "segs nfkc 0 mid = ys"
    unfolding mid_def rest_def using segs_take [OF segs_drop [OF l] ys(2)] by blast
  then have norm: "normalize_chars nfkc mid = ?n" using tys by (simp add: normalize_chars_segs)
  have split: "content = pre @ mid @ drop (seg_len ys) rest"
    unfolding mid_def pre_def by (simp only: append_take_drop_id) (simp add: rest_def)
  have "original_range (new_normalized nfkc content) (length xs) (length xs + length ys) =
      Some (str_len (take (seg_len xs) content), str_len (take (seg_len xs + seg_len ys) content))"
    by (rule original_range_segs [OF one l ys(2)])
  moreover have "length xs = st" using p(1) by (simp add: xs_def)
  moreover have "take (seg_len xs) content = pre" "take (seg_len xs + seg_len ys) content = pre @ mid"
    by (simp_all add: pre_def mid_def rest_def take_add)
  ultimately show thesis using that [OF split norm] ys(1) by simp
qed

text \<open>Without expansions, the range of a fallback match is a text that normalises like the needle.\<close>

lemma fallback_selects:
  assumes "nfkc_simple nfkc content" "nfkc_simple nfkc old" and "normalize_chars nfkc old \<noteq> []"
    and "st \<in> set (find_all_char_positions (nt_chars (new_normalized nfkc content)) (normalize_chars nfkc old))"
    and rng: "original_range (new_normalized nfkc content) st (st + length (normalize_chars nfkc old)) =
      Some (str_len (take i content), str_len (take j content))"
    and ij: "i < j" "j \<le> length content"
  shows "normalize_chars nfkc (take (j - i) (drop i content)) = normalize_chars nfkc old"
proof -
  obtain pre mid post where c: "content = pre @ mid @ post" "normalize_chars nfkc mid = normalize_chars nfkc old"
    "original_range (new_normalized nfkc content) st (st + length (normalize_chars nfkc old)) =
       Some (str_len pre, str_len (pre @ mid))"
    using fallback_segments [OF assms(1-4)] by metis
  have tk: "take (length pre) content = pre" "take (length (pre @ mid)) content = pre @ mid"
    "length pre \<le> length content" "length (pre @ mid) \<le> length content"
    unfolding c(1) by simp_all
  have len: "str_len (take i content) = str_len (take (length pre) content)"
    "str_len (take j content) = str_len (take (length (pre @ mid)) content)"
    using c(3) rng unfolding tk by simp_all
  have "i \<le> length content" using ij by linarith
  then have i: "i = length pre" using str_len_take_inj [OF len(1) _ tk(3)] by simp
  have j: "j = length (pre @ mid)" using str_len_take_inj [OF len(2) ij(2) tk(4)] .
  have "take (j - i) (drop i content) = mid" unfolding i j unfolding c(1) by simp
  then show ?thesis using c(2) by simp
qed

lemma find_unique_range_sound:
  assumes "old \<noteq> []" and "find_unique_range nfkc content old = Some (Inr (a, b))"
  shows "\<exists>i j. i < j \<and> j \<le> length content \<and> a = str_len (take i content)
    \<and> b = str_len (take j content) \<and> selects nfkc content old (take (j - i) (drop i content))"
  using assms(1)
proof (cases rule: find_unique_range_cases [where content = content and nfkc = nfkc])
  case (exact c)
  then have "c \<in> set (match_indices content old)" by simp
  then obtain i where i: "i \<le> length content" "c = str_len (take i content)" "prefix old (drop i content)"
    using match_indices_sound assms(1) by blast
  then obtain r where r: "drop i content = old @ r" by (auto simp: prefix_def)
  then have "take (i + length old) content = take i content @ old" by (simp add: take_add)
  moreover have "length old \<le> length content - i" using r by (metis length_append length_drop le_add1)
  ultimately show ?thesis using exact(2) assms i r
    by (intro exI [of _ i] exI [of _ "i + length old"]) (use exact(1) in \<open>auto simp: selects_def\<close>)
next
  case (fallback st)
  let ?n = "normalize_chars nfkc old"
  have st: "st \<in> set (find_all_char_positions (nt_chars (new_normalized nfkc content)) ?n)"
    using fallback(3) by simp
  have rng: "original_range (new_normalized nfkc content) st (st + length ?n) = Some (a, b)"
    using fallback(4) assms(2)
    by (cases "original_range (new_normalized nfkc content) st (st + length ?n)") auto
  have le: "st < st + length ?n" "st + length ?n \<le> length (nt_chars (new_normalized nfkc content))"
    using st fallback(2) unfolding find_all_char_positions_iff by simp_all
  then obtain i j where ij: "i < j" "j \<le> length content" "a = str_len (take i content)"
      "b = str_len (take j content)"
    using original_range_Some [OF le] rng by auto
  have "normalize_chars nfkc (take (j - i) (drop i content)) = ?n"
    if "nfkc_simple nfkc content" "nfkc_simple nfkc old"
    using fallback_selects [OF that fallback(2) st] rng ij by simp
  then show ?thesis using ij fallback(1,3) by (auto simp: selects_def)
qed (use assms(2) in auto)

end
