(* ===== verification/Text_File.thy ===== *)
theory Text_File
  imports Rust_Str
begin

text \<open>
  \<^theory_text>\<open>fs/text.rs\<close>: the byte-order mark and the line endings of a text file. Reading a file strips
  the mark, an edit adopts the dominant line ending, writing restores the mark.
\<close>

section \<open>The operations\<close>

definition bom :: rstr where
  "bom = [0xFEFF]"

definition strip_bom :: "rstr \<Rightarrow> bool \<times> rstr" where
  "strip_bom t =
     (case strip_prefix t bom of
        Some rest \<Rightarrow> (True, rest)
      | None \<Rightarrow> (False, t))"

definition restore_bom :: "bool \<Rightarrow> rstr \<Rightarrow> byte list" where
  "restore_bom had_bom content =
     (if had_bom then utf8_encode bom else []) @ utf8_encode content"

definition is_crlf :: "rstr \<Rightarrow> bool" where
  "is_crlf content =
     (let crlf = matches_count content [cr, nl];
          lone_lf = matches_count content [nl] - crlf
      in crlf > 0 \<and> crlf > lone_lf)"

definition adopt_line_endings :: "rstr \<Rightarrow> bool \<Rightarrow> rstr" where
  "adopt_line_endings t crlf =
     (let lf = str_replace [cr, nl] [nl] t
      in if crlf then str_replace [nl] [cr, nl] lf else lf)"

section \<open>The byte-order mark\<close>

lemma bom_valid: "valid_str bom"
  by (simp add: bom_def scalar_def)

lemma strip_bom_eq: "strip_bom t = (had, c) \<Longrightarrow> t = (if had then bom else []) @ c"
  by (auto simp: strip_bom_def strip_prefix_def prefix_def split: option.splits if_splits)

lemma strip_bom_valid: "valid_str t \<Longrightarrow> valid_str (snd (strip_bom t))"
  by (cases "strip_bom t") (auto dest!: strip_bom_eq split: if_splits)

section \<open>Line endings\<close>

text \<open>Replacing one character acts on each character alone.\<close>

lemma str_replace_char: "str_replace [p] t s = concat (map (\<lambda>c. if c = p then t else [c]) s)"
  by (induction s) auto

lemma str_replace_crlf_simps [simp]:
  "str_replace [cr, nl] t [] = []"
  "str_replace [cr, nl] t (c # s) =
     (if c = cr \<and> s \<noteq> [] \<and> hd s = nl then t @ str_replace [cr, nl] t (tl s)
      else c # str_replace [cr, nl] t s)"
  by (simp, cases s, auto)

text \<open>Every line feed of \<open>s\<close> follows a carriage return / no line feed does.\<close>

fun crlf_only :: "rchar \<Rightarrow> rstr \<Rightarrow> bool" where
  "crlf_only prev [] = True"
| "crlf_only prev (c # s) = ((c = nl \<longrightarrow> prev = cr) \<and> crlf_only c s)"

fun no_crlf :: "rchar \<Rightarrow> rstr \<Rightarrow> bool" where
  "no_crlf prev [] = True"
| "no_crlf prev (c # s) = ((c = nl \<longrightarrow> prev \<noteq> cr) \<and> no_crlf c s)"

lemma crlf_only_replace: "crlf_only prev (str_replace [nl] [cr, nl] s)"
  unfolding str_replace_char by (induction s arbitrary: prev) auto

text \<open>Turning line feeds into CRLF and back is the identity, on any text.\<close>

lemma replace_crlf_inverse: "str_replace [cr, nl] [nl] (str_replace [nl] [cr, nl] s) = s"
proof (induction s)
  case Nil
  then show ?case by simp
next
  case (Cons c s)
  have hd: "str_replace [nl] [cr, nl] s \<noteq> [] \<Longrightarrow> hd (str_replace [nl] [cr, nl] s) \<noteq> nl"
    unfolding str_replace_char by (cases s) auto
  show ?case
  proof (cases "c = nl")
    case True
    then show ?thesis using Cons by (simp add: str_replace_char)
  next
    case False
    then have "str_replace [nl] [cr, nl] (c # s) = c # str_replace [nl] [cr, nl] s"
      by (simp add: str_replace_char)
    then show ?thesis using Cons.IH hd by (cases "str_replace [nl] [cr, nl] s = []") auto
  qed
qed

lemma adopt_crlf_idem: "adopt_line_endings (adopt_line_endings t True) True = adopt_line_endings t True"
  by (simp add: adopt_line_endings_def Let_def replace_crlf_inverse)

text \<open>
  A text in which no CRLF directly follows another carriage return: there, folding CRLF to LF
  leaves no CRLF behind. (\<open>\<r>\<r>\<n>\<close> folds to \<open>\<r>\<n>\<close>.)
\<close>

fun no_crcrlf :: "rstr \<Rightarrow> bool" where
  "no_crcrlf (a # b # c # s) = (\<not> (a = cr \<and> b = cr \<and> c = nl) \<and> no_crcrlf (b # c # s))"
| "no_crcrlf _ = True"

lemma no_crcrlf_tl: "no_crcrlf (a # s) \<Longrightarrow> no_crcrlf s"
  by (cases s; cases "tl s") auto

lemma fold_crlf_no_crlf:
  assumes "no_crcrlf (prev # t)" and "prev = cr \<Longrightarrow> t \<noteq> [] \<Longrightarrow> hd t \<noteq> nl"
  shows "no_crlf prev (str_replace [cr, nl] [nl] t)"
  using assms
proof (induction "[cr, nl]" "[nl]" t arbitrary: prev rule: str_replace.induct)
  case 1
  then show ?case by simp
next
  case (2 c s)
  show ?case
  proof (cases "prefix [cr, nl] (c # s)")
    case True
    then obtain r where s: "c = cr" "s = nl # r" by (cases s) auto
    have "no_crcrlf (nl # r)" using "2.prems"(1) s no_crcrlf_tl by blast
    then have "no_crlf nl (str_replace [cr, nl] [nl] r)"
      using "2.hyps"(2) [OF _ True, of nl] s by simp
    moreover have "prev \<noteq> cr" using "2.prems"(1) s by auto
    ultimately show ?thesis using s by simp
  next
    case False
    have "no_crcrlf (c # s)" using "2.prems"(1) no_crcrlf_tl by blast
    then have "no_crlf c (str_replace [cr, nl] [nl] s)"
      using "2.hyps"(3) [OF _ False, of c] False by (cases s) auto
    moreover have "c = nl \<longrightarrow> prev \<noteq> cr" using "2.prems"(2) by auto
    ultimately show ?thesis using False by auto
  qed
qed

text \<open>Line feeds with and without a carriage return in front, counted directly.\<close>

fun crlf_pairs :: "rchar \<Rightarrow> rstr \<Rightarrow> nat" where
  "crlf_pairs prev [] = 0"
| "crlf_pairs prev (c # s) = (if c = nl \<and> prev = cr then 1 else 0) + crlf_pairs c s"

fun lone_lfs :: "rchar \<Rightarrow> rstr \<Rightarrow> nat" where
  "lone_lfs prev [] = 0"
| "lone_lfs prev (c # s) = (if c = nl \<and> prev \<noteq> cr then 1 else 0) + lone_lfs c s"

lemma count_crlf:
  assumes "prev = cr \<Longrightarrow> s \<noteq> [] \<Longrightarrow> hd s \<noteq> nl"
  shows "length (match_indices_from [cr, nl] off s) = crlf_pairs prev s"
  using assms
proof (induction "[cr, nl]" off s arbitrary: prev rule: match_indices_from.induct)
  case (1 off)
  then show ?case by simp
next
  case (2 off c s)
  show ?case
  proof (cases "prefix [cr, nl] (c # s)")
    case True
    then obtain r where s: "c = cr" "s = nl # r" by (cases s) auto
    have "length (match_indices_from [cr, nl] (off + str_len [cr, nl]) r) = crlf_pairs nl r"
      using "2.hyps"(2) [OF _ True, of nl] s by simp
    then show ?thesis using s by simp
  next
    case False
    then have "length (match_indices_from [cr, nl] (off + len_utf8 c) s) = crlf_pairs c s"
      using "2.hyps"(3) [OF _ False, of c] by (cases s) auto
    then show ?thesis using False "2.prems" by auto
  qed
qed

lemma count_lf: "length (match_indices_from [nl] off s) = crlf_pairs prev s + lone_lfs prev s"
  by (induction s arbitrary: off prev) auto

lemma is_crlf_iff: "is_crlf content \<longleftrightarrow> lone_lfs 0 content < crlf_pairs 0 content"
proof -
  have "matches_count content [cr, nl] = crlf_pairs 0 content"
    unfolding matches_count_def match_indices_def by (rule count_crlf) (simp add: cr_def)
  moreover have "matches_count content [nl] = crlf_pairs 0 content + lone_lfs 0 content"
    unfolding matches_count_def match_indices_def by (rule count_lf)
  ultimately show ?thesis by (auto simp: is_crlf_def Let_def)
qed

section \<open>Properties\<close>

text \<open>
  C28: A byte-order mark survives: taking it off the text of a file and writing it back in front of
  the contents gives the bytes of the file; the flag is set exactly when the mark was there, and
  with the flag the new contents are written behind a mark.
\<close>

theorem bom_round_trip:
  assumes "valid_str t"
  shows "restore_bom (fst (strip_bom t)) (snd (strip_bom t)) = utf8_encode t \<and>
    (fst (strip_bom t) \<longleftrightarrow> prefix bom t) \<and>
    (\<forall>c. valid_str c \<longrightarrow> utf8_decode (restore_bom (fst (strip_bom t)) c) =
       Some ((if prefix bom t then bom else []) @ c))"
proof -
  have flag: "fst (strip_bom t) \<longleftrightarrow> prefix bom t"
    by (auto simp: strip_bom_def strip_prefix_def prefix_def split: option.splits if_splits)
  have enc: "restore_bom had c = utf8_encode ((if had then bom else []) @ c)" for had c
    by (simp add: restore_bom_def utf8_encode_def)
  have "t = (if fst (strip_bom t) then bom else []) @ snd (strip_bom t)"
    by (rule strip_bom_eq) simp
  then have "restore_bom (fst (strip_bom t)) (snd (strip_bom t)) = utf8_encode t" by (simp add: enc)
  moreover have "utf8_decode (restore_bom (fst (strip_bom t)) c) =
       Some ((if prefix bom t then bom else []) @ c)" if "valid_str c" for c
    using that bom_valid unfolding enc flag by (intro utf8_decode_encode) auto
  ultimately show ?thesis using flag by simp
qed

lemma bom_round_trip_witness:
  "restore_bom (fst (strip_bom (bom @ lit ''a''))) (snd (strip_bom (bom @ lit ''a''))) = utf8_encode (bom @ lit ''a'')"
  by (rule conjunct1 [OF bom_round_trip]) (simp add: bom_valid lit_simps scalar_def)

text \<open>
  Replacement text takes over the line endings of the file: in a CRLF file every line feed of
  the adopted text follows a carriage return, in an LF file none does (unless the text has a CRLF
  right after a carriage return); nothing but line endings changes, since the adopted text folds
  to the same LF text; and adopting CRLF endings twice changes nothing.
\<close>

theorem adopt_line_endings_uniform:
  "crlf_only 0 (adopt_line_endings t True) \<and>
   (no_crcrlf t \<longrightarrow> no_crlf 0 (adopt_line_endings t False)) \<and>
   str_replace [cr, nl] [nl] (adopt_line_endings t True) = adopt_line_endings t False \<and>
   adopt_line_endings (adopt_line_endings t True) True = adopt_line_endings t True"
proof -
  have "no_crcrlf (0 # t)" if "no_crcrlf t"
    using that by (cases t; cases "tl t") (auto simp: cr_def)
  then show ?thesis
    using crlf_only_replace [of 0] replace_crlf_inverse adopt_crlf_idem fold_crlf_no_crlf [of 0 t]
    by (auto simp: adopt_line_endings_def Let_def cr_def)
qed

lemma adopt_line_endings_uniform_witness:
  "no_crlf 0 (adopt_line_endings [97, 13, 10, 98] False)"
  using adopt_line_endings_uniform [of "[97, 13, 10, 98]"] by (simp add: cr_def nl_def)

text \<open>The exception is real: an LF file can receive a CRLF.\<close>

lemma adopt_lf_leaks_crlf: "adopt_line_endings [cr, cr, nl] False = [cr, nl]"
  by (simp add: adopt_line_endings_def Let_def)

text \<open>
  The dominant style is counted correctly: a file is treated as CRLF exactly when it has more
  line feeds that follow a carriage return than line feeds that do not.
\<close>

theorem is_crlf_dominant: "is_crlf content \<longleftrightarrow> lone_lfs 0 content < crlf_pairs 0 content"
  by (rule is_crlf_iff)

end
