(* ===== verification/Tool_Types.thy ===== *)
theory Tool_Types
  imports Rust_Str
begin

text \<open>
  \<^theory_text>\<open>tools/mod.rs\<close>: the parameters and outputs of the four tools, and the note that is appended
  to shown text. Numbers that the code has as \<^theory_text>\<open>u32\<close> are words, \<^theory_text>\<open>usize\<close> numbers are natural
  numbers, an \<^theory_text>\<open>i32\<close> exit code is an integer.
\<close>

section \<open>Outputs\<close>

record bash_output =
  bo_exit_code :: int
  bo_output :: rstr
  bo_stdout :: rstr
  bo_stderr :: rstr
  bo_full_output_log :: "rstr option"
  bo_timed_out :: "bool option"

record edit_output =
  eo_success :: bool
  eo_path :: rstr
  eo_replacements :: nat
  eo_first_changed_line :: "u32 option"
  eo_diff :: rstr
  eo_patch :: rstr

record write_output =
  wo_success :: bool
  wo_path :: rstr
  wo_bytes :: nat

record read_output =
  ro_path :: rstr
  ro_content :: rstr
  ro_start_line :: "u32 option"
  ro_end_line :: "u32 option"
  ro_total_lines :: "u32 option"
  ro_image_mime_type :: "rstr option"

section \<open>Parameters\<close>

record read_params =
  rp_path :: rstr
  rp_offset :: "u32 option"
  rp_limit :: "u32 option"

record edit_entry =
  old_text :: rstr
  new_text :: rstr

record edit_params =
  ep_path :: rstr
  ep_edits :: "edit_entry list"

record write_params =
  wp_path :: rstr
  wp_content :: rstr

section \<open>Notes\<close>

definition is_line_break :: "rchar \<Rightarrow> bool" where
  "is_line_break c \<longleftrightarrow> c = nl \<or> c = cr"

definition append_note :: "rstr \<Rightarrow> rstr \<Rightarrow> rstr" where
  "append_note t note =
     (if trim t = [] then note
      else trim_end_by is_line_break t @ [nl, nl] @ note)"

lemma append_note_cases:
  obtains (blank) "list_all is_whitespace t" "append_note t note = note"
  | (nonblank) body rest where "t = body @ rest" "list_all is_line_break rest" "body \<noteq> []"
      "\<not> is_line_break (last body)" "append_note t note = body @ [nl, nl] @ note"
proof (cases "trim t = []")
  case True
  then show thesis using blank by (simp add: append_note_def trim_Nil_iff list_all_iff)
next
  case False
  let ?b = "trim_end_by is_line_break t"
  define r where "r = rev (takeWhile is_line_break (rev t))"
  have t: "t = ?b @ r"
    unfolding r_def trim_end_by_def by (metis rev_append rev_rev_ident takeWhile_dropWhile_id)
  have "list_all is_line_break r"
    by (auto simp: r_def list_all_iff dest: set_takeWhileD)
  moreover have "?b \<noteq> []"
  proof
    assume "?b = []"
    then have "\<forall>c \<in> set t. is_line_break c"
      by (simp add: trim_end_by_def dropWhile_eq_Nil_conv)
    then have "list_all is_whitespace t"
      by (auto simp: list_all_iff is_line_break_def is_whitespace_def nl_def cr_def)
    then show False using False by (simp add: trim_Nil_iff list_all_iff)
  qed
  moreover from this have "\<not> is_line_break (last ?b)"
    unfolding trim_end_by_def by (metis hd_dropWhile last_rev rev_is_Nil_conv)
  ultimately show thesis using nonblank [OF t] False by (simp add: append_note_def)
qed

text \<open>
  What a text with a note looks like, without the function: the note alone if the text is only white
  space; otherwise the text up to its last line breaks, an empty line and the note.
\<close>

definition noted :: "rstr \<Rightarrow> rstr \<Rightarrow> rstr \<Rightarrow> bool" where
  "noted t note shown \<longleftrightarrow>
     (if list_all is_whitespace t then shown = note
      else \<exists>body breaks. t = body @ breaks \<and> list_all is_line_break breaks \<and> body \<noteq> [] \<and>
             \<not> is_line_break (last body) \<and> shown = body @ [nl, nl] @ note)"

lemma append_note_noted: "noted t note (append_note t note)"
proof (cases "list_all is_whitespace t")
  case True
  then show ?thesis by (simp add: noted_def append_note_def trim_Nil_iff list_all_iff)
next
  case False
  show ?thesis
  proof (cases rule: append_note_cases [of t "note"])
    case blank
    then show ?thesis using False by simp
  next
    case (nonblank body rest)
    then show ?thesis using False unfolding noted_def by auto
  qed
qed

end
