(* ===== verification/Edit_Apply.thy ===== *)
theory Edit_Apply
  imports Normal_Segments Text_File Tool_Types "HOL-Library.Multiset"
begin

text \<open>
  The transforming half of \<^theory_text>\<open>tools/edit.rs\<close>'s \<^theory_text>\<open>run\<close>: every edit is located in the original
  contents, ranges that overlap are rejected, the replacements are applied from the tail of the
  file to its head. The specification is the simultaneous replacement \<open>splice\<close>: the stretches
  between the ranges, with the new texts in between.
\<close>

section \<open>Errors of an edit\<close>

text \<open>One constructor per early return of \<^theory_text>\<open>run\<close>'s matching, and one for a panic.\<close>

datatype edit_error =
    EditNotFound nat nat          \<comment> \<open>index of the edit, number of edits\<close>
  | EditMultiple nat nat nat      \<comment> \<open>index, number of matches, number of edits\<close>
  | EditOverlap nat nat           \<comment> \<open>lower and higher index\<close>
  | EditNoChange
  | EditPanic

type_synonym edit_match = "nat \<times> (nat \<times> nat) \<times> rstr"

section \<open>Matching all edits against the original\<close>

fun match_edits ::
  "(rchar \<Rightarrow> rstr) \<Rightarrow> rstr \<Rightarrow> bool \<Rightarrow> nat \<Rightarrow> nat \<Rightarrow> edit_entry list \<Rightarrow> edit_error + edit_match list"
where
  "match_edits nfkc content crlf n_edits index [] = Inr []"
| "match_edits nfkc content crlf n_edits index (entry # edits) =
     (case find_unique_range nfkc content (old_text entry) of
        None \<Rightarrow> Inl EditPanic
      | Some (Inl NotFound) \<Rightarrow> Inl (EditNotFound index n_edits)
      | Some (Inl (Multiple n)) \<Rightarrow> Inl (EditMultiple index n n_edits)
      | Some (Inr rng) \<Rightarrow>
          (case match_edits nfkc content crlf n_edits (index + 1) edits of
             Inl e \<Rightarrow> Inl e
           | Inr ms \<Rightarrow> Inr ((index, rng, adopt_line_endings (new_text entry) crlf) # ms)))"

section \<open>Overlap detection\<close>

text \<open>The loop over \<^theory_text>\<open>sorted.windows(2)\<close>.\<close>

fun first_overlap :: "(nat \<times> (nat \<times> nat)) list \<Rightarrow> (nat \<times> nat) option" where
  "first_overlap (a # b # rest) =
     (if fst (snd b) < snd (snd a) then Some (min (fst a) (fst b), max (fst a) (fst b))
      else first_overlap (b # rest))"
| "first_overlap _ = None"

definition find_overlap :: "edit_match list \<Rightarrow> (nat \<times> nat) option" where
  "find_overlap ms =
     (if length ms > 1
      then first_overlap (sort_key (\<lambda>p. fst (snd p)) (map (\<lambda>m. (fst m, fst (snd m))) ms))
      else None)"

section \<open>Applying the replacements\<close>

fun apply_all :: "edit_match list \<Rightarrow> rstr \<Rightarrow> rstr option" where
  "apply_all [] final = Some final"
| "apply_all (m # ms) final =
     (case replace_range final (fst (snd m)) (snd (snd m)) of
        None \<Rightarrow> None
      | Some final' \<Rightarrow> apply_all ms final')"

text \<open>\<^theory_text>\<open>sort_by_key(Reverse(start))\<close>: a stable sort by descending start.\<close>

definition by_start_desc :: "edit_match list \<Rightarrow> edit_match list" where
  "by_start_desc ms = sort_key (\<lambda>m. - int (fst (fst (snd m)))) ms"

definition edit_content ::
  "(rchar \<Rightarrow> rstr) \<Rightarrow> rstr \<Rightarrow> edit_entry list \<Rightarrow> edit_error + rstr" where
  "edit_content nfkc content edits =
     (case match_edits nfkc content (is_crlf content) (length edits) 0 edits of
        Inl e \<Rightarrow> Inl e
      | Inr ms \<Rightarrow>
          (case find_overlap ms of
             Some (low, high) \<Rightarrow> Inl (EditOverlap low high)
           | None \<Rightarrow>
               (case apply_all (by_start_desc ms) content of
                  None \<Rightarrow> Inl EditPanic
                | Some final \<Rightarrow>
                    if final = content then Inl EditNoChange else Inr final)))"

section \<open>Error messages\<close>

definition not_found_message :: "nat \<Rightarrow> rstr \<Rightarrow> nat \<Rightarrow> rstr" where
  "not_found_message index path n_edits =
     (if n_edits = 1 then
        lit ''Could not find the text in '' @ path @ lit ''.'' @ [nl] @
        lit ''The oldText must identify the intended text in the file.''
      else
        lit ''Could not find edits['' @ dec index @ lit ''] in '' @ path @ lit ''.'' @ [nl] @
        lit ''Provide a larger unique oldText block from the current file contents.'')"

definition multiple_match_message :: "nat \<Rightarrow> nat \<Rightarrow> rstr \<Rightarrow> nat \<Rightarrow> rstr" where
  "multiple_match_message index found path n_edits =
     (let subject = (if n_edits = 1 then lit ''the text''
                     else lit ''edits['' @ dec index @ lit '']'')
      in lit ''Found '' @ dec found @ lit '' occurrences of '' @ subject @ lit '' in '' @ path @
         lit ''.'' @ [nl] @
         lit ''Each oldText must be unique. Please provide more context to make it unique.'')"

section \<open>Ranges in characters\<close>

text \<open>The range of a match lies on character boundaries of the contents and is not empty.\<close>

definition char_range :: "rstr \<Rightarrow> edit_match \<Rightarrow> nat \<Rightarrow> nat \<Rightarrow> bool" where
  "char_range content m i j \<longleftrightarrow> i < j \<and> j \<le> length content \<and>
     fst (snd m) = (str_len (take i content), str_len (take j content))"

abbreviation start_of :: "edit_match \<Rightarrow> nat" where
  "start_of m \<equiv> fst (fst (snd m))"

abbreviation end_of :: "edit_match \<Rightarrow> nat" where
  "end_of m \<equiv> snd (fst (snd m))"

definition on_boundaries :: "rstr \<Rightarrow> edit_match list \<Rightarrow> bool" where
  "on_boundaries content ms \<longleftrightarrow> (\<forall>m \<in> set ms. \<exists>i j. char_range content m i j)"

fun disjoint_from :: "rstr \<Rightarrow> nat \<Rightarrow> edit_match list \<Rightarrow> bool" where
  "disjoint_from content p [] = (p \<le> length content)"
| "disjoint_from content p (m # ms) =
     (\<exists>i j. p \<le> i \<and> char_range content m i j \<and> disjoint_from content j ms)"

lemma char_rangeD:
  assumes "char_range content m i j"
  shows "i < j" "j \<le> length content" "start_of m = str_len (take i content)"
    "end_of m = str_len (take j content)" "start_of m < end_of m"
  using assms str_len_take_strict_mono [of i j content] by (simp_all add: char_range_def)

section \<open>Replacing from the tail is a simultaneous replacement\<close>

text \<open>A piece is a match with the untouched stretch before it and the text it replaces.\<close>

type_synonym piece = "edit_match \<times> rstr \<times> rstr"

abbreviation before_pieces :: "piece list \<Rightarrow> rstr" where
  "before_pieces ps \<equiv> concat (map (\<lambda>(m, gap, mid). gap @ mid) ps)"

abbreviation after_pieces :: "piece list \<Rightarrow> rstr" where
  "after_pieces ps \<equiv> concat (map (\<lambda>(m, gap, mid). gap @ snd (snd m)) ps)"

definition piece_of :: "rstr \<Rightarrow> piece \<Rightarrow> bool" where
  "piece_of content p \<longleftrightarrow> (\<exists>i j. char_range content (fst p) i j \<and>
     snd (snd p) = take (j - i) (drop i content))"

lemma apply_all_append:
  "apply_all (xs @ ys) s = (case apply_all xs s of None \<Rightarrow> None | Some t \<Rightarrow> apply_all ys t)"
  by (induction xs arbitrary: s) (auto split: option.splits)

lemma apply_all_pieces:
  assumes "disjoint_from content p L"
  shows "\<exists>ps tail. map fst ps = L \<and> drop p content = before_pieces ps @ tail \<and>
    apply_all (rev L) content = Some (take p content @ after_pieces ps @ tail) \<and>
    (\<forall>q \<in> set ps. piece_of content q)"
  using assms
proof (induction L arbitrary: p)
  case Nil
  then show ?case by (intro exI [of _ "[]"] exI [of _ "drop p content"]) simp
next
  case (Cons m L)
  then obtain i j where ij: "p \<le> i" "char_range content m i j" "disjoint_from content j L" by auto
  from Cons.IH [OF ij(3)] obtain ps tail where IH: "map fst ps = L"
      "drop j content = before_pieces ps @ tail"
      "apply_all (rev L) content = Some (take j content @ after_pieces ps @ tail)"
      "\<forall>q \<in> set ps. piece_of content q"
    by blast
  let ?f = "take j content @ after_pieces ps @ tail"
  have tk: "take i ?f = take i content" "take j ?f = take j content" "drop j ?f = after_pieces ps @ tail"
    using char_rangeD(1,2) [OF ij(2)] by (simp_all add: take_append)
  have "replace_range ?f (fst (snd m)) (snd (snd m)) = Some (take i content @ snd (snd m) @ after_pieces ps @ tail)"
    using replace_range_chars [of i j ?f "snd (snd m)"] char_rangeD(1,2) [OF ij(2)] ij(2)
    unfolding tk by (simp add: char_range_def)
  then have app: "apply_all (rev (m # L)) content
      = Some (take i content @ snd (snd m) @ after_pieces ps @ tail)"
    by (simp add: apply_all_append IH(3))
  define gap mid where "gap = take (i - p) (drop p content)" and "mid = take (j - i) (drop i content)"
  have ti: "take i content = take p content @ gap"
    unfolding gap_def using ij(1) by (metis le_add_diff_inverse take_add)
  have "drop p content = gap @ drop i content"
    unfolding gap_def using ij(1) by (metis append_take_drop_id drop_drop le_add_diff_inverse2)
  moreover have "drop i content = mid @ drop j content"
    unfolding mid_def using char_rangeD(1) [OF ij(2)]
    by (metis append_take_drop_id drop_drop le_add_diff_inverse2 less_imp_le)
  ultimately have dp: "drop p content = gap @ mid @ before_pieces ps @ tail" using IH(2) by simp
  have "piece_of content (m, gap, mid)" using ij(2) by (auto simp: piece_of_def mid_def)
  then show ?case using IH(1,4) app dp ti
    by (intro exI [of _ "(m, gap, mid) # ps"] exI [of _ tail]) simp
qed

section \<open>No overlap: the sorted matches are disjoint\<close>

lemma insort_key_map: "insort_key f (h x) (map h xs) = map h (insort_key (\<lambda>y. f (h y)) x xs)"
  by (induction xs) auto

lemma sort_key_map: "sort_key f (map h xs) = map h (sort_key (\<lambda>y. f (h y)) xs)"
  by (induction xs) (simp_all add: insort_key_map)

lemma first_overlap_None_disjoint:
  assumes "first_overlap (map (\<lambda>m. (fst m, fst (snd m))) L) = None"
    and "on_boundaries content L" and "p \<le> length content"
    and "L \<noteq> [] \<Longrightarrow> str_len (take p content) \<le> start_of (hd L)"
  shows "disjoint_from content p L"
  using assms
proof (induction L arbitrary: p)
  case Nil
  then show ?case by simp
next
  case (Cons m L)
  then obtain i j where ij: "char_range content m i j" by (auto simp: on_boundaries_def)
  note r = char_rangeD [OF ij]
  have "p \<le> i" using Cons.prems(3,4) r str_len_take_le_iff [of p content i] by simp
  moreover have "disjoint_from content j L"
  proof (rule Cons.IH)
    show "first_overlap (map (\<lambda>m. (fst m, fst (snd m))) L) = None"
      using Cons.prems(1) by (cases L) (auto split: if_splits)
    show "on_boundaries content L" using Cons.prems(2) by (simp add: on_boundaries_def)
    show "j \<le> length content" using r by simp
    show "str_len (take j content) \<le> start_of (hd L)" if "L \<noteq> []"
      using that Cons.prems(1) r(4) by (cases L) (auto split: if_splits)
  qed
  ultimately show ?case using ij by auto
qed

lemma disjoint_from_starts:
  assumes "disjoint_from content p L"
  shows "sorted (map start_of L) \<and> distinct (map start_of L)
    \<and> (\<forall>m \<in> set L. str_len (take p content) \<le> start_of m)"
  using assms
proof (induction L arbitrary: p)
  case Nil
  then show ?case by simp
next
  case (Cons m L)
  then obtain i j where ij: "p \<le> i" "char_range content m i j" "disjoint_from content j L" by auto
  have pi: "str_len (take p content) \<le> str_len (take i content)"
    using ij(1) by (rule str_len_take_mono)
  have rest: "\<forall>x \<in> set L. start_of m < start_of x"
    using Cons.IH [OF ij(3)] char_rangeD [OF ij(2)] by fastforce
  then have "start_of m \<notin> start_of ` set L" by fastforce
  then show ?case using Cons.IH [OF ij(3)] rest pi char_rangeD(3) [OF ij(2)]
    by (auto intro: less_imp_le order.trans)
qed

lemma by_start_desc_eq:
  assumes "sorted (map start_of L)" and "distinct (map start_of L)" and "mset ms = mset L"
  shows "by_start_desc ms = rev L"
  unfolding by_start_desc_def
proof (rule sort_key_inj_key_eq)
  show "mset ms = mset (rev L)" using assms(3) by simp
  have "inj_on start_of (set ms)" using assms(2,3) by (metis distinct_map mset_eq_setD)
  then show "inj_on (\<lambda>m. - int (start_of m)) (set ms)" by (simp add: inj_on_def)
  show "sorted (map (\<lambda>m. - int (start_of m)) (rev L))"
    using assms(1) by (auto simp: sorted_wrt_rev sorted_wrt_map rev_map elim: sorted_wrt_mono_rel [rotated])
qed

lemma find_overlap_None:
  assumes "find_overlap ms = None" and "on_boundaries content ms"
  shows "disjoint_from content 0 (sort_key start_of ms)"
proof (rule first_overlap_None_disjoint)
  show "first_overlap (map (\<lambda>m. (fst m, fst (snd m))) (sort_key start_of ms)) = None"
  proof (cases "length ms > 1")
    case True
    then show ?thesis using assms(1) by (simp add: find_overlap_def sort_key_map)
  next
    case False
    then have "ms = [] \<or> (\<exists>m. ms = [m])" by (cases ms) auto
    then show ?thesis by auto
  qed
  show "on_boundaries content (sort_key start_of ms)" using assms(2) by (simp add: on_boundaries_def)
qed simp_all

text \<open>The edits that pass the overlap check are applied without a panic.\<close>

lemma apply_sorted:
  assumes "find_overlap ms = None" and "on_boundaries content ms"
  obtains ps tail where "map fst ps = sort_key start_of ms" "content = before_pieces ps @ tail"
    "apply_all (by_start_desc ms) content = Some (after_pieces ps @ tail)"
    "\<forall>q \<in> set ps. piece_of content q"
proof -
  let ?L = "sort_key start_of ms"
  have d: "disjoint_from content 0 ?L" by (rule find_overlap_None [OF assms])
  have "by_start_desc ms = rev ?L"
    using disjoint_from_starts [OF d] by (intro by_start_desc_eq) simp_all
  then show thesis using apply_all_pieces [OF d] that by auto
qed

section \<open>Matching all edits\<close>

lemma match_edits_Inr:
  assumes "match_edits nfkc content crlf n k edits = Inr ms"
  shows "map fst ms = [k..<k + length edits] \<and>
    list_all2 (\<lambda>e m. find_unique_range nfkc content (old_text e) = Some (Inr (fst (snd m)))
       \<and> snd (snd m) = adopt_line_endings (new_text e) crlf) edits ms"
  using assms
proof (induction edits arbitrary: k ms)
  case Nil
  then show ?case by simp
next
  case (Cons e edits)
  then obtain rng ms' where m: "find_unique_range nfkc content (old_text e) = Some (Inr rng)"
      "match_edits nfkc content crlf n (k + 1) edits = Inr ms'"
      "ms = (k, rng, adopt_line_endings (new_text e) crlf) # ms'"
    by (auto split: option.splits sum.splits match_error.splits)
  then show ?case using Cons.IH [OF m(2)] by (simp add: upt_conv_Cons del: upt_Suc)
qed

lemma match_edits_intro:
  assumes "\<forall>e \<in> set edits. \<exists>rng. find_unique_range nfkc content (old_text e) = Some (Inr rng)"
  shows "\<exists>ms. match_edits nfkc content crlf n k edits = Inr ms"
  using assms
proof (induction edits arbitrary: k)
  case (Cons e edits)
  then obtain ms where "match_edits nfkc content crlf n (k + 1) edits = Inr ms" by fastforce
  then show ?case using Cons.prems by auto
qed simp

lemma match_edits_no_panic:
  assumes "\<forall>e \<in> set edits. old_text e \<noteq> []"
  shows "match_edits nfkc content crlf n k edits \<noteq> Inl EditPanic"
  using assms
proof (induction edits arbitrary: k)
  case (Cons e edits)
  obtain r where "find_unique_range nfkc content (old_text e) = Some r"
    using Cons.prems find_unique_range_total [of "old_text e" nfkc content] by auto
  then show ?case using Cons.IH [of "k + 1"] Cons.prems
    by (cases r) (auto split: match_error.splits sum.splits)
qed simp

text \<open>The error a failed search is reported with.\<close>

fun failure_of :: "nat \<Rightarrow> nat \<Rightarrow> (match_error + nat \<times> nat) option \<Rightarrow> edit_error option" where
  "failure_of index n None = Some EditPanic"
| "failure_of index n (Some (Inl NotFound)) = Some (EditNotFound index n)"
| "failure_of index n (Some (Inl (Multiple c))) = Some (EditMultiple index c n)"
| "failure_of index n (Some (Inr rng)) = None"

lemma failure_of_None: "failure_of index n r = None \<longleftrightarrow> (\<exists>rng. r = Some (Inr rng))"
  by (cases "(index, n, r)" rule: failure_of.cases) auto

lemma match_edits_Cons:
  "match_edits nfkc content crlf n k (e # edits) =
     (case failure_of k n (find_unique_range nfkc content (old_text e)) of
        Some err \<Rightarrow> Inl err
      | None \<Rightarrow> (case match_edits nfkc content crlf n (Suc k) edits of
          Inl err \<Rightarrow> Inl err
        | Inr ms \<Rightarrow> Inr ((k, projr (the (find_unique_range nfkc content (old_text e))),
            adopt_line_endings (new_text e) crlf) # ms)))"
  by (cases "(k, n, find_unique_range nfkc content (old_text e))" rule: failure_of.cases)
    (auto split: sum.splits)

lemma match_edits_Inl:
  assumes "match_edits nfkc content crlf n k edits = Inl err"
  shows "\<exists>j < length edits.
    (\<forall>i < j. failure_of (k + i) n (find_unique_range nfkc content (old_text (edits ! i))) = None) \<and>
    failure_of (k + j) n (find_unique_range nfkc content (old_text (edits ! j))) = Some err"
  using assms
proof (induction edits arbitrary: k)
  case Nil
  then show ?case by simp
next
  case (Cons e edits)
  show ?case
  proof (cases "failure_of k n (find_unique_range nfkc content (old_text e))")
    case None
    then have "match_edits nfkc content crlf n (Suc k) edits = Inl err"
      using Cons.prems by (simp add: match_edits_Cons del: match_edits.simps split: sum.splits)
    from Cons.IH [OF this] obtain j where "j < length edits"
      "\<forall>i < j. failure_of (Suc k + i) n (find_unique_range nfkc content (old_text (edits ! i))) = None"
      "failure_of (Suc k + j) n (find_unique_range nfkc content (old_text (edits ! j))) = Some err"
      by blast
    then show ?thesis using None
      by (intro exI [of _ "Suc j"]) (auto simp: nth_Cons' less_Suc_eq_0_disj)
  next
    case (Some err')
    then show ?thesis using Cons.prems
      by (intro exI [of _ 0]) (simp add: match_edits_Cons del: match_edits.simps)
  qed
qed

lemma match_edits_on_boundaries:
  assumes "match_edits nfkc content crlf n k edits = Inr ms" and "\<forall>e \<in> set edits. old_text e \<noteq> []"
  shows "on_boundaries content ms"
  unfolding on_boundaries_def
proof
  fix m
  assume "m \<in> set ms"
  then obtain i where i: "i < length ms" "m = ms ! i" by (auto simp: in_set_conv_nth)
  have "list_all2 (\<lambda>e m. find_unique_range nfkc content (old_text e) = Some (Inr (fst (snd m)))
       \<and> snd (snd m) = adopt_line_endings (new_text e) crlf) edits ms"
    using match_edits_Inr [OF assms(1)] by simp
  then have "find_unique_range nfkc content (old_text (edits ! i)) = Some (Inr (fst (snd m)))"
    and "edits ! i \<in> set edits"
    using i by (simp_all add: list_all2_conv_all_nth)
  then obtain e where e: "e \<in> set edits"
      "find_unique_range nfkc content (old_text e) = Some (Inr (start_of m, end_of m))"
    by (metis prod.collapse)
  then obtain i j where "i < j" "j \<le> length content" "start_of m = str_len (take i content)"
      "end_of m = str_len (take j content)"
    using find_unique_range_sound assms(2) by metis
  then show "\<exists>i j. char_range content m i j"
    unfolding char_range_def by (metis prod.collapse)
qed

section \<open>Order of the edits\<close>

lemma first_overlap_None_cong:
  assumes "map snd a = map snd b"
  shows "first_overlap a = None \<longleftrightarrow> first_overlap b = None"
  using assms
proof (induction a arbitrary: b rule: first_overlap.induct)
  case (1 x y rest)
  then obtain x' y' rest' where b: "b = x' # y' # rest'"
    by (cases b; cases "tl b") auto
  have "map snd (y # rest) = map snd (y' # rest')" using 1(2) b by simp
  then show ?case using 1 b by auto
qed (auto simp: Cons_eq_map_conv)

lemma apply_all_cong:
  assumes "map snd a = map snd b"
  shows "apply_all a s = apply_all b s"
  using assms
proof (induction a arbitrary: b s)
  case (Cons x a)
  then show ?case by (cases b) (auto split: option.splits)
qed simp

lemma sort_key_perm:
  assumes "mset (map snd ms) = mset (map snd ms')" and "distinct (map start_of (sort_key start_of ms))"
  shows "map snd (sort_key start_of ms') = map snd (sort_key start_of ms)"
proof -
  let ?g = "\<lambda>p :: (nat \<times> nat) \<times> rstr. fst (fst p)"
  have inj: "inj_on start_of (set ms)" using assms(2) by (simp add: distinct_map)
  have "set (map snd ms) = set (map snd ms')" using assms(1) by (rule mset_eq_setD)
  moreover have "inj_on ?g (snd ` set ms)"
    by (rule inj_on_imageI) (use inj in \<open>simp add: comp_def\<close>)
  ultimately have inj': "inj_on ?g (set (map snd ms'))" by simp
  have "sort_key ?g (map snd ms') = sort_key ?g (map snd ms)"
    by (rule sort_key_inj_key_eq [OF _ inj']) (use assms(1) in simp_all)
  then show ?thesis by (simp add: sort_key_map)
qed

lemma find_overlap_eq_first:
  "find_overlap ms = None \<longleftrightarrow>
   first_overlap (map (\<lambda>m. (fst m, fst (snd m))) (sort_key start_of ms)) = None"
proof (cases "length ms > 1")
  case True
  then show ?thesis by (simp add: find_overlap_def sort_key_map)
next
  case False
  then have "ms = [] \<or> (\<exists>m. ms = [m])" by (cases ms) auto
  then show ?thesis by (auto simp: find_overlap_def)
qed

lemma edits_perm:
  assumes "find_overlap ms = None" and "on_boundaries content ms"
    and "mset (map snd ms) = mset (map snd ms')"
  shows "find_overlap ms' = None \<and>
    apply_all (by_start_desc ms') content = apply_all (by_start_desc ms) content"
proof -
  let ?L = "sort_key start_of ms" and ?L' = "sort_key start_of ms'"
  have s: "sorted (map start_of ?L)" "distinct (map start_of ?L)"
    using disjoint_from_starts [OF find_overlap_None [OF assms(1,2)]] by simp_all
  have eq: "map snd ?L' = map snd ?L" by (rule sort_key_perm [OF assms(3) s(2)])
  have "map (fst \<circ> snd) ?L' = map (fst \<circ> snd) ?L" using eq by (metis map_map)
  then have "map snd (map (\<lambda>m. (fst m, fst (snd m))) ?L') = map snd (map (\<lambda>m. (fst m, fst (snd m))) ?L)"
    by (simp add: comp_def)
  then have "find_overlap ms' = None"
    using assms(1) first_overlap_None_cong unfolding find_overlap_eq_first by blast
  moreover have "map start_of ?L' = map start_of ?L"
    using arg_cong [OF eq, of "map (\<lambda>p. fst (fst p))"] by (simp add: comp_def)
  then have "distinct (map start_of ?L')" using s(2) by simp
  then have "by_start_desc ms' = rev ?L'" "by_start_desc ms = rev ?L"
    using s by (simp_all add: by_start_desc_eq)
  ultimately show ?thesis using eq by (simp add: apply_all_cong [of "rev ?L'" "rev ?L"] rev_map [symmetric])
qed

lemma first_overlap_Some:
  assumes "first_overlap (map (\<lambda>m. (fst m, fst (snd m))) L) = Some (low, high)"
    and "sorted (map start_of L)" and "distinct (map fst L)"
  shows "\<exists>a \<in> set L. \<exists>b \<in> set L. fst a \<noteq> fst b \<and> start_of a \<le> start_of b \<and> start_of b < end_of a
    \<and> low = min (fst a) (fst b) \<and> high = max (fst a) (fst b)"
  using assms
proof (induction L rule: induct_list012)
  case (3 x y zs)
  show ?case
  proof (cases "start_of y < end_of x")
    case True
    then show ?thesis using 3(3-5) by (intro bexI [of _ x] bexI [of _ y]) auto
  next
    case False
    then have "first_overlap (map (\<lambda>m. (fst m, fst (snd m))) (y # zs)) = Some (low, high)"
      using 3(3) by simp
    moreover have "sorted (map start_of (y # zs))" "distinct (map fst (y # zs))" using 3(4,5) by simp_all
    ultimately have "\<exists>a \<in> set (y # zs). \<exists>b \<in> set (y # zs). fst a \<noteq> fst b \<and> start_of a \<le> start_of b
      \<and> start_of b < end_of a \<and> low = min (fst a) (fst b) \<and> high = max (fst a) (fst b)"
      by (rule 3(2))
    then show ?thesis by (meson list.set_intros(2))
  qed
qed auto

lemma find_overlap_Some:
  assumes "find_overlap ms = Some (low, high)" and "distinct (map fst ms)"
  shows "\<exists>a \<in> set ms. \<exists>b \<in> set ms. fst a \<noteq> fst b \<and> start_of a \<le> start_of b \<and> start_of b < end_of a
    \<and> low = min (fst a) (fst b) \<and> high = max (fst a) (fst b)"
proof -
  let ?L = "sort_key start_of ms"
  have "mset (map fst ?L) = mset (map fst ms)" by simp
  then have "distinct (map fst ?L)" using assms(2) by (metis mset_eq_imp_distinct_iff)
  moreover have "first_overlap (map (\<lambda>m. (fst m, fst (snd m))) ?L) = Some (low, high)"
    using assms(1) by (simp add: find_overlap_def sort_key_map split: if_splits)
  ultimately show ?thesis using first_overlap_Some [of ?L low high] by simp
qed

section \<open>What a successful edit does\<close>

lemma edit_content_Inr:
  assumes "edit_content nfkc content edits = Inr final"
  obtains ms where "match_edits nfkc content (is_crlf content) (length edits) 0 edits = Inr ms"
    "find_overlap ms = None" "apply_all (by_start_desc ms) content = Some final" "final \<noteq> content"
  using assms by (auto simp: edit_content_def split: sum.splits option.splits if_splits)

lemma match_edits_nth:
  assumes "match_edits nfkc content crlf n 0 edits = Inr ms" and "m \<in> set ms"
  shows "fst m < length edits
    \<and> find_unique_range nfkc content (old_text (edits ! fst m)) = Some (Inr (fst (snd m)))
    \<and> snd (snd m) = adopt_line_endings (new_text (edits ! fst m)) crlf"
proof -
  note M = match_edits_Inr [OF assms(1)]
  obtain i where i: "i < length ms" "m = ms ! i" using assms(2) by (auto simp: in_set_conv_nth)
  have len: "length ms = length edits" using M by (auto dest: list_all2_lengthD)
  have "fst m = map fst ms ! i" using i by simp
  also have "\<dots> = i" using M i(1) len by simp
  finally show ?thesis using M i len by (simp add: list_all2_conv_all_nth)
qed

lemma find_unique_range_selects:
  assumes "old \<noteq> []" and "find_unique_range nfkc content old = Some (Inr (fst (snd m)))"
    and "char_range content m i j"
  shows "selects nfkc content old (take (j - i) (drop i content))"
proof -
  from char_rangeD [OF assms(3)] obtain i' j' where r: "i' < j'" "j' \<le> length content"
      "start_of m = str_len (take i' content)" "end_of m = str_len (take j' content)"
      "selects nfkc content old (take (j' - i') (drop i' content))"
    using find_unique_range_sound [OF assms(1), of nfkc content "start_of m" "end_of m"] assms(2)
    unfolding prod.collapse by blast
  have "i' = i" "j' = j"
    using r(1-4) char_rangeD [OF assms(3)] str_len_take_inj [of i' content i] str_len_take_inj [of j' content j]
    by simp_all
  then show ?thesis using r(5) by simp
qed

text \<open>The pieces of a successful call: what replaces each of them and what selects it.\<close>

lemma piece_match:
  assumes "match_edits nfkc content crlf (length edits) 0 edits = Inr ms"
    and "map fst ps = sort_key start_of ms" and "(m, gap, mid) \<in> set ps"
  shows "m \<in> set ms"
proof -
  have "fst (m, gap, mid) \<in> set (map fst ps)" using assms(3) by (metis image_eqI list.set_map)
  then show ?thesis unfolding assms(2) by simp
qed

lemma piece_replacement:
  assumes "match_edits nfkc content crlf (length edits) 0 edits = Inr ms"
    and "map fst ps = sort_key start_of ms"
  shows "map (\<lambda>(m, gap, mid). gap @ snd (snd m)) ps = map (\<lambda>(k, gap, mid).
    gap @ adopt_line_endings (new_text (edits ! k)) crlf) (map (\<lambda>(m, gap, mid). (fst m, gap, mid)) ps)"
  unfolding map_map
proof (rule map_cong [OF refl])
  fix q
  assume q: "q \<in> set ps"
  obtain m gap mid where [simp]: "q = (m, gap, mid)" by (cases q) auto
  show "(\<lambda>(m, gap, mid). gap @ snd (snd m)) q = ((\<lambda>(k, gap, mid).
      gap @ adopt_line_endings (new_text (edits ! k)) crlf) \<circ> (\<lambda>(m, gap, mid). (fst m, gap, mid))) q"
    using q match_edits_nth [OF assms(1) piece_match [OF assms, of m gap mid]] by simp
qed

lemma piece_selected:
  assumes "match_edits nfkc content crlf (length edits) 0 edits = Inr ms"
    and "map fst ps = sort_key start_of ms" and "\<forall>e \<in> set edits. old_text e \<noteq> []"
    and "(m, gap, mid) \<in> set ps" and "piece_of content (m, gap, mid)"
  shows "selects nfkc content (old_text (edits ! fst m)) mid"
proof -
  obtain k rng new where m: "m = (k, rng, new)" by (cases m) auto
  have nth: "k < length edits" "find_unique_range nfkc content (old_text (edits ! k)) = Some (Inr rng)"
    using match_edits_nth [OF assms(1) piece_match [OF assms(1,2,4)]] m by simp_all
  obtain i j where "char_range content (k, rng, new) i j" "mid = take (j - i) (drop i content)"
    using assms(5) m unfolding piece_of_def by fastforce
  then show ?thesis
    using nth find_unique_range_selects [of "old_text (edits ! k)" nfkc content "(k, rng, new)"] assms(3) m
    by simp
qed

text \<open>
  C1: All edits are matched against the original contents and applied simultaneously. When the
  transforming part of \<^theory_text>\<open>edit\<close> succeeds, the contents are an alternation of untouched gaps and
  replaced stretches, one stretch for each edit; the result has the same gaps with each stretch
  replaced by the new text of its edit (in the file's line endings). Each stretch is what its edit
  selects: the only exact occurrence of the old text or, when there is no exact occurrence, a stretch
  for the only occurrence of its normalised form in the normalised contents, which is equal to it up
  to the normalisation as long as NFKC expands no character of either to several. The result differs
  from the original.
\<close>

theorem edit_content_simultaneous:
  assumes "\<forall>e \<in> set edits. old_text e \<noteq> []" and "edit_content nfkc content edits = Inr final"
  shows "final \<noteq> content \<and> (\<exists>ps tail.
    content = concat (map (\<lambda>(k, gap, mid). gap @ mid) ps) @ tail \<and>
    final = concat (map (\<lambda>(k, gap, mid).
              gap @ adopt_line_endings (new_text (edits ! k)) (is_crlf content)) ps) @ tail \<and>
    mset (map fst ps) = mset [0..<length edits] \<and>
    (\<forall>(k, gap, mid) \<in> set ps. selects nfkc content (old_text (edits ! k)) mid))"
proof -
  obtain ms where ms: "match_edits nfkc content (is_crlf content) (length edits) 0 edits = Inr ms"
    "find_overlap ms = None" "apply_all (by_start_desc ms) content = Some final" "final \<noteq> content"
    by (rule edit_content_Inr [OF assms(2)])
  obtain ps tail where ps: "map fst ps = sort_key start_of ms" "content = before_pieces ps @ tail"
      "apply_all (by_start_desc ms) content = Some (after_pieces ps @ tail)"
      "\<forall>q \<in> set ps. piece_of content q"
    by (rule apply_sorted [OF ms(2) match_edits_on_boundaries [OF ms(1) assms(1)]])
  let ?qs = "map (\<lambda>(m, gap, mid). (fst m, gap, mid)) ps"
  have "content = concat (map (\<lambda>(k, gap, mid). gap @ mid) ?qs) @ tail"
    using ps(2) by (simp add: comp_def case_prod_unfold)
  moreover have "final = after_pieces ps @ tail" using ms(3) ps(3) by simp
  then have "final = concat (map (\<lambda>(k, gap, mid).
              gap @ adopt_line_endings (new_text (edits ! k)) (is_crlf content)) ?qs) @ tail"
    unfolding piece_replacement [OF ms(1) ps(1)] .
  moreover have "map fst ?qs = map fst (map fst ps)" by (simp add: comp_def case_prod_beta)
  then have "mset (map fst ?qs) = image_mset fst (mset ms)" unfolding ps(1) by simp
  then have "mset (map fst ?qs) = mset [0..<length edits]"
    using match_edits_Inr [OF ms(1)] by (metis add_0 mset_map)
  moreover have "\<forall>(k, gap, mid) \<in> set ?qs. selects nfkc content (old_text (edits ! k)) mid"
    using piece_selected [OF ms(1) ps(1) assms(1)] ps(4) by fastforce
  ultimately show ?thesis using ms(4) by blast
qed

lemma edit_content_simultaneous_witness:
  "lit ''Q X2 Z'' \<noteq> lit ''X1 X2'' \<and> (\<exists>ps tail.
    lit ''X1 X2'' = concat (map (\<lambda>(k, gap, mid). gap @ mid) ps) @ tail \<and>
    lit ''Q X2 Z'' = concat (map (\<lambda>(k, gap, mid).
              gap @ adopt_line_endings (new_text
                ([\<lparr>old_text = lit ''X1'', new_text = lit ''Q X2''\<rparr>,
                  \<lparr>old_text = lit ''X2'', new_text = lit ''Z''\<rparr>] ! k)) (is_crlf (lit ''X1 X2''))) ps) @ tail \<and>
    mset (map fst ps) = mset [0..<length ([\<lparr>old_text = lit ''X1'', new_text = lit ''Q X2''\<rparr>,
                  \<lparr>old_text = lit ''X2'', new_text = lit ''Z''\<rparr>])] \<and>
    (\<forall>(k, gap, mid) \<in> set ps. selects (\<lambda>c. [c]) (lit ''X1 X2'') (old_text
                ([\<lparr>old_text = lit ''X1'', new_text = lit ''Q X2''\<rparr>,
                  \<lparr>old_text = lit ''X2'', new_text = lit ''Z''\<rparr>] ! k)) mid))"
  by (rule edit_content_simultaneous; code_simp)

lemma edit_content_not_panic:
  assumes "\<forall>e \<in> set edits. old_text e \<noteq> []"
  shows "edit_content nfkc content edits \<noteq> Inl EditPanic"
proof (cases "match_edits nfkc content (is_crlf content) (length edits) 0 edits")
  case (Inl err)
  then show ?thesis using match_edits_no_panic [OF assms, of nfkc content] by (auto simp: edit_content_def)
next
  case (Inr ms)
  show ?thesis
  proof (cases "find_overlap ms")
    case None
    obtain ps tail where "apply_all (by_start_desc ms) content = Some (after_pieces ps @ tail)"
      by (rule apply_sorted [OF None match_edits_on_boundaries [OF Inr assms]])
    then show ?thesis using Inr None by (simp add: edit_content_def)
  qed (use Inr in \<open>auto simp: edit_content_def\<close>)
qed

text \<open>
  An edit never panics. Every range that is found lies on character boundaries, and replacing
  from the tail of the file to its head keeps the remaining ranges valid, so neither the slicing of
  the search nor \<^theory_text>\<open>String::replace_range\<close> can fail, whatever the contents, the edits and the
  NFKC tables are.
\<close>

theorem edit_content_no_panic:
  assumes "\<forall>e \<in> set edits. old_text e \<noteq> []"
  shows "edit_content nfkc content edits \<noteq> Inl EditPanic"
  by (rule edit_content_not_panic [OF assms])

lemma edit_content_no_panic_witness:
  "edit_content (\<lambda>c. [c, c]) (lit ''ab'') [\<lparr>old_text = lit ''bb'', new_text = lit ''c''\<rparr>] \<noteq> Inl EditPanic"
  by (rule edit_content_no_panic) code_simp

text \<open>
  C19: The order in which the edits are listed does not matter: a permutation of the edits of a
  successful call succeeds with the same result.
\<close>

theorem edit_content_order_independent:
  assumes "\<forall>e \<in> set edits. old_text e \<noteq> []" and "mset edits' = mset edits"
    and "edit_content nfkc content edits = Inr final"
  shows "edit_content nfkc content edits' = Inr final"
proof -
  let ?crlf = "is_crlf content"
  obtain ms where ms: "match_edits nfkc content ?crlf (length edits) 0 edits = Inr ms"
    "find_overlap ms = None" "apply_all (by_start_desc ms) content = Some final" "final \<noteq> content"
    by (rule edit_content_Inr [OF assms(3)])
  let ?f = "\<lambda>e. (projr (the (find_unique_range nfkc content (old_text e))), adopt_line_endings (new_text e) ?crlf)"
  have snd_ms: "map snd xs = map ?f es" if "match_edits nfkc content ?crlf n 0 es = Inr xs" for n es xs
    using match_edits_Inr [OF that] by (auto simp: list_all2_conv_all_nth prod_eq_iff intro: nth_equalityI)
  have "\<forall>e \<in> set edits. \<exists>rng. find_unique_range nfkc content (old_text e) = Some (Inr rng)"
    using match_edits_Inr [OF ms(1)] by (auto simp: list_all2_conv_all_nth in_set_conv_nth)
  then have "\<forall>e \<in> set edits'. \<exists>rng. find_unique_range nfkc content (old_text e) = Some (Inr rng)"
    using mset_eq_setD [OF assms(2)] by simp
  from match_edits_intro [OF this] obtain ms' where
    ms': "match_edits nfkc content ?crlf (length edits') 0 edits' = Inr ms'" by blast
  have "mset (map snd ms) = mset (map snd ms')"
    unfolding snd_ms [OF ms(1)] snd_ms [OF ms'] using assms(2) by simp
  then have "find_overlap ms' = None \<and> apply_all (by_start_desc ms') content = Some final"
    using edits_perm [OF ms(2) match_edits_on_boundaries [OF ms(1) assms(1)]] ms(3) by metis
  then show ?thesis using ms' ms(4) by (simp add: edit_content_def)
qed

lemma edit_content_order_independent_witness:
  "edit_content (\<lambda>c. [c]) (lit ''X1 X2'')
     [\<lparr>old_text = lit ''X2'', new_text = lit ''Z''\<rparr>, \<lparr>old_text = lit ''X1'', new_text = lit ''Q X2''\<rparr>]
   = Inr (lit ''Q X2 Z'')"
  by (rule edit_content_order_independent
      [of "[\<lparr>old_text = lit ''X1'', new_text = lit ''Q X2''\<rparr>, \<lparr>old_text = lit ''X2'', new_text = lit ''Z''\<rparr>]"])
    (simp add: lit_simps, simp, code_simp)

text \<open>
  C24: A rejected overlap is a real one: the error names two different edits, the lower index first,
  each of which was found on its own, and the range of one of them starts inside the other's.
\<close>

theorem edit_content_overlap:
  assumes "edit_content nfkc content edits = Inl (EditOverlap low high)"
  shows "low < high \<and> high < length edits \<and> (\<exists>a b c d.
    find_unique_range nfkc content (old_text (edits ! low)) = Some (Inr (a, b)) \<and>
    find_unique_range nfkc content (old_text (edits ! high)) = Some (Inr (c, d)) \<and>
    (a \<le> c \<and> c < b \<or> c \<le> a \<and> a < d))"
proof -
  obtain ms where ms: "match_edits nfkc content (is_crlf content) (length edits) 0 edits = Inr ms"
    "find_overlap ms = Some (low, high)"
  proof (cases "match_edits nfkc content (is_crlf content) (length edits) 0 edits")
    case (Inl err)
    then have "err = EditOverlap low high" using assms by (simp add: edit_content_def)
    then show thesis using match_edits_Inl [OF Inl]
      by (auto elim!: failure_of.elims [where y = "Some _"])
  next
    case (Inr ms)
    then show thesis using assms that
      by (auto simp: edit_content_def split: option.splits if_splits)
  qed
  have "distinct (map fst ms)" using match_edits_Inr [OF ms(1)] by simp
  from find_overlap_Some [OF ms(2) this] obtain x y where xy: "x \<in> set ms" "y \<in> set ms" "fst x \<noteq> fst y"
      "start_of x \<le> start_of y" "start_of y < end_of x"
      "low = min (fst x) (fst y)" "high = max (fst x) (fst y)" by blast
  note X = match_edits_nth [OF ms(1) xy(1)] and Y = match_edits_nth [OF ms(1) xy(2)]
  show ?thesis
  proof (cases "fst x < fst y")
    case True
    then have "low = fst x" "high = fst y" using xy by simp_all
    then show ?thesis using X Y xy(4,5) True
      by (intro conjI exI [of _ "start_of x"] exI [of _ "end_of x"] exI [of _ "start_of y"] exI [of _ "end_of y"])
        simp_all
  next
    case False
    then have "low = fst y" "high = fst x" "fst y < fst x" using xy by simp_all
    then show ?thesis using X Y xy(4,5)
      by (intro conjI exI [of _ "start_of y"] exI [of _ "end_of y"] exI [of _ "start_of x"] exI [of _ "end_of x"])
        simp_all
  qed
qed

lemma edit_content_overlap_witness:
  "(0 :: nat) < 1 \<and> 1 < length [\<lparr>old_text = lit ''abcd'', new_text = []\<rparr>, \<lparr>old_text = lit ''cdef'', new_text = []\<rparr>]"
proof -
  have "edit_content (\<lambda>c. [c]) (lit ''abcdef'')
      [\<lparr>old_text = lit ''abcd'', new_text = []\<rparr>, \<lparr>old_text = lit ''cdef'', new_text = []\<rparr>] = Inl (EditOverlap 0 1)"
    by code_simp
  from edit_content_overlap [OF this] show ?thesis by blast
qed

section \<open>Counting occurrences\<close>

text \<open>
  The places at which a text occurs in another, and sets of places at which the occurrences do not
  overlap.
\<close>

definition occurs_at :: "rstr \<Rightarrow> rstr \<Rightarrow> nat set" where
  "occurs_at s pat = {i. i \<le> length s \<and> prefix pat (drop i s)}"

definition apart :: "nat \<Rightarrow> nat set \<Rightarrow> bool" where
  "apart m S \<longleftrightarrow> (\<forall>i \<in> S. \<forall>j \<in> S. i < j \<longrightarrow> i + m \<le> j)"

definition most_apart :: "rstr \<Rightarrow> rstr \<Rightarrow> nat" where
  "most_apart s pat = Max (card ` {S. S \<subseteq> occurs_at s pat \<and> apart (length pat) S})"

lemma apartD: "apart m S \<Longrightarrow> i \<in> S \<Longrightarrow> j \<in> S \<Longrightarrow> i = j \<or> i + m \<le> j \<or> j + m \<le> i"
  unfolding apart_def by (metis nat_neq_iff)

lemma occurs_at_finite: "S \<subseteq> occurs_at s pat \<Longrightarrow> finite S"
  by (rule finite_subset [of _ "{..length s}"]) (auto simp: occurs_at_def)

lemma apart_shift: "apart m S \<Longrightarrow> apart m ((\<lambda>i. i - k) ` {i \<in> S. k \<le> i})"
  unfolding apart_def by fastforce

lemma occurs_at_shift: "S \<subseteq> occurs_at s pat \<Longrightarrow> (\<lambda>i. i - k) ` {i \<in> S. k \<le> i} \<subseteq> occurs_at (drop k s) pat"
  by (force simp: occurs_at_def)

lemma card_shift: "card ((\<lambda>i. i - k) ` {i \<in> S. k \<le> i}) = card {i \<in> S. k \<le> (i :: nat)}"
  by (rule card_image) (auto simp: inj_on_def)

text \<open>The search from left to right finds as many as possible.\<close>

lemma scan_bound:
  assumes "pat \<noteq> []" and "S \<subseteq> occurs_at s pat" and "apart (length pat) S"
  shows "card S \<le> length (match_indices_from pat off s)"
  using assms
proof (induction pat off s arbitrary: S rule: match_indices_from.induct)
  case (1 pat off)
  then have "S = {}" by (auto simp: occurs_at_def)
  then show ?case by simp
next
  case (2 pat off c s)
  have fin: "finite S" using occurs_at_finite "2.prems"(2) .
  let ?k = "if prefix pat (c # s) then length pat else 1"
  let ?S = "(\<lambda>i. i - ?k) ` {i \<in> S. ?k \<le> i}"
  have S': "?S \<subseteq> occurs_at (drop ?k (c # s)) pat" "apart (length pat) ?S"
    using occurs_at_shift [OF "2.prems"(2)] apart_shift [OF "2.prems"(3)] by blast+
  show ?case
  proof (cases "prefix pat (c # s)")
    case True
    have "card ?S \<le> length (match_indices_from pat (off + str_len pat) (drop (length pat) (c # s)))"
      using "2.IH"(2) [OF "2.prems"(1) True "2.prems"(1), of ?S] S' True by simp
    moreover have "x = y" if "x \<in> {i \<in> S. \<not> ?k \<le> i}" "y \<in> {i \<in> S. \<not> ?k \<le> i}" for x y
      using apartD [OF "2.prems"(3), of x y] apartD [OF "2.prems"(3), of y x] that True by auto
    then have "card {i \<in> S. \<not> ?k \<le> i} \<le> 1" using fin by (simp add: card_le_Suc0_iff_eq)
    moreover have "card S = card {i \<in> S. ?k \<le> i} + card {i \<in> S. \<not> ?k \<le> i}"
      using card_Un_disjoint [of "{i \<in> S. ?k \<le> i}" "{i \<in> S. \<not> ?k \<le> i}"] fin
      by (simp add: Collect_disj_eq [symmetric] conj_disj_distribL [symmetric] disjoint_iff)
    ultimately show ?thesis using True "2.prems"(1) card_shift [of ?k S] by simp
  next
    case False
    have "card ?S \<le> length (match_indices_from pat (off + len_utf8 c) s)"
      using "2.IH"(3) [OF "2.prems"(1) False "2.prems"(1), of ?S] S' False by simp
    moreover have "0 \<notin> S" using False "2.prems"(2) by (auto simp: occurs_at_def)
    then have "{i \<in> S. ?k \<le> i} = S" using False by (auto simp: Suc_le_eq intro: gr0I)
    ultimately show ?thesis using False "2.prems"(1) card_shift [of ?k S] by simp
  qed
qed

lemma scan_attains:
  assumes "pat \<noteq> []"
  shows "\<exists>S. S \<subseteq> occurs_at s pat \<and> apart (length pat) S \<and> card S = length (match_indices_from pat off s)"
  using assms
proof (induction pat off s rule: match_indices_from.induct)
  case (1 pat off)
  then show ?case by (intro exI [of _ "{}"]) (simp add: apart_def)
next
  case (2 pat off c s)
  show ?case
  proof (cases "prefix pat (c # s)")
    case True
    obtain S where S: "S \<subseteq> occurs_at (drop (length pat) (c # s)) pat" "apart (length pat) S"
      "card S = length (match_indices_from pat (off + str_len pat) (drop (length pat) (c # s)))"
      using "2.IH"(2) [OF "2.prems" True "2.prems"] by blast
    let ?S = "insert 0 ((\<lambda>i. i + length pat) ` S)"
    have "?S \<subseteq> occurs_at (c # s) pat"
      using S(1) True prefix_length_le [OF True] by (auto simp: occurs_at_def add.commute)
    moreover have "apart (length pat) ?S" using S(2) by (auto simp: apart_def)
    moreover have "card ?S = Suc (card S)"
      using occurs_at_finite [OF S(1)] "2.prems" by (subst card_insert_disjoint) (auto simp: card_image)
    ultimately show ?thesis using S(3) True "2.prems" by (intro exI [of _ ?S]) simp
  next
    case False
    obtain S where S: "S \<subseteq> occurs_at s pat" "apart (length pat) S"
      "card S = length (match_indices_from pat (off + len_utf8 c) s)"
      using "2.IH"(3) [OF "2.prems" False "2.prems"] by blast
    have "Suc ` S \<subseteq> occurs_at (c # s) pat" using S(1) by (auto simp: occurs_at_def)
    moreover have "apart (length pat) (Suc ` S)" using S(2) by (auto simp: apart_def)
    ultimately show ?thesis using S(3) False "2.prems" by (intro exI [of _ "Suc ` S"]) (simp add: card_image)
  qed
qed

lemma match_indices_most_apart:
  assumes "pat \<noteq> []"
  shows "most_apart s pat = length (match_indices s pat)"
proof -
  let ?C = "card ` {S. S \<subseteq> occurs_at s pat \<and> apart (length pat) S}"
  obtain S where S: "S \<subseteq> occurs_at s pat" "apart (length pat) S" "card S = length (match_indices s pat)"
    using scan_attains [OF assms, of s 0] by (auto simp: match_indices_def)
  have bound: "c \<le> length (match_indices s pat)" if "c \<in> ?C" for c
    using that scan_bound [OF assms] by (auto simp: match_indices_def)
  then have "finite ?C" by (rule finite_nat_set_iff_bounded_le [THEN iffD2, OF exI, OF ballI])
  moreover have "length (match_indices s pat) \<in> ?C" using S by (intro image_eqI [of _ _ S]) simp_all
  ultimately show ?thesis unfolding most_apart_def using bound by (intro Max_eqI)
qed

lemma window_matches_prefix:
  "start + length needle \<le> length s \<Longrightarrow> window_matches s needle start \<longleftrightarrow> prefix needle (drop start s)"
proof -
  assume le: "start + length needle \<le> length s"
  have "window_matches s needle start \<longleftrightarrow> (\<forall>i < length needle. s ! (start + i) = needle ! i)"
    by (simp add: window_matches_def list_all_length nth_enumerate_eq)
  also have "\<dots> \<longleftrightarrow> take (length needle) (drop start s) = needle"
    using le by (auto simp: list_eq_iff_nth_eq)
  also have "\<dots> \<longleftrightarrow> prefix needle (drop start s)" by (metis prefix_def append_eq_conv_conj take_is_prefix)
  finally show ?thesis .
qed

lemma match_indices_empty:
  assumes "pat \<noteq> []"
  shows "match_indices s pat = [] \<longleftrightarrow> occurs_at s pat = {}"
proof
  show "occurs_at s pat = {}" if "match_indices s pat = []"
    using match_indices_complete [of pat _ s] assms that by (fastforce simp: occurs_at_def)
  show "match_indices s pat = []" if no: "occurs_at s pat = {}"
  proof (rule ccontr)
    assume "match_indices s pat \<noteq> []"
    then obtain b where "b \<in> set (match_indices s pat)" by (meson list.set_sel(1))
    from match_indices_sound [OF this assms] show False using no by (auto simp: occurs_at_def)
  qed
qed

lemma positions_occur:
  assumes "needle \<noteq> []"
  shows "length (find_all_char_positions s needle) = card (occurs_at s needle)"
proof -
  have d: "distinct (find_all_char_positions s needle)" by (simp add: find_all_char_positions_def)
  have m: "x \<in> set (find_all_char_positions s needle) \<longleftrightarrow> x + length needle \<le> length s \<and> prefix needle (drop x s)" for x
  proof (cases "length s < length needle")
    case False
    then have "x < length s - length needle + 1 \<longleftrightarrow> x + length needle \<le> length s" by arith
    then show ?thesis using False assms window_matches_prefix [of x needle s]
      by (auto simp: find_all_char_positions_def simp del: upt_Suc)
  qed (simp add: find_all_char_positions_def)
  have "x + length needle \<le> length s" if "x \<le> length s" "prefix needle (drop x s)" for x
    using prefix_length_le [OF that(2)] that(1) by simp
  then have "set (find_all_char_positions s needle) = occurs_at s needle"
    using m by (auto simp: occurs_at_def)
  then show ?thesis using distinct_card [OF d] by simp
qed

text \<open>
  How often a text is found: the largest number of places at which it occurs without overlaps;
  if it does not occur, the number of all places at which its normalised form occurs in the
  normalised contents.
\<close>

definition occurrences :: "(rchar \<Rightarrow> rstr) \<Rightarrow> rstr \<Rightarrow> rstr \<Rightarrow> nat" where
  "occurrences nfkc content old =
     (if occurs_at content old \<noteq> {} then most_apart content old
      else if normalize_chars nfkc old = [] then 0
      else card (occurs_at (nt_chars (new_normalized nfkc content)) (normalize_chars nfkc old)))"

lemma occurrences_scan:
  assumes "old \<noteq> []"
  shows "occurrences nfkc content old =
     (if match_indices content old \<noteq> [] then length (match_indices content old)
      else length (find_all_char_positions (nt_chars (new_normalized nfkc content)) (normalize_chars nfkc old)))"
  using match_indices_empty [OF assms, of content] match_indices_most_apart [OF assms, of content]
    positions_occur [of "normalize_chars nfkc old"]
  by (simp add: occurrences_def find_all_char_positions_def)

section \<open>What a failed edit says\<close>

lemma find_unique_range_occurrences:
  assumes "old \<noteq> []"
  shows "case find_unique_range nfkc content old of
      Some (Inl NotFound) \<Rightarrow> occurrences nfkc content old = 0
    | Some (Inl (Multiple c)) \<Rightarrow> occurrences nfkc content old = c \<and> 1 < c
    | Some (Inr rng) \<Rightarrow> occurrences nfkc content old = 1
    | None \<Rightarrow> False"
  using assms
proof (cases rule: find_unique_range_cases [where content = content and nfkc = nfkc])
  case (fallback st)
  then show ?thesis using find_unique_range_total [OF assms, of nfkc content]
    by (cases "original_range (new_normalized nfkc content) st (st + length (normalize_chars nfkc old))")
      (simp_all add: occurrences_scan [OF assms])
next
  case (fallback_ambiguous ps)
  then show ?thesis by (auto simp: occurrences_scan [OF assms])
qed (auto simp: occurrences_scan [OF assms] find_all_char_positions_def)

lemma edit_content_match_edits_Inl:
  assumes "edit_content nfkc content edits = Inl err" and "\<And>l h. err \<noteq> EditOverlap l h"
    and "err \<noteq> EditNoChange" and "\<forall>e \<in> set edits. old_text e \<noteq> []"
  shows "match_edits nfkc content (is_crlf content) (length edits) 0 edits = Inl err"
proof (cases "match_edits nfkc content (is_crlf content) (length edits) 0 edits")
  case (Inr ms)
  show ?thesis
  proof (cases "find_overlap ms")
    case None
    obtain ps tail where "apply_all (by_start_desc ms) content = Some (after_pieces ps @ tail)"
      by (rule apply_sorted [OF None match_edits_on_boundaries [OF Inr assms(4)]])
    then show ?thesis using Inr None assms(1,3) by (simp add: edit_content_def split: if_splits)
  next
    case (Some lh)
    then show ?thesis using Inr assms(1,2) by (cases lh) (auto simp: edit_content_def)
  qed
qed (use assms(1) in \<open>simp add: edit_content_def\<close>)

text \<open>
  C23: The match errors are accurate. When a call fails to locate an edit, the error carries the
  index of the first edit whose text is not found exactly once: all earlier ones are, a "not found"
  edit is not found at all, and a "multiple" error reports how often the text is found, which is more
  than once. How often a text is found is the largest number of places at which it occurs in the
  contents without overlaps; if it does not occur, it is the number of all places at which its
  normalised form occurs in the normalised contents. (So overlapping occurrences can count once:
  \<open>overlapping_occurrences_count_once\<close>.)
\<close>

theorem edit_content_match_error:
  assumes "\<forall>e \<in> set edits. old_text e \<noteq> []" and "edit_content nfkc content edits = Inl err"
    and "err = EditNotFound k n \<or> err = EditMultiple k c n"
  shows "n = length edits \<and> k < length edits
    \<and> (\<forall>i < k. occurrences nfkc content (old_text (edits ! i)) = 1)
    \<and> (err = EditNotFound k n \<longrightarrow> occurrences nfkc content (old_text (edits ! k)) = 0)
    \<and> (err = EditMultiple k c n \<longrightarrow> occurrences nfkc content (old_text (edits ! k)) = c \<and> 1 < c)"
proof -
  have "match_edits nfkc content (is_crlf content) (length edits) 0 edits = Inl err"
    by (rule edit_content_match_edits_Inl [OF assms(2) _ _ assms(1)]) (use assms(3) in auto)
  from match_edits_Inl [OF this] obtain j where j: "j < length edits"
    "\<forall>i < j. failure_of i (length edits) (find_unique_range nfkc content (old_text (edits ! i))) = None"
    "failure_of j (length edits) (find_unique_range nfkc content (old_text (edits ! j))) = Some err"
    by auto
  have ne: "old_text (edits ! i) \<noteq> []" if "i < length edits" for i using assms(1) that by simp
  have before: "occurrences nfkc content (old_text (edits ! i)) = 1" if "i < j" for i
  proof -
    have "i < length edits" using that j(1) by simp
    then show ?thesis using j(2) that find_unique_range_occurrences [OF ne, of i nfkc content]
      by (auto simp: failure_of_None)
  qed
  from j(3) assms(3) have "k = j \<and> n = length edits"
    and "find_unique_range nfkc content (old_text (edits ! j)) =
      Some (Inl (if err = EditNotFound k n then NotFound else Multiple c))"
    by (auto elim!: failure_of.elims)
  then show ?thesis using before j(1) find_unique_range_occurrences [OF ne [OF j(1)], of nfkc content] assms(3)
    by auto
qed

lemma edit_content_match_error_witness:
  "occurrences (\<lambda>c. [c]) (lit ''abcab'') (lit ''c'') = 1 \<and> occurrences (\<lambda>c. [c]) (lit ''abcab'') (lit ''ab'') = 2"
proof -
  let ?edits = "[\<lparr>old_text = lit ''c'', new_text = []\<rparr>, \<lparr>old_text = lit ''ab'', new_text = []\<rparr>]"
  have ne: "\<forall>e \<in> set ?edits. old_text e \<noteq> []" by (simp add: lit_simps)
  have err: "edit_content (\<lambda>c. [c]) (lit ''abcab'') ?edits = Inl (EditMultiple 1 2 2)" by code_simp
  show ?thesis using edit_content_match_error [OF ne err, of 1 2 2] by (simp add: less_Suc_eq)
qed

text \<open>
  A call with one edit whose old text occurs exactly once replaces that occurrence and nothing
  else: everything before and after it is kept, and the new text is written in the line endings of
  the file.
\<close>

theorem edit_content_single:
  assumes "old_text e \<noteq> []" and "content = pre @ old_text e @ post"
    and "match_indices content (old_text e) = [str_len pre]"
    and "adopt_line_endings (new_text e) (is_crlf content) \<noteq> old_text e"
  shows "edit_content nfkc content [e] =
    Inr (pre @ adopt_line_endings (new_text e) (is_crlf content) @ post)"
proof -
  let ?new = "adopt_line_endings (new_text e) (is_crlf content)"
  have f: "find_unique_range nfkc content (old_text e) = Some (Inr (str_len pre, str_len pre + str_len (old_text e)))"
    using assms(1)
    by (cases rule: find_unique_range_cases [where content = content and nfkc = nfkc])
      (use assms(3) in auto)
  have "replace_range content (str_len (take (length pre) content),
      str_len (take (length (pre @ old_text e)) content)) ?new
    = Some (take (length pre) content @ ?new @ drop (length (pre @ old_text e)) content)"
    by (rule replace_range_chars) (simp_all add: assms(2))
  then have "replace_range content (str_len pre, str_len pre + str_len (old_text e)) ?new = Some (pre @ ?new @ post)"
    by (simp add: assms(2))
  then show ?thesis using f assms(4)
    by (simp add: edit_content_def find_overlap_def by_start_desc_def) (simp add: assms(2))
qed

lemma edit_content_single_witness:
  "edit_content (\<lambda>c. [c]) (lit ''let x'') [\<lparr>old_text = lit ''x'', new_text = lit ''yy''\<rparr>] =
   Inr (lit ''let '' @ adopt_line_endings (lit ''yy'') (is_crlf (lit ''let x'')) @ [])"
  using edit_content_single [of "\<lparr>old_text = lit ''x'', new_text = lit ''yy''\<rparr>" "lit ''let x''" "lit ''let ''" "[]"
    "\<lambda>c. [c]"]
  by (simp add: lit_simps) code_simp

section \<open>Two surprises of the search\<close>

text \<open>
  \<^theory_text>\<open>str::match_indices\<close> yields non-overlapping occurrences, so a text that occurs twice counts as
  unique when the occurrences overlap.
\<close>

lemma overlapping_occurrences_count_once:
  "find_unique_range nfkc (lit ''ababa'') (lit ''aba'') = Some (Inr (0, 3)) \<and>
   prefix (lit ''aba'') (drop 0 (lit ''ababa'')) \<and> prefix (lit ''aba'') (drop 2 (lit ''ababa''))"
proof -
  have m: "match_indices (lit ''ababa'') (lit ''aba'') = [0]" by code_simp
  have "find_unique_range nfkc (lit ''ababa'') (lit ''aba'') = Some (Inr (0, 0 + str_len (lit ''aba'')))"
    by (simp add: find_unique_range_def m Let_def)
  moreover have "str_len (lit ''aba'') = 3" by code_simp
  moreover have "prefix (lit ''aba'') (drop 0 (lit ''ababa''))" "prefix (lit ''aba'') (drop 2 (lit ''ababa''))"
    by code_simp+
  ultimately show ?thesis by simp
qed

text \<open>
  When NFKC expands one character of the file to several (the ligature \<^theory_text>\<open>U+0132\<close> to \<open>IJ\<close>), a match
  that covers only a part of the expansion selects the whole character: replacing \<open>Jx\<close> by \<open>ox\<close>
  also deletes the \<open>I\<close>.
\<close>

definition nfkc_ij :: "rchar \<Rightarrow> rstr" where
  "nfkc_ij c = (if c = 306 then lit ''IJ'' else [c])"

lemma partial_expansion_is_replaced:
  "edit_content nfkc_ij (lit ''a'' @ [306] @ lit ''x'') [\<lparr>old_text = lit ''Jx'', new_text = lit ''ox''\<rparr>]
   = Inr (lit ''aox'')"
  by code_simp

end
