(* ===== verification/Util.thy ===== *)
theory Util
  imports Rust_Str
begin

text \<open>
  \<^theory_text>\<open>util.rs\<close>: the random hexadecimal strings in the names of temporary files and of output
  logs. The bytes of \<^theory_text>\<open>/dev/urandom\<close> (when it can be read), the clock and the counter are
  inputs.
\<close>

section \<open>Hexadecimal digits\<close>

definition hex_digit :: "nat \<Rightarrow> rchar" where
  "hex_digit d = (if d < 10 then 48 + d else 87 + d)"

definition is_hexdigit :: "rchar \<Rightarrow> bool" where
  "is_hexdigit c \<longleftrightarrow> 48 \<le> c \<and> c \<le> 57 \<or> 97 \<le> c \<and> c \<le> 102"

text \<open>\<^theory_text>\<open>{b:02x}\<close> for a byte, \<^theory_text>\<open>{n:x}\<close> for a number and the zero padding of \<^theory_text>\<open>{n:0width$x}\<close>.\<close>

definition hex_byte :: "byte \<Rightarrow> rstr" where
  "hex_byte b = [hex_digit (unat b div 16), hex_digit (unat b mod 16)]"

fun hex :: "nat \<Rightarrow> rstr" where
  "hex n = (if n < 16 then [hex_digit n] else hex (n div 16) @ [hex_digit (n mod 16)])"

declare hex.simps [simp del]

definition zero_pad :: "nat \<Rightarrow> rstr \<Rightarrow> rstr" where
  "zero_pad width s = replicate (width - length s) 48 @ s"

section \<open>The random string\<close>

definition random_fallback :: "64 word \<Rightarrow> 64 word \<Rightarrow> 64 word" where
  "random_fallback nanos counter = xor nanos (counter * 0x9E3779B97F4A7C15)"

text \<open>
  \<open>urandom k\<close> is what \<^theory_text>\<open>read_exact\<close> of \<open>k\<close> bytes gives: \<^theory_text>\<open>None\<close> when the device
  cannot be opened or read. The counter is incremented by the fallback only.
\<close>

definition random_hex ::
  "nat \<Rightarrow> (nat \<Rightarrow> byte list option) \<Rightarrow> 64 word \<Rightarrow> 64 word \<Rightarrow> rstr \<times> 64 word" where
  "random_hex byte_len urandom nanos counter =
     (let byte_len = min byte_len 8
      in case urandom byte_len of
           Some buf \<Rightarrow> (concat (map hex_byte buf), counter)
         | None \<Rightarrow>
             (zero_pad (byte_len * 2) (hex (unat (random_fallback nanos counter))), counter + 1))"

section \<open>What the string looks like\<close>

lemma is_hexdigit_hex_digit: "d < 16 \<Longrightarrow> is_hexdigit (hex_digit d)"
  by (auto simp: is_hexdigit_def hex_digit_def)

lemma hex_digit_inj: "a < 16 \<Longrightarrow> b < 16 \<Longrightarrow> hex_digit a = hex_digit b \<Longrightarrow> a = b"
  by (auto simp: hex_digit_def split: if_splits)

lemma unat_byte_div: "unat (b :: byte) div 16 < 16"
proof -
  have "unat b < 256" using unsigned_less [of b] by simp
  then show ?thesis by simp
qed

lemma hex_byte_inj: "hex_byte a = hex_byte b \<Longrightarrow> a = b"
proof -
  assume "hex_byte a = hex_byte b"
  then have "unat a div 16 = unat b div 16" "unat a mod 16 = unat b mod 16"
    using hex_digit_inj unat_byte_div by (simp_all add: hex_byte_def)
  then have "unat a = unat b" by (metis div_mult_mod_eq)
  then show "a = b" by (simp only: word_unat_eq_iff)
qed

lemma hex_digits: "\<forall>c \<in> set (hex n). is_hexdigit c"
  by (induction n rule: hex.induct) (subst hex.simps, auto simp: is_hexdigit_hex_digit)

lemma concat_hex_bytes_inj:
  "concat (map hex_byte a) = concat (map hex_byte b) \<Longrightarrow> a = b"
proof (induction a arbitrary: b)
  case Nil
  then show ?case by (cases b) (auto simp: hex_byte_def)
next
  case (Cons x a)
  then obtain y b' where b: "b = y # b'" by (cases b) (auto simp: hex_byte_def)
  have len: "length (hex_byte z) = 2" for z by (simp add: hex_byte_def)
  have "hex_byte x @ concat (map hex_byte a) = hex_byte y @ concat (map hex_byte b')"
    using Cons.prems b by simp
  then have "hex_byte x = hex_byte y" "concat (map hex_byte a) = concat (map hex_byte b')"
    using len by (simp_all add: append_eq_append_conv)
  then show ?case using Cons.IH b hex_byte_inj by simp
qed

lemma random_hex_digits: "\<forall>c \<in> set (fst (random_hex k urandom nanos counter)). is_hexdigit c"
proof -
  have "is_hexdigit 48" by (simp add: is_hexdigit_def)
  then show ?thesis
    using hex_digits is_hexdigit_hex_digit unat_byte_div
    by (auto simp: random_hex_def Let_def hex_byte_def zero_pad_def split: option.splits)
qed

text \<open>
  The random part of a temporary name is made of lower-case hexadecimal digits only, so it
  cannot add a separator to the name; with a working \<^theory_text>\<open>/dev/urandom\<close> it has two digits per
  byte and different random bytes give different names; the fallback has at least as many digits.
\<close>

theorem random_hex_names:
  assumes "\<And>k bs. urandom k = Some bs \<Longrightarrow> length bs = k" and "\<And>k bs. urandom' k = Some bs \<Longrightarrow> length bs = k"
  shows "(\<forall>c \<in> set (fst (random_hex k urandom nanos counter)). is_hexdigit c) \<and>
    2 * min k 8 \<le> length (fst (random_hex k urandom nanos counter)) \<and>
    (urandom (min k 8) \<noteq> None \<longrightarrow>
       length (fst (random_hex k urandom nanos counter)) = 2 * min k 8 \<and>
       (urandom' (min k 8) \<noteq> None \<and> urandom' (min k 8) \<noteq> urandom (min k 8) \<longrightarrow>
          fst (random_hex k urandom' nanos' counter') \<noteq> fst (random_hex k urandom nanos counter)))"
proof (cases "urandom (min k 8)")
  case None
  then have "2 * min k 8 \<le> length (fst (random_hex k urandom nanos counter))"
    by (simp add: random_hex_def Let_def zero_pad_def)
  then show ?thesis using random_hex_digits None by blast
next
  case (Some bs)
  have len: "length (concat (map hex_byte bs)) = 2 * length bs" for bs
    by (induction bs) (simp_all add: hex_byte_def)
  have a: "length (fst (random_hex k urandom nanos counter)) = 2 * min k 8"
    using Some len [of bs] assms(1) [OF Some] by (simp add: random_hex_def Let_def)
  have "fst (random_hex k urandom' nanos' counter') \<noteq> fst (random_hex k urandom nanos counter)"
    if "urandom' (min k 8) \<noteq> None" "urandom' (min k 8) \<noteq> urandom (min k 8)"
    using that Some concat_hex_bytes_inj by (auto simp: random_hex_def Let_def)
  then show ?thesis using a random_hex_digits by simp
qed

lemma random_hex_names_witness:
  "2 * min 4 8 \<le> length (fst (random_hex 4 (\<lambda>k. Some (replicate k 171)) 0 0))"
  using random_hex_names [of "\<lambda>k. Some (replicate k 171)" "\<lambda>k. None" 4 0 0 0 0] by simp

text \<open>The fallback is not cut to the requested length: four bytes can give sixteen digits.\<close>

lemma random_hex_fallback_longer:
  "length (fst (random_hex 4 (\<lambda>k. None) 0 1)) = 16"
  by (simp add: random_hex_def random_fallback_def zero_pad_def Let_def hex.simps)

end
