(* ===== verification/Atomic_Write.thy ===== *)
theory Atomic_Write
  imports File_System Util
begin

text \<open>
  \<^theory_text>\<open>fs/atomic_write.rs\<close>: temporary file, write, sync, rename. Every state the file system goes
  through is recorded, so that a crash, a cancellation or a concurrent reader sees one of them; the
  failures of the single calls are inputs.
\<close>

section \<open>Faults\<close>

text \<open>
  What can go wrong besides the state of the tree: each call may fail with an error; a write may
  fail after it has written a number of bytes.
\<close>

record faults =
  create_fault :: "io_error option"
  write_fault :: "(nat \<times> io_error) option"
  sync_fault :: "io_error option"
  rename_fault :: "io_error option"
  remove_fault :: "io_error option"

definition no_faults :: faults where
  "no_faults = \<lparr>create_fault = None, write_fault = None, sync_fault = None,
     rename_fault = None, remove_fault = None\<rparr>"

section \<open>The two functions\<close>

text \<open>A list of states stands for the history since the call; the last one is the current state.\<close>

definition written :: "fs \<Rightarrow> fpath \<Rightarrow> byte list \<Rightarrow> nat \<Rightarrow> fs list" where
  "written fs file bytes n = map (\<lambda>k. fs(file \<mapsto> File (take k bytes))) [0..<Suc n]"

text \<open>
  An error that tokio reports late, at \<^theory_text>\<open>sync_all\<close>, is a fault of either call here: the file then holds
  what was written, and the target is not touched. The attempt to sync the directory after the rename
  changes nothing in the tree, and its result is not looked at.
\<close>

definition write_inner ::
  "fs \<Rightarrow> path \<Rightarrow> path \<Rightarrow> byte list \<Rightarrow> faults \<Rightarrow> (rstr + unit) \<times> fs list" where
  "write_inner fs path tmp bytes fl =
     (case create_fault fl of
        Some e \<Rightarrow> (Inl (lit ''failed to create temp file: '' @ io_error_text e), [])
      | None \<Rightarrow>
          (case fs_create fs tmp of
             Inl e \<Rightarrow> (Inl (lit ''failed to create temp file: '' @ io_error_text e), [])
           | Inr (file, fs1) \<Rightarrow>
               (case write_fault fl of
                  Some (n, e) \<Rightarrow>
                    (Inl (lit ''failed to write temp file: '' @ io_error_text e),
                     written fs1 file bytes (min n (length bytes)))
                | None \<Rightarrow>
                    (let hist = written fs1 file bytes (length bytes)
                     in case sync_fault fl of
                          Some e \<Rightarrow> (Inl (lit ''failed to sync temp file: '' @ io_error_text e), hist)
                        | None \<Rightarrow>
                            (case rename_fault fl of
                               Some e \<Rightarrow> (Inl (lit ''failed to replace file: '' @ io_error_text e), hist)
                             | None \<Rightarrow>
                                 (case fs_rename (last hist) tmp path of
                                    Inl e \<Rightarrow>
                                      (Inl (lit ''failed to replace file: '' @ io_error_text e), hist)
                                  | Inr fs2 \<Rightarrow> (Inr (), hist @ [fs2])))))))"

definition temp_name :: "rstr \<Rightarrow> rstr \<Rightarrow> rstr" where
  "temp_name file_name rnd = lit ''.'' @ file_name @ lit ''.mcpod-tmp-'' @ rnd"

definition write_atomic ::
  "fs \<Rightarrow> path \<Rightarrow> byte list \<Rightarrow> rstr \<Rightarrow> faults \<Rightarrow> (rstr + unit) \<times> fs list" where
  "write_atomic fs path bytes rnd fl =
     (case path_file_name path of
        None \<Rightarrow> (Inl (lit ''invalid file path: '' @ path_display path), [])
      | Some file_name \<Rightarrow>
          (let dir = (case path_parent path of Some d \<Rightarrow> d | None \<Rightarrow> [CurDir]);
               tmp = dir @ [Normal (temp_name file_name rnd)];
               (result, hist) = write_inner fs path tmp bytes fl
           in case result of
                Inr _ \<Rightarrow> (result, hist)
              | Inl _ \<Rightarrow>
                  (case remove_fault fl of
                     Some _ \<Rightarrow> (result, hist)
                   | None \<Rightarrow>
                       (case fs_remove (last (fs # hist)) tmp of
                          Inl _ \<Rightarrow> (result, hist)
                        | Inr fs' \<Rightarrow> (result, hist @ [fs'])))))"

section \<open>The temporary name\<close>

lemma temp_name_longer: "length file_name < length (temp_name file_name rnd)"
  by (simp add: temp_name_def lit_def)

lemma temp_name_neq: "temp_name file_name rnd \<noteq> file_name"
  using temp_name_longer [of file_name rnd] by auto

lemma plain_temp_name:
  assumes "plain_name file_name" and "\<forall>c \<in> set rnd. is_hexdigit c"
  shows "plain_name (temp_name file_name rnd)"
proof -
  have "slash \<notin> set rnd" using assms(2) by (auto simp: is_hexdigit_def slash_def)
  moreover have "slash \<notin> set file_name" using assms(1) by (simp add: plain_name_def)
  moreover have "3 \<le> length (temp_name file_name rnd)" by (simp add: temp_name_def lit_def)
  then have "temp_name file_name rnd \<noteq> []" "temp_name file_name rnd \<noteq> dot" "temp_name file_name rnd \<noteq> dotdot"
    by (auto simp: dot_def dotdot_def)
  ultimately show ?thesis by (auto simp: plain_name_def temp_name_def lit_def slash_def)
qed

section \<open>The states of a write\<close>

text \<open>The setting: the target lies in a directory in which the temporary name is free.\<close>

definition writable :: "fs \<Rightarrow> fpath \<Rightarrow> rstr \<Rightarrow> rstr \<Rightarrow> bool" where
  "writable fs d n rnd \<longleftrightarrow> wf_fs fs \<and> fs d = Some Dir \<and> plain_name n \<and>
     (\<forall>c \<in> set rnd. is_hexdigit c) \<and> fs (d @ [temp_name n rnd]) = None"

text \<open>A state in which at most the temporary file differs from \<open>fs\<close>.\<close>

definition only_temp :: "fs \<Rightarrow> fpath \<Rightarrow> byte list \<Rightarrow> fs \<Rightarrow> bool" where
  "only_temp fs t bytes s \<longleftrightarrow> s = fs \<or> (\<exists>k \<le> length bytes. s = fs(t \<mapsto> File (take k bytes)))"

lemma writableD:
  assumes "writable fs d n rnd"
  shows "wf_fs fs" "fs d = Some Dir" "plain_name n" "fs (d @ [temp_name n rnd]) = None"
    "plain_name (temp_name n rnd)"
  using assms plain_temp_name by (auto simp: writable_def)

lemma written_states:
  assumes "s \<in> set (written (fs(t \<mapsto> x)) t bytes m)" and "m \<le> length bytes"
  shows "only_temp fs t bytes s"
proof -
  obtain k where "k \<le> m" "s = fs(t \<mapsto> File (take k bytes))"
    using assms(1) by (auto simp: written_def less_Suc_eq_le simp del: upt_Suc)
  then show ?thesis using assms(2) order.trans unfolding only_temp_def by blast
qed

lemma written_last: "last (written (fs(t \<mapsto> x)) t bytes m) = fs(t \<mapsto> File (take m bytes))"
  by (simp add: written_def)

text \<open>After such states, nothing but the temporary file differs.\<close>

lemma only_temp_last:
  assumes "\<forall>s \<in> set hist. only_temp fs t bytes s" and "q \<noteq> t"
  shows "last (fs # hist) q = fs q"
proof (cases "hist = []")
  case False
  then have "only_temp fs t bytes (last hist)" using assms(1) by simp
  then show ?thesis using False assms(2) by (auto simp: only_temp_def)
qed simp

lemma written_not_Nil: "written fs t bytes m \<noteq> []"
  by (simp add: written_def)

lemma rename_temp:
  assumes "writable fs d n rnd"
  defines "t \<equiv> d @ [temp_name n rnd]"
  shows "fs_rename (fs(t \<mapsto> File bytes)) (abs_path t) (abs_path (d @ [n])) =
    (if fs (d @ [n]) = Some Dir then Inl EISDIR else Inr (fs(d @ [n] \<mapsto> File bytes)))"
proof -
  note W = writableD [OF assms(1)]
  have tp: "t \<noteq> d @ [n]" "t \<noteq> d" using temp_name_neq by (simp_all add: t_def)
  have wfw: "wf_fs (fs(t \<mapsto> File bytes))" using wf_fs_set [OF W(1,2,5)] W(4) by (simp add: t_def)
  have final: "fs(t := None, d @ [n] \<mapsto> File bytes) = fs(d @ [n] \<mapsto> File bytes)"
    using W(4) by (auto simp: fun_eq_iff t_def)
  have d: "(fs(t \<mapsto> File bytes)) d = Some Dir" using W(2) tp by simp
  have loc: "locate (fs(t \<mapsto> File bytes)) (abs_path (d @ [m])) = Inr (d @ [m])" for m
    by (rule locate_canonical [OF wfw wf_fs_Some_dir [OF wfw d] d])
  show ?thesis
    using loc [of n] loc [of "temp_name n rnd"] tp final by (simp add: fs_rename_def t_def)
qed

lemma write_inner_cases:
  assumes "writable fs d n rnd"
    and "write_inner fs (abs_path (d @ [n])) (abs_path (d @ [temp_name n rnd])) bytes fl = (result, hist)"
  obtains (failed) "isl result" "\<forall>s \<in> set hist. only_temp fs (d @ [temp_name n rnd]) bytes s"
      "fl = no_faults \<Longrightarrow> fs (d @ [n]) = Some Dir"
  | (written) h where "result = Inr ()" "fs (d @ [n]) \<noteq> Some Dir" "hist = h @ [fs(d @ [n] \<mapsto> File bytes)]"
      "\<forall>s \<in> set h. only_temp fs (d @ [temp_name n rnd]) bytes s"
proof -
  note W = writableD [OF assms(1)]
  let ?t = "d @ [temp_name n rnd]"
  have create: "fs_create fs (abs_path ?t) = Inr (?t, fs(?t \<mapsto> File []))"
    using fs_create_canonical [OF W(1,2), of "temp_name n rnd"] W(4) by simp
  note defs = write_inner_def create written_last rename_temp [OF assms(1)] Let_def
  show thesis
  proof (cases "create_fault fl")
    case (Some e)
    then show thesis using assms(2) by (intro failed) (auto simp: write_inner_def no_faults_def)
  next
    case None
    note c = None
    show thesis
    proof (cases "write_fault fl")
      case (Some f)
      then show thesis using assms(2) c written_states
        by (intro failed) (auto simp: defs no_faults_def split: prod.splits)
    next
      case None
      note w = None
      have st: "\<forall>s \<in> set (written (fs(?t \<mapsto> File [])) ?t bytes (length bytes)). only_temp fs ?t bytes s"
        using written_states by blast
      show thesis
      proof (cases "sync_fault fl = None \<and> rename_fault fl = None \<and> fs (d @ [n]) \<noteq> Some Dir")
        case True
        then show thesis using assms(2) c w st by (intro written) (auto simp: defs)
      next
        case False
        then show thesis using assms(2) c w st
          by (intro failed) (auto simp: defs no_faults_def split: option.splits)
      qed
    qed
  qed
qed

lemma only_temp_remove:
  assumes "writable fs d n rnd" and "only_temp fs (d @ [temp_name n rnd]) bytes s"
  shows "(case fs_remove s (abs_path (d @ [temp_name n rnd])) of Inl _ \<Rightarrow> s | Inr s' \<Rightarrow> s') = fs"
proof -
  note W = writableD [OF assms(1)]
  let ?t = "d @ [temp_name n rnd]"
  from assms(2) consider "s = fs" | k where "s = fs(?t \<mapsto> File (take k bytes))"
    by (auto simp: only_temp_def)
  then show ?thesis
  proof cases
    case 1
    have "fs_remove fs (abs_path ?t) = Inl ENOENT"
      using W by (simp add: fs_remove_def locate_canonical wf_fs_Some_dir)
    then show ?thesis using 1 by simp
  next
    case 2
    have "wf_fs s" using wf_fs_set [OF W(1,2,5)] W(4) 2 by simp
    moreover have "s d = Some Dir" "s ?t = Some (File (take k bytes))" using 2 W(2) by simp_all
    ultimately have "fs_remove s (abs_path ?t) = Inr (s(?t := None))" by (rule fs_remove_canonical)
    moreover have "s(?t := None) = fs" using 2 W(4) by (auto simp: fun_eq_iff)
    ultimately show ?thesis by simp
  qed
qed

lemma only_temp_wf:
  assumes "writable fs d n rnd" and "only_temp fs (d @ [temp_name n rnd]) bytes s"
  shows "wf_fs s"
proof -
  note W = writableD [OF assms(1)]
  have "wf_fs (fs(d @ [temp_name n rnd] \<mapsto> File b))" for b using wf_fs_set [OF W(1,2,5)] W(4) by simp
  then show ?thesis using assms(2) W(1) by (auto simp: only_temp_def)
qed

lemma write_atomic_cases:
  assumes "writable fs d n rnd"
    and "write_atomic fs (abs_path (d @ [n])) bytes rnd fl = (result, hist)"
  obtains (failed) "isl result" "\<forall>s \<in> set hist. only_temp fs (d @ [temp_name n rnd]) bytes s"
      "remove_fault fl = None \<Longrightarrow> last (fs # hist) = fs" "fl = no_faults \<Longrightarrow> fs (d @ [n]) = Some Dir"
  | (written) h where "result = Inr ()" "fs (d @ [n]) \<noteq> Some Dir" "hist = h @ [fs(d @ [n] \<mapsto> File bytes)]"
      "\<forall>s \<in> set h. only_temp fs (d @ [temp_name n rnd]) bytes s"
proof -
  let ?tmp = "abs_path (d @ [temp_name n rnd])"
  obtain r h where inner: "write_inner fs (abs_path (d @ [n])) ?tmp bytes fl = (r, h)" by force
  have tmp: "abs_path d @ [Normal (temp_name n rnd)] = ?tmp" by (simp add: abs_path_def)
  note unfold = assms(2) [unfolded write_atomic_def, simplified, unfolded tmp inner Let_def, simplified]
  from assms(1) inner show thesis
  proof (cases rule: write_inner_cases)
    case failed
    have self: "only_temp fs (d @ [temp_name n rnd]) bytes fs" by (simp add: only_temp_def)
    have "only_temp fs (d @ [temp_name n rnd]) bytes (last (fs # h))"
      using failed(2) self by (cases h rule: rev_cases) auto
    note rm = only_temp_remove [OF assms(1) this]
    show thesis
    proof (cases "remove_fault fl")
      case (Some e')
      then show thesis using unfold failed by (intro that(1)) (auto simp: no_faults_def split: sum.splits)
    next
      case None
      show thesis
      proof (cases "fs_remove (last (fs # h)) ?tmp")
        case (Inl e')
        then show thesis using unfold failed None rm
          by (intro that(1)) (auto split: if_splits sum.splits)
      next
        case (Inr fs')
        then show thesis using unfold failed None rm self
          by (intro that(1)) (auto split: if_splits sum.splits)
      qed
    qed
  next
    case (written h')
    then show thesis using unfold that(2) by auto
  qed
qed

section \<open>Properties\<close>

text \<open>
  C5: A crash never leaves a torn file. In every state that the file system goes through, the target
  has its old contents (up to some point) or exactly the new ones (from then on, with nothing else
  changed), and no path other than the target and the temporary file is ever touched, whichever of
  the calls fail and however much of the data they have written.
\<close>

theorem write_atomic_crash_safe:
  assumes "writable fs d n rnd"
    and "write_atomic fs (abs_path (d @ [n])) bytes rnd fl = (result, hist)"
  shows "(\<forall>s \<in> set hist. \<forall>q. q \<noteq> d @ [n] \<and> q \<noteq> d @ [temp_name n rnd] \<longrightarrow> s q = fs q) \<and>
    (\<exists>before after. hist = before @ after \<and> (\<forall>s \<in> set before. s (d @ [n]) = fs (d @ [n])) \<and>
       (\<forall>s \<in> set after. s = fs(d @ [n] \<mapsto> File bytes)))"
proof -
  have tp: "d @ [n] \<noteq> d @ [temp_name n rnd]" using temp_name_neq [of n rnd] by simp
  have ot: "s q = fs q" if "only_temp fs (d @ [temp_name n rnd]) bytes s" "q \<noteq> d @ [temp_name n rnd]" for s q
    using that by (auto simp: only_temp_def)
  from assms show ?thesis
  proof (cases rule: write_atomic_cases)
    case failed
    then show ?thesis using ot tp by (intro conjI exI [of _ hist] exI [of _ "[]"]) auto
  next
    case (written h)
    then show ?thesis using ot tp
      by (intro conjI exI [of _ h] exI [of _ "[fs(d @ [n] \<mapsto> File bytes)]"]) auto
  qed
qed

text \<open>
  All or nothing. When the write succeeds, the only change of the whole file system is that the
  target has the new contents: no temporary file is left. When it fails, nothing has changed at all,
  unless the removal of the temporary file fails as well.
\<close>

theorem write_atomic_all_or_nothing:
  assumes "writable fs d n rnd"
    and "write_atomic fs (abs_path (d @ [n])) bytes rnd fl = (result, hist)"
  shows "case result of
      Inr _ \<Rightarrow> last (fs # hist) = fs(d @ [n] \<mapsto> File bytes)
    | Inl _ \<Rightarrow> remove_fault fl = None \<longrightarrow> last (fs # hist) = fs"
  using assms by (cases rule: write_atomic_cases) (auto split: sum.splits)

text \<open>Without faults a write to a place that is not a directory succeeds.\<close>

theorem write_atomic_succeeds:
  assumes "writable fs d n rnd" and "fs (d @ [n]) \<noteq> Some Dir"
  shows "fst (write_atomic fs (abs_path (d @ [n])) bytes rnd no_faults) = Inr ()"
proof -
  obtain r h where eq: "write_atomic fs (abs_path (d @ [n])) bytes rnd no_faults = (r, h)" by force
  from assms(1) eq show ?thesis
    by (cases rule: write_atomic_cases) (use assms(2) eq in auto)
qed

text \<open>A directory in which a file is replaced while the disk is full after one byte.\<close>

definition small_tree :: "(fpath \<times> node) list" where
  "small_tree = [([], Dir), ([lit ''d''], Dir), ([lit ''d'', lit ''f''], File [1, 2])]"

definition disk_full :: faults where
  "disk_full = no_faults\<lparr>write_fault := Some (1, ENOSPC)\<rparr>"

lemma writable_small: "writable (map_of small_tree) [lit ''d''] (lit ''f'') (lit ''00'')"
  unfolding writable_def by (rule conjI, rule wf_fs_map_of) code_simp+

lemma write_atomic_crash_safe_witness:
  "\<exists>result hist. write_atomic (map_of small_tree) (abs_path ([lit ''d''] @ [lit ''f''])) [7, 8, 9] (lit ''00'') disk_full
     = (result, hist) \<and> length hist = 3 \<and>
   (\<exists>before after. hist = before @ after \<and>
     (\<forall>s \<in> set before. s ([lit ''d''] @ [lit ''f'']) = map_of small_tree ([lit ''d''] @ [lit ''f''])) \<and>
       (\<forall>s \<in> set after. s = (map_of small_tree)([lit ''d''] @ [lit ''f''] \<mapsto> File [7, 8, 9])))"
proof -
  let ?w = "write_atomic (map_of small_tree) (abs_path ([lit ''d''] @ [lit ''f''])) [7, 8, 9] (lit ''00'') disk_full"
  have "length (snd ?w) = 3" by code_simp
  then show ?thesis
    using write_atomic_crash_safe [OF writable_small, of "[7, 8, 9]" disk_full "fst ?w" "snd ?w"]
    by (intro exI [of _ "fst ?w"] exI [of _ "snd ?w"]) simp
qed

lemma write_atomic_all_or_nothing_witness:
  "case fst (write_atomic (map_of small_tree) (abs_path ([lit ''d''] @ [lit ''f''])) [7, 8, 9] (lit ''00'') disk_full) of
     Inr _ \<Rightarrow> False
   | Inl _ \<Rightarrow> last (map_of small_tree #
       snd (write_atomic (map_of small_tree) (abs_path ([lit ''d''] @ [lit ''f''])) [7, 8, 9] (lit ''00'') disk_full))
     = map_of small_tree"
proof -
  let ?w = "write_atomic (map_of small_tree) (abs_path ([lit ''d''] @ [lit ''f''])) [7, 8, 9] (lit ''00'') disk_full"
  have "isl (fst ?w)" by code_simp
  then show ?thesis
    using write_atomic_all_or_nothing [OF writable_small, of "[7, 8, 9]" disk_full "fst ?w" "snd ?w"]
    by (cases "fst ?w") (simp_all add: disk_full_def no_faults_def)
qed

lemma write_atomic_succeeds_witness:
  "fst (write_atomic (map_of small_tree) (abs_path ([lit ''d''] @ [lit ''f''])) [7] (lit ''00'') no_faults) = Inr ()"
  by (rule write_atomic_succeeds [OF writable_small]) code_simp

end
