(* ===== verification/Write_Tool.thy ===== *)
theory Write_Tool
  imports Tool_Types Workspace_Path Atomic_Write
begin

text \<open>
  \<^theory_text>\<open>tools/write.rs\<close>: resolve, create the parent directories, write atomically. The path is resolved
  before the lock of the file is held, so the file system may have changed in between: \<open>fs0\<close> is the
  one the sandbox sees, \<open>fs\<close> the one under the lock.
\<close>

section \<open>The tool\<close>

text \<open>
  The result is given with the states the file system goes through, in order. \<open>mkdir_fault\<close> is an
  error of \<^theory_text>\<open>create_dir_all\<close> that has nothing to do with the tree.
\<close>

definition write_run ::
  "path \<Rightarrow> fs \<Rightarrow> fs \<Rightarrow> write_params \<Rightarrow> rstr \<Rightarrow> io_error option \<Rightarrow> faults
   \<Rightarrow> (rstr + write_output) \<times> fs list" where
  "write_run base fs0 fs params rnd mkdir_fault fl =
     (case resolve_in_workspace fs0 base (wp_path params) of
        Inl e \<Rightarrow> (Inl (path_error_text e), [])
      | Inr resolved \<Rightarrow>
          (let (created, fs1) =
             (case path_parent resolved of
                None \<Rightarrow> (Inr (), fs)
              | Some parent \<Rightarrow>
                  (case mkdir_fault of Some e \<Rightarrow> (Inl e, fs) | None \<Rightarrow> create_dir_all fs parent))
           in case created of
                Inl e \<Rightarrow>
                  (Inl (lit ''failed to create parent directory for '' @ wp_path params @ lit '': ''
                        @ io_error_text e), [fs1])
              | Inr _ \<Rightarrow>
                  (let (written, hist) = write_atomic fs1 resolved (utf8_encode (wp_content params)) rnd fl
                   in (case written of
                         Inl e \<Rightarrow> Inl (lit ''failed to write '' @ wp_path params @ lit '': '' @ e)
                       | Inr _ \<Rightarrow> Inr \<lparr>wo_success = True, wo_path = wp_path params,
                                     wo_bytes = str_len (wp_content params)\<rparr>,
                       fs1 # hist))))"

section \<open>Creating the parents\<close>

text \<open>
  Where a resolved path lies: the existing part \<open>a\<close> is canonical, and the first name behind it
  cannot be looked up, for a reason other than the number of links.
\<close>

definition settled :: "fs \<Rightarrow> fpath \<Rightarrow> rstr list \<Rightarrow> bool" where
  "settled fs a ns \<longleftrightarrow> wf_fs fs \<and> canonical fs a \<and>
     (ns \<noteq> [] \<longrightarrow> (\<exists>e. canonicalize fs (abs_path (a @ [hd ns])) = Inl e \<and> e \<noteq> ELOOP)) \<and>
     (\<forall>n \<in> set ns. plain_name n)"

text \<open>The tree in which the missing directories among \<open>a\<close>, \<open>a/n1\<close>, ... have been created.\<close>

definition with_dirs :: "fs \<Rightarrow> fpath \<Rightarrow> rstr list \<Rightarrow> fs" where
  "with_dirs fs a ms =
     (\<lambda>q. if fs q = None \<and> (\<exists>k \<le> length ms. q = a @ take k ms) then Some Dir else fs q)"

lemma with_dirs_Nil [simp]: "fs a \<noteq> None \<Longrightarrow> with_dirs fs a [] = fs"
  by (auto simp: with_dirs_def fun_eq_iff)

lemma with_dirs_snoc:
  assumes "fs (a @ ms @ [m]) = None"
  shows "with_dirs fs a (ms @ [m]) = (with_dirs fs a ms)(a @ ms @ [m] \<mapsto> Dir)"
proof
  fix q
  have ex: "(\<exists>k \<le> length (ms @ [m]). q = a @ take k (ms @ [m])) \<longleftrightarrow>
      (\<exists>k \<le> length ms. q = a @ take k ms) \<or> q = a @ ms @ [m]"
    by (auto simp: le_Suc_eq)
  show "with_dirs fs a (ms @ [m]) q = ((with_dirs fs a ms)(a @ ms @ [m] \<mapsto> Dir)) q"
    unfolding with_dirs_def ex using assms by auto
qed

lemma canonicalize_below:
  assumes "wf_fs fs" and "canonicalize fs (abs_path p) = Inl e"
  shows "canonicalize fs (abs_path (p @ q)) = Inl e"
proof -
  have "walk fs False max_links [] (abs_path p) = Inl e"
    using assms(2) by (cases "walk fs False max_links [] (abs_path p)") (auto simp: canonicalize_def)
  moreover have "abs_path (p @ q) = abs_path p @ map Normal q" by (simp add: abs_path_def)
  ultimately have "walk fs False max_links [] (abs_path (p @ q)) = Inl e"
    by (simp only: walk_append_lookup sum.case)
  then show ?thesis by (simp add: canonicalize_def)
qed

text \<open>What \<^theory_text>\<open>create_dir_all\<close> does below a settled place: all missing directories, or nothing.\<close>

definition dirs_created :: "fs \<Rightarrow> fpath \<Rightarrow> rstr list \<Rightarrow> (io_error + unit) \<times> fs \<Rightarrow> bool" where
  "dirs_created fs a ms r \<longleftrightarrow>
     (case r of
        (Inl _, fs') \<Rightarrow> fs' = fs \<and> \<not> (fs a = Some Dir \<and> (ms \<noteq> [] \<longrightarrow> fs (a @ [hd ms]) = None))
      | (Inr _, fs') \<Rightarrow> fs' = with_dirs fs a ms \<and> wf_fs fs' \<and> fs' (a @ ms) = Some Dir \<and>
          fs a = Some Dir \<and> (ms \<noteq> [] \<longrightarrow> fs (a @ [hd ms]) = None))"

lemma canonicalize_missing:
  assumes "wf_fs fs" and "fs a = Some Dir" and "fs (a @ [n]) = None"
  shows "canonicalize fs (abs_path (a @ [n])) = Inl ENOENT"
proof -
  have "walk fs False max_links [] (abs_path a) = Inr (max_links, a)"
    using walk_canonical [of fs "[]" a] assms(1,2)
    by (simp add: abs_path_def wf_fs_root wf_fs_Some_dir)
  moreover have "walk fs False max_links a [Normal n] = Inl ENOENT" using assms(2,3) by simp
  moreover have "abs_path (a @ [n]) = abs_path a @ [Normal n]" by (simp add: abs_path_def)
  ultimately have "walk fs False max_links [] (abs_path (a @ [n])) = Inl ENOENT"
    by (simp only: walk_append_lookup sum.case prod.case)
  then show ?thesis by (simp add: canonicalize_def)
qed

lemma create_dir_all_existing:
  assumes "wf_fs fs" and "canonical fs a"
  shows "dirs_created fs a [] (create_dir_all fs (abs_path a))"
proof -
  have ne: "abs_path a \<noteq> []" by (simp add: abs_path_def)
  have ex: "fs a \<noteq> None" using assms(2) by (auto simp: canonical_def)
  have "fs_mkdir fs (abs_path a) = Inl EEXIST"
  proof (cases a rule: rev_cases)
    case Nil
    then show ?thesis by (simp add: fs_mkdir_def)
  next
    case (snoc b x)
    have "fs b = Some Dir" using canonical_dir [OF assms(2) snoc] by simp
    then show ?thesis using ex snoc assms(1)
      by (simp add: fs_mkdir_abs canonicalize_canonical wf_fs_Some_dir)
  qed
  then show ?thesis using ne ex fs_is_dir_canonical [OF assms] assms(1)
    by (subst create_dir_all.simps) (simp add: dirs_created_def)
qed

lemma settled_butlast: "settled fs a (ms @ [m]) \<Longrightarrow> settled fs a ms"
  by (cases ms) (auto simp: settled_def)

lemma settled_fails:
  assumes "settled fs a ns" and "ns \<noteq> []"
  obtains e where "canonicalize fs (abs_path (a @ [hd ns])) = Inl e"
    "\<And>k. 0 < k \<Longrightarrow> k \<le> length ns \<Longrightarrow> canonicalize fs (abs_path (a @ take k ns)) = Inl e"
proof -
  obtain e where e: "canonicalize fs (abs_path (a @ [hd ns])) = Inl e"
    using assms unfolding settled_def by blast
  have "canonicalize fs (abs_path (a @ take k ns)) = Inl e" if "0 < k" for k
  proof -
    have "a @ take k ns = (a @ [hd ns]) @ tl (take k ns)" using assms(2) that by (cases ns; cases k) simp_all
    then show ?thesis using canonicalize_below [OF _ e] assms(1) by (metis settled_def)
  qed
  then show thesis using that e by blast
qed

lemma create_dir_all_first:
  assumes "settled fs a [m]"
  shows "dirs_created fs a [m] (create_dir_all fs (abs_path (a @ [m])))"
proof -
  have wf: "wf_fs fs" and ca: "canonical fs a" and pm: "plain_name m"
    using assms by (simp_all add: settled_def)
  obtain e where e: "canonicalize fs (abs_path (a @ [m])) = Inl e"
    using assms unfolding settled_def by auto
  have "canonicalize fs (abs_path a) = Inr a" using wf ca by (rule canonicalize_canonical)
  then have mk: "fs_mkdir fs (abs_path (a @ [m])) =
      (if fs a \<noteq> Some Dir then Inl ENOTDIR
       else if fs (a @ [m]) = None then Inr (fs(a @ [m] \<mapsto> Dir)) else Inl EEXIST)"
    by (simp add: fs_mkdir_abs)
  have "wf_fs (fs(a @ [m] \<mapsto> Dir))" if "fs a = Some Dir" using wf_fs_set [OF wf that pm] by simp
  moreover have "with_dirs fs a [m] = fs(a @ [m] \<mapsto> Dir)" if "fs a \<noteq> None" "fs (a @ [m]) = None"
    using with_dirs_snoc [of fs a "[]" m] that by simp
  ultimately show ?thesis using mk e
    by (subst create_dir_all.simps) (auto simp: dirs_created_def fs_is_dir_def abs_path_def)
qed

lemma mkdir_below_new:
  assumes "wf_fs fs" and "ms \<noteq> []" and "plain_name m" and "dirs_created fs a ms (Inr u, fs1)"
  shows "fs_mkdir fs1 (abs_path (a @ ms @ [m])) = Inr (with_dirs fs a (ms @ [m]))"
    and "dirs_created fs a (ms @ [m]) (Inr (), with_dirs fs a (ms @ [m]))"
proof -
  have f1: "fs1 = with_dirs fs a ms" "wf_fs fs1" "fs1 (a @ ms) = Some Dir" "fs a = Some Dir"
    "fs (a @ [hd ms]) = None"
    using assms(2,4) by (auto simp: dirs_created_def)
  have "a @ ms @ [m] = (a @ [hd ms]) @ (tl ms @ [m])" using assms(2) by (cases ms) simp_all
  then have none: "fs (a @ ms @ [m]) = None"
    using wf_fs_prefixes [OF assms(1), of "a @ [hd ms]" "tl ms @ [m]"] f1(5)
    by (metis append_is_Nil_conv not_Cons_self2 not_None_eq option.distinct(1))
  then have none1: "fs1 (a @ ms @ [m]) = None"
    unfolding f1(1) with_dirs_def by (auto simp: append_eq_conv_conj)
  have w: "with_dirs fs a (ms @ [m]) = fs1(a @ ms @ [m] \<mapsto> Dir)"
    using with_dirs_snoc [of fs a ms m] none f1(1) by simp
  have "canonicalize fs1 (abs_path (a @ ms)) = Inr (a @ ms)"
    using f1 by (simp add: canonicalize_canonical wf_fs_Some_dir)
  then show "fs_mkdir fs1 (abs_path (a @ ms @ [m])) = Inr (with_dirs fs a (ms @ [m]))"
    using fs_mkdir_abs [of fs1 "a @ ms" m] f1(3) none1 w by simp
  have "wf_fs (fs1(a @ ms @ [m] \<mapsto> Dir))" using wf_fs_set [OF f1(2,3) assms(3)] none1 by simp
  then show "dirs_created fs a (ms @ [m]) (Inr (), with_dirs fs a (ms @ [m]))"
    using w f1(4,5) assms(2) by (simp add: dirs_created_def)
qed

lemma create_dir_all_settled:
  assumes "settled fs a ms"
  shows "dirs_created fs a ms (create_dir_all fs (abs_path (a @ ms)))"
  using assms
proof (induction ms rule: rev_induct)
  case Nil
  then show ?case by (simp add: settled_def create_dir_all_existing)
next
  case (snoc m ms)
  have wf: "wf_fs fs" and pm: "plain_name m" using snoc.prems by (simp_all add: settled_def)
  show ?case
  proof (cases "ms = []")
    case True
    then show ?thesis using snoc.prems create_dir_all_first by simp
  next
    case False
    obtain e where e: "canonicalize fs (abs_path (a @ [hd ms])) = Inl e"
      "canonicalize fs (abs_path (a @ ms)) = Inl e" "canonicalize fs (abs_path (a @ ms @ [m])) = Inl e"
    proof (rule settled_fails [OF snoc.prems])
      fix e
      assume h: "canonicalize fs (abs_path (a @ [hd (ms @ [m])])) = Inl e"
        "\<And>k. 0 < k \<Longrightarrow> k \<le> length (ms @ [m]) \<Longrightarrow> canonicalize fs (abs_path (a @ take k (ms @ [m]))) = Inl e"
      show thesis using that [of e] h(1) h(2) [of "length ms"] h(2) [of "Suc (length ms)"] False by simp
    qed simp
    have mk: "fs_mkdir fs (abs_path (a @ ms @ [m])) = Inl e"
      using fs_mkdir_abs [of fs "a @ ms" m] e(2) by simp
    have "path_parent (abs_path (a @ ms @ [m])) = Some (abs_path (a @ ms))" by (simp add: butlast_append)
    moreover have "abs_path (a @ ms @ [m]) \<noteq> []" by (simp add: abs_path_def)
    moreover have "\<not> fs_is_dir fs (abs_path (a @ ms @ [m]))" using e(3) by (simp add: fs_is_dir_def)
    ultimately have facts: "abs_path (a @ ms @ [m]) \<noteq> []" "\<not> fs_is_dir fs (abs_path (a @ ms @ [m]))"
      "path_parent (abs_path (a @ ms @ [m])) = Some (abs_path (a @ ms))" by blast+
    obtain res fs1 where c: "create_dir_all fs (abs_path (a @ ms)) = (res, fs1)" by force
    have IH: "dirs_created fs a ms (res, fs1)" using snoc.IH [OF settled_butlast [OF snoc.prems]] c by simp
    have missing: "e = ENOENT" if "fs a = Some Dir" "fs (a @ [hd ms]) = None"
      using e(1) canonicalize_missing [OF wf that] by simp
    show ?thesis
    proof (cases "e = ENOENT \<and> res = Inr ()")
      case True
      then show ?thesis using facts mk c mkdir_below_new [OF wf False pm, of a "()" fs1] IH
        by (subst create_dir_all.simps) simp
    next
      case no: False
      then have "\<not> (fs a = Some Dir \<and> fs (a @ [hd ms]) = None)"
        using missing IH False by (cases res) (auto simp: dirs_created_def)
      then show ?thesis using no facts mk c IH False
        by (subst create_dir_all.simps) (cases res; auto simp: dirs_created_def)
    qed
  qed
qed

section \<open>A resolved path is settled\<close>

lemma lexical_normalize_names:
  "Normal w \<in> set (lexical_normalize p) \<Longrightarrow> Normal w \<in> set p"
proof -
  have step: "Normal w \<in> set (normalize_step acc c) \<Longrightarrow> Normal w \<in> set acc \<or> Normal w = c" for acc c
    by (cases c) (auto simp: normalize_step_def path_push_def path_parent_def
        split: option.splits if_splits dest: in_set_butlastD)
  have "Normal w \<in> set (foldl normalize_step acc p) \<Longrightarrow> Normal w \<in> set acc \<or> Normal w \<in> set p" for acc
    by (induction p arbitrary: acc) (auto dest: step)
  then show "Normal w \<in> set (lexical_normalize p) \<Longrightarrow> Normal w \<in> set p"
    by (fastforce simp: lexical_normalize_def)
qed

lemma resolve_settled:
  assumes "workspace fs r" and "resolve_in_workspace fs (abs_path r) requested = Inr target"
    and "\<forall>k. canonicalize fs (take k (lexical_normalize (path_join (abs_path r) requested))) \<noteq> Inl ELOOP"
  obtains a ns where "target = abs_path (a @ ns)" "settled fs a ns" "prefix r (a @ ns)"
proof -
  let ?n = "lexical_normalize (path_join (abs_path r) requested)"
  have wf: "wf_fs fs" and d: "fs r = Some Dir" using assms(1) by (simp_all add: workspace_def)
  obtain A ns a where R: "?n = A @ map Normal ns" "canonicalize fs A = Inr a" "target = abs_path (a @ ns)"
      "prefix (abs_path r) target" "ns \<noteq> [] \<Longrightarrow> \<exists>e. canonicalize fs (A @ [Normal (hd ns)]) = Inl e"
    by (rule resolve_in_workspace_Inr [OF assms(2)]) blast
  have "\<exists>e. canonicalize fs (abs_path (a @ [hd ns])) = Inl e \<and> e \<noteq> ELOOP" if ne: "ns \<noteq> []"
  proof -
    obtain e where e: "canonicalize fs (A @ [Normal (hd ns)]) = Inl e" using R(5) [OF ne] by blast
    have "take (length A + 1) ?n = A @ [Normal (hd ns)]" unfolding R(1) using ne by (cases ns) simp_all
    then have "e \<noteq> ELOOP" using assms(3) e by metis
    then show ?thesis using canonicalize_behind [OF wf R(2) e, of "[]"] by simp
  qed
  moreover have "plain_name n" if "n \<in> set ns" for n
  proof -
    have "Normal n \<in> set ?n" unfolding R(1) using that by simp
    then have "Normal n \<in> set (path_join (abs_path r) requested)" by (rule lexical_normalize_names)
    then have "n \<in> set r \<or> Normal n \<in> set (components requested)"
      by (auto simp: path_join_def abs_path_def split: if_splits)
    then show ?thesis using wf_fs_plain [OF wf d] components_plain by blast
  qed
  ultimately have "settled fs a ns"
    using wf canonicalize_Inr_canonical [OF wf R(2)] by (simp add: settled_def)
  then show thesis using that R(3,4) by simp
qed

lemma settled_lookup:
  assumes "settled fs a ns" and "canonicalize fs (abs_path (a @ ns)) = Inr q"
  shows "ns = [] \<and> q = a"
proof -
  have wf: "wf_fs fs" using assms(1) by (simp add: settled_def)
  have "ns = []"
  proof (rule ccontr)
    assume ne: "ns \<noteq> []"
    then obtain e where "canonicalize fs (abs_path (a @ [hd ns])) = Inl e"
      using assms(1) by (auto simp: settled_def)
    then have "canonicalize fs (abs_path ((a @ [hd ns]) @ tl ns)) = Inl e"
      by (rule canonicalize_below [OF wf])
    then show False using assms(2) ne by simp
  qed
  then show ?thesis using assms canonicalize_canonical [OF wf, of a] by (simp add: settled_def)
qed

section \<open>The states of a write\<close>

text \<open>
  The situation in which the tool writes: the workspace, a request that the sandbox accepts without
  running out of links, and a random string that is not taken. The target is \<open>d/n\<close>. The theorems on
  \<open>write_run\<close> and \<open>edit_run\<close> that start from it take the same tree for the resolution of the path and
  for the write; the code resolves before it waits for the lock, and \<^theory_text>\<open>Confinement\<close> shows what a link
  that is put in place in between does.
\<close>

definition write_setting ::
  "fs \<Rightarrow> fpath \<Rightarrow> rstr \<Rightarrow> fpath \<Rightarrow> rstr \<Rightarrow> rstr \<Rightarrow> bool" where
  "write_setting fs r requested d n rnd \<longleftrightarrow>
     workspace fs r \<and> resolve_in_workspace fs (abs_path r) requested = Inr (abs_path (d @ [n])) \<and>
     (\<forall>k. canonicalize fs (take k (lexical_normalize (path_join (abs_path r) requested))) \<noteq> Inl ELOOP) \<and>
     (\<forall>c \<in> set rnd. is_hexdigit c) \<and> fs (d @ [temp_name n rnd]) = None"

text \<open>The trees that differ from \<open>fs\<close> only in new directories on the way to \<open>d\<close>.\<close>

definition dirs_on_the_way :: "fs \<Rightarrow> fpath \<Rightarrow> fs \<Rightarrow> bool" where
  "dirs_on_the_way fs d s \<longleftrightarrow> (\<forall>q. s q = fs q \<or> fs q = None \<and> s q = Some Dir \<and> prefix q d)"

lemma with_dirs_on_the_way: "dirs_on_the_way fs (a @ ms) (with_dirs fs a ms)"
  unfolding dirs_on_the_way_def with_dirs_def by (auto simp: prefix_def) (metis append_take_drop_id)

text \<open>The parent of a settled place is settled.\<close>

lemma setting_parent_settled:
  assumes "write_setting fs r requested d n rnd"
  obtains b ms where "settled fs b ms" "d = b @ ms" "plain_name n"
proof -
  have S: "workspace fs r" "resolve_in_workspace fs (abs_path r) requested = Inr (abs_path (d @ [n]))"
    "\<forall>k. canonicalize fs (take k (lexical_normalize (path_join (abs_path r) requested))) \<noteq> Inl ELOOP"
    using assms by (simp_all add: write_setting_def)
  obtain a ns where R: "abs_path (d @ [n]) = abs_path (a @ ns)" "settled fs a ns"
    by (rule resolve_settled [OF S])
  have eq: "d @ [n] = a @ ns" using R(1) by simp
  have wf: "wf_fs fs" using R(2) by (simp add: settled_def)
  show thesis
  proof (cases ns rule: rev_cases)
    case Nil
    have can: "canonical fs (d @ [n])" using R(2) eq Nil by (simp add: settled_def)
    then have "fs d = Some Dir" using canonical_dir [OF can, of d "[n]"] by simp
    moreover have "plain_name n"
      using can wf_fs_plain [OF wf, of "d @ [n]" _ n] by (auto simp: canonical_def)
    ultimately show thesis using that [of d "[]"] wf by (simp add: settled_def wf_fs_Some_dir)
  next
    case (snoc ms m)
    then have "d = a @ ms" "n = m" using eq by simp_all
    moreover have "settled fs a ms" using R(2) snoc settled_butlast by simp
    moreover have "plain_name m" using R(2) snoc by (simp add: settled_def)
    ultimately show thesis using that [of a ms] by simp
  qed
qed

text \<open>If directories cannot be made below a settled place, something else is in the way.\<close>

lemma settled_blocked:
  assumes "settled fs b ms" and "\<not> (fs b = Some Dir \<and> (ms \<noteq> [] \<longrightarrow> fs (b @ [hd ms]) = None))"
  shows "\<exists>p x. prefix p (b @ ms) \<and> fs p = Some x \<and> x \<noteq> Dir"
proof (cases "fs b = Some Dir")
  case True
  then have ms: "ms \<noteq> []" "fs (b @ [hd ms]) \<noteq> None" using assms(2) by auto
  then obtain x where x: "fs (b @ [hd ms]) = Some x" by auto
  have "prefix (b @ [hd ms]) (b @ ms)" using ms(1) by (cases ms) simp_all
  moreover have "x \<noteq> Dir"
  proof
    assume "x = Dir"
    then have "canonicalize fs (abs_path (b @ [hd ms])) = Inr (b @ [hd ms])"
      using x assms(1) by (simp add: settled_def canonicalize_canonical wf_fs_Some_dir)
    then show False using assms(1) ms(1) by (auto simp: settled_def)
  qed
  ultimately show ?thesis using x by blast
next
  case False
  then obtain x where "fs b = Some x" "x \<noteq> Dir" using assms(1) by (auto simp: settled_def canonical_def)
  then show ?thesis by (intro exI [of _ b] exI [of _ x]) simp
qed

lemma create_parents:
  assumes "write_setting fs r requested d n rnd"
    and "create_dir_all fs (abs_path d) = (res, fs1)"
  shows "dirs_on_the_way fs d fs1 \<and>
    (case res of
       Inl _ \<Rightarrow> fs1 = fs \<and> (\<exists>p x. prefix p d \<and> fs p = Some x \<and> x \<noteq> Dir)
     | Inr _ \<Rightarrow> writable fs1 d n rnd \<and> fs1 (d @ [n]) = fs (d @ [n]))"
proof -
  obtain b ms where b: "settled fs b ms" "d = b @ ms" "plain_name n"
    by (rule setting_parent_settled [OF assms(1)])
  have dc: "dirs_created fs b ms (res, fs1)" using create_dir_all_settled [OF b(1)] assms(2) b(2) by simp
  show ?thesis
  proof (cases res)
    case (Inl e)
    then have no: "fs1 = fs" "\<not> (fs b = Some Dir \<and> (ms \<noteq> [] \<longrightarrow> fs (b @ [hd ms]) = None))"
      using dc by (simp_all add: dirs_created_def)
    show ?thesis using Inl no(1) settled_blocked [OF b(1) no(2)] b(2) by (simp add: dirs_on_the_way_def)
  next
    case (Inr u)
    then have f1: "fs1 = with_dirs fs b ms" "wf_fs fs1" "fs1 d = Some Dir"
      using dc b(2) unfolding dirs_created_def by auto
    have way: "dirs_on_the_way fs d fs1" using with_dirs_on_the_way f1(1) b(2) by simp
    have "\<not> prefix (d @ [x]) d" for x by (auto dest: prefix_length_le)
    then have same: "fs1 (d @ [x]) = fs (d @ [x])" for x using way unfolding dirs_on_the_way_def by blast
    show ?thesis using Inr f1 way same assms(1) b(3) by (simp add: writable_def write_setting_def)
  qed
qed

text \<open>All that a run of the tool can do to the file system.\<close>

lemma write_run_cases:
  assumes "write_setting fs r (wp_path params) d n rnd"
    and "write_run (abs_path r) fs fs params rnd mf fl = (result, hist)"
  obtains (no_parent) fs1 where "isl result" "hist = [fs1]" "fs1 = fs"
      "mf = None \<Longrightarrow> \<exists>p x. prefix p d \<and> fs p = Some x \<and> x \<noteq> Dir"
  | (failed) fs1 h where "isl result" "hist = fs1 # h" "dirs_on_the_way fs d fs1" "writable fs1 d n rnd"
      "fs1 (d @ [n]) = fs (d @ [n])"
      "\<forall>s \<in> set h. only_temp fs1 (d @ [temp_name n rnd]) (utf8_encode (wp_content params)) s"
      "remove_fault fl = None \<Longrightarrow> last (fs1 # h) = fs1" "fl = no_faults \<Longrightarrow> fs (d @ [n]) = Some Dir"
  | (written) fs1 h where
      "result = Inr \<lparr>wo_success = True, wo_path = wp_path params, wo_bytes = str_len (wp_content params)\<rparr>"
      "hist = fs1 # h @ [fs1(d @ [n] \<mapsto> File (utf8_encode (wp_content params)))]"
      "dirs_on_the_way fs d fs1" "writable fs1 d n rnd" "fs1 (d @ [n]) = fs (d @ [n])"
      "\<forall>s \<in> set h. only_temp fs1 (d @ [temp_name n rnd]) (utf8_encode (wp_content params)) s"
      "fs1 (d @ [n]) \<noteq> Some Dir"
proof -
  have res: "resolve_in_workspace fs (abs_path r) (wp_path params) = Inr (abs_path (d @ [n]))"
    using assms(1) by (simp add: write_setting_def)
  have par: "path_parent (abs_path (d @ [n])) = Some (abs_path d)" by simp
  note run = assms(2) [unfolded write_run_def, simplified res par sum.case option.case]
  show thesis
  proof (cases mf)
    case (Some e)
    then show thesis using run no_parent by auto
  next
    case None
    obtain res fs1 where c: "create_dir_all fs (abs_path d) = (res, fs1)" by force
    note cp = create_parents [OF assms(1) c]
    show thesis
    proof (cases res)
      case (Inl e)
      then show thesis using run None c cp no_parent by auto
    next
      case (Inr u)
      then have w: "writable fs1 d n rnd" and same: "fs1 (d @ [n]) = fs (d @ [n])"
        and way: "dirs_on_the_way fs d fs1"
        using cp by simp_all
      obtain r' h where at: "write_atomic fs1 (abs_path (d @ [n])) (utf8_encode (wp_content params)) rnd fl = (r', h)"
        by force
      note out = run [unfolded None option.case c Inr, simplified, unfolded at, simplified]
      from w at show thesis
      proof (cases rule: write_atomic_cases)
        case failed
        then obtain e where "r' = Inl e" by (cases r') auto
        then show thesis using out that(2) [of fs1 h] failed w same way by (auto simp: Let_def)
      next
        case (written h')
        then show thesis using out that(3) [of fs1 h'] w same way by (auto simp: Let_def)
      qed
    qed
  qed
qed

section \<open>Properties of the tool\<close>

text \<open>A missing place on the way to a directory in the workspace lies in the workspace.\<close>

lemma missing_inside:
  assumes "wf_fs fs" and "fs r = Some Dir" and "prefix r d" and "fs p = None" and "prefix p d"
  shows "prefix r p"
proof -
  consider "prefix r p" | "strict_prefix p r"
    using prefix_same_cases [OF assms(3,5)] by (auto simp: strict_prefix_def)
  then show ?thesis
  proof cases
    case 2
    then obtain t where "r = p @ t" "t \<noteq> []" by (auto simp: strict_prefix_def prefix_def)
    then have "fs p = Some Dir" using wf_fs_prefixes [OF assms(1), of p t Dir] assms(2) by simp
    then show ?thesis using assms(4) by simp
  qed
qed

lemma write_run_differences:
  assumes "write_setting fs r (wp_path params) d n rnd" and "d @ [n] \<noteq> r"
    and "write_run (abs_path r) fs fs params rnd mf fl = (result, hist)"
  shows "\<forall>s \<in> set hist. \<forall>q. s q \<noteq> fs q \<longrightarrow>
    prefix r q \<and> (q = d @ [n] \<or> q = d @ [temp_name n rnd] \<or> fs q = None \<and> s q = Some Dir \<and> prefix q d)"
proof (intro ballI allI impI)
  fix s q
  assume s: "s \<in> set hist" and q: "s q \<noteq> fs q"
  have W: "wf_fs fs" "fs r = Some Dir"
    and res: "resolve_in_workspace fs (abs_path r) (wp_path params) = Inr (abs_path (d @ [n]))"
    using assms(1) by (simp_all add: write_setting_def workspace_def)
  have "prefix r (d @ [n])"
    by (rule resolve_in_workspace_Inr [OF res]) simp
  then have rd: "prefix r d" using assms(2) by simp
  have dirs: "prefix r q \<and> fs q = None \<and> s q = Some Dir \<and> prefix q d"
    if "dirs_on_the_way fs d fs1" "s q = fs1 q" for fs1
    using that q missing_inside [OF W rd] unfolding dirs_on_the_way_def by metis
  have temp: "s q = fs1 q \<or> q = d @ [temp_name n rnd]"
    if "only_temp fs1 (d @ [temp_name n rnd]) bytes s" for fs1 bytes
    using that by (auto simp: only_temp_def)
  have "q = d @ [n] \<or> q = d @ [temp_name n rnd] \<or> prefix r q \<and> fs q = None \<and> s q = Some Dir \<and> prefix q d"
    using assms(1,3)
  proof (cases rule: write_run_cases)
    case (no_parent fs1)
    then show ?thesis using s q by simp
  next
    case (failed fs1 h)
    then show ?thesis using s dirs temp by auto
  next
    case (written fs1 h)
    then show ?thesis using s dirs temp by (auto split: if_splits)
  qed
  then show "prefix r q \<and> (q = d @ [n] \<or> q = d @ [temp_name n rnd] \<or> fs q = None \<and> s q = Some Dir \<and> prefix q d)"
    using rd by (auto intro: prefix_order.trans)
qed

lemma write_run_wf:
  assumes "write_setting fs r (wp_path params) d n rnd"
    and "write_run (abs_path r) fs fs params rnd mf fl = (result, hist)" and "s \<in> set hist"
  shows "wf_fs s"
  using assms(1,2)
proof (cases rule: write_run_cases)
  case (no_parent fs1)
  then show ?thesis using assms(1,3) by (simp add: write_setting_def workspace_def)
next
  case (failed fs1 h)
  then show ?thesis using assms(3) only_temp_wf writableD(1) by auto
next
  case (written fs1 h)
  note W = writableD [OF written(4)]
  have "wf_fs (fs1(d @ [n] \<mapsto> File b))" for b using wf_fs_set [OF W(1-3)] written(7) by simp
  then show ?thesis using written(2,4,6) assms(3) only_temp_wf W(1) by auto
qed

text \<open>
  C15: A \<^theory_text>\<open>write\<close> to a path that is not the workspace directory itself, that the sandbox accepts without
  running out of links, with a temporary name that is free, on a file system that is the same when
  the path is resolved and when the file is written, touches nothing outside the workspace: in every
  state it goes through, also when it fails in the middle, every path that has changed lies in the
  workspace and is the target, its temporary file, or a new directory on the way to it. (A write to
  the workspace itself does leave it: \<open>write_to_workspace_leaves_it\<close>.)
\<close>

theorem write_stays_in_workspace:
  assumes "write_setting fs r (wp_path params) d n rnd" and "d @ [n] \<noteq> r"
    and "write_run (abs_path r) fs fs params rnd mf fl = (result, hist)"
  shows "\<forall>s \<in> set hist. \<forall>q. s q \<noteq> fs q \<longrightarrow>
    prefix r q \<and> (q = d @ [n] \<or> q = d @ [temp_name n rnd] \<or> fs q = None \<and> s q = Some Dir \<and> prefix q d)"
  using assms by (rule write_run_differences)

text \<open>
  What was written can be read back. A successful call reports the path and the byte length of
  the contents; afterwards the file holds exactly the UTF-8 encoding of the contents, every other
  path is as before except for new directories on the way, and no temporary file is left.
\<close>

theorem write_then_read:
  assumes "write_setting fs r (wp_path params) d n rnd" and "valid_str (wp_content params)"
    and "write_run (abs_path r) fs fs params rnd mf fl = (Inr out, hist)"
  shows "out = \<lparr>wo_success = True, wo_path = wp_path params, wo_bytes = length (utf8_encode (wp_content params))\<rparr> \<and>
    map_sum id utf8_decode (fs_read (last hist) (abs_path (d @ [n]))) = Inr (Some (wp_content params)) \<and>
    (\<forall>q. q \<noteq> d @ [n] \<longrightarrow> last hist q = fs q \<or> fs q = None \<and> last hist q = Some Dir \<and> prefix q d)"
  using assms(1,3)
proof (cases rule: write_run_cases)
  case (written fs1 h)
  let ?new = "fs1(d @ [n] \<mapsto> File (utf8_encode (wp_content params)))"
  have last: "last hist = ?new" using written(2) by simp
  note w = writableD [OF written(4)]
  have "wf_fs ?new" using wf_fs_set [OF w(1-3)] written(7) by simp
  then have "fs_read ?new (abs_path (d @ [n])) = Inr (utf8_encode (wp_content params))"
    by (rule fs_read_canonical) simp
  moreover have "utf8_decode (utf8_encode (wp_content params)) = Some (wp_content params)"
    using assms(2) by (rule utf8_decode_encode)
  moreover have "?new q = fs q \<or> fs q = None \<and> ?new q = Some Dir \<and> prefix q d" if "q \<noteq> d @ [n]" for q
    using written(3) that by (simp add: dirs_on_the_way_def)
  ultimately show ?thesis using written(1) unfolding last by simp
qed simp_all

text \<open>
  C31: A failed \<^theory_text>\<open>write\<close> leaves all files alone, whatever the reason is: the only possible traces are
  new empty directories on the way to the target and, if removing it fails too, the temporary file.
  (For a path the sandbox refuses, or accepts without running out of links, with a temporary name
  that is free, and a file system that is the same when the path is resolved and when the file is
  written.)
\<close>

theorem write_failure_harmless:
  assumes "write_setting fs r (wp_path params) d n rnd \<or>
      isl (resolve_in_workspace fs (abs_path r) (wp_path params))"
    and "write_run (abs_path r) fs fs params rnd mf fl = (Inl e, hist)"
  shows "\<forall>q. last (fs # hist) q = fs q \<or>
    fs q = None \<and> last (fs # hist) q = Some Dir \<and> prefix q d \<or>
    q = d @ [temp_name n rnd] \<and> remove_fault fl \<noteq> None"
  using assms(1)
proof
  assume "write_setting fs r (wp_path params) d n rnd"
  from this assms(2) show ?thesis
  proof (cases rule: write_run_cases)
    case (failed fs1 h)
    have "last (fs1 # h) q = fs1 q \<or> q = d @ [temp_name n rnd] \<and> remove_fault fl \<noteq> None" for q
      using failed(7) only_temp_last [OF failed(6), of q] by metis
    moreover have "last (fs # hist) = last (fs1 # h)" using failed(2) by simp
    ultimately have "last (fs # hist) q = fs1 q \<or> q = d @ [temp_name n rnd] \<and> remove_fault fl \<noteq> None" for q
      by metis
    then show ?thesis using failed(3) unfolding dirs_on_the_way_def by metis
  qed simp_all
next
  assume "isl (resolve_in_workspace fs (abs_path r) (wp_path params))"
  then have "hist = []" using assms(2) by (auto simp: write_run_def isl_def)
  then show ?thesis by simp
qed

text \<open>
  A call succeeds when it can: with no faults, when the target is not a directory and everything
  that exists on the way to it is a directory, \<^theory_text>\<open>write\<close> reports success.
\<close>

theorem write_succeeds:
  assumes "write_setting fs r (wp_path params) d n rnd" and "fs (d @ [n]) \<noteq> Some Dir"
    and "\<forall>p x. prefix p d \<and> fs p = Some x \<longrightarrow> x = Dir"
  shows "\<exists>out. fst (write_run (abs_path r) fs fs params rnd None no_faults) = Inr out"
proof -
  obtain result hist where w: "write_run (abs_path r) fs fs params rnd None no_faults = (result, hist)"
    by force
  from assms(1) w show ?thesis
    by (cases rule: write_run_cases) (use w assms(2,3) in auto)
qed

section \<open>Witnesses\<close>

lemma no_eloop_check:
  assumes "\<forall>k \<in> set [0..<Suc (length p)]. canonicalize fs (take k p) \<noteq> Inl ELOOP"
  shows "\<forall>k. canonicalize fs (take k p) \<noteq> Inl ELOOP"
proof
  fix k
  have "min k (length p) \<in> set [0..<Suc (length p)]" by (simp del: upt_Suc)
  then have "canonicalize fs (take (min k (length p)) p) \<noteq> Inl ELOOP" using assms by blast
  moreover have "take (min k (length p)) p = take k p" by (cases "k \<le> length p") simp_all
  ultimately show "canonicalize fs (take k p) \<noteq> Inl ELOOP" by simp
qed

definition sample_write :: write_params where
  "sample_write = \<lparr>wp_path = lit ''d/new/y'', wp_content = lit ''hi''\<rparr>"

lemma sample_write_setting:
  "write_setting (map_of sample_tree) [lit ''ws''] (wp_path sample_write)
     [lit ''ws'', lit ''d'', lit ''new''] (lit ''y'') (lit ''0a'')"
  unfolding write_setting_def
proof (intro conjI)
  show "workspace (map_of sample_tree) [lit ''ws'']" by (rule workspace_sample)
  show "\<forall>k. canonicalize (map_of sample_tree)
      (take k (lexical_normalize (path_join (abs_path [lit ''ws'']) (wp_path sample_write)))) \<noteq> Inl ELOOP"
    by (rule no_eloop_check) code_simp
qed code_simp+

lemma write_stays_in_workspace_witness:
  "\<exists>hist result. write_run (abs_path [lit ''ws'']) (map_of sample_tree) (map_of sample_tree) sample_write
      (lit ''0a'') None no_faults = (result, hist) \<and>
    hist ! 0 \<noteq> map_of sample_tree \<and> prefix [lit ''ws''] [lit ''ws'', lit ''d'', lit ''new'']"
proof -
  obtain result hist where w: "write_run (abs_path [lit ''ws'']) (map_of sample_tree) (map_of sample_tree)
      sample_write (lit ''0a'') None no_faults = (result, hist)" by force
  let ?w = "write_run (abs_path [lit ''ws'']) (map_of sample_tree) (map_of sample_tree)
      sample_write (lit ''0a'') None no_faults"
  have "snd ?w \<noteq> []" "(snd ?w ! 0) [lit ''ws'', lit ''d'', lit ''new''] \<noteq>
      map_of sample_tree [lit ''ws'', lit ''d'', lit ''new'']"
    by code_simp+
  then have h: "hist ! 0 \<in> set hist" "(hist ! 0) [lit ''ws'', lit ''d'', lit ''new''] \<noteq>
      map_of sample_tree [lit ''ws'', lit ''d'', lit ''new'']"
    by (simp_all add: w)
  have ne: "[lit ''ws'', lit ''d'', lit ''new''] @ [lit ''y''] \<noteq> [lit ''ws'']" by simp
  have "prefix [lit ''ws''] [lit ''ws'', lit ''d'', lit ''new'']"
    using write_stays_in_workspace [OF sample_write_setting ne w] h by blast
  then show ?thesis using w h(2) by metis
qed

lemma write_then_read_witness:
  "\<exists>out hist. write_run (abs_path [lit ''ws'']) (map_of sample_tree) (map_of sample_tree) sample_write
      (lit ''0a'') None no_faults = (Inr out, hist) \<and>
    map_sum id utf8_decode (fs_read (last hist) (abs_path ([lit ''ws'', lit ''d'', lit ''new''] @ [lit ''y''])))
      = Inr (Some (wp_content sample_write))"
proof -
  let ?w = "write_run (abs_path [lit ''ws'']) (map_of sample_tree) (map_of sample_tree) sample_write
      (lit ''0a'') None no_faults"
  have "\<not> isl (fst ?w)" by code_simp
  then obtain out where out: "?w = (Inr out, snd ?w)" by (metis isl_def prod.collapse sum.collapse(2))
  have "valid_str (wp_content sample_write)" by code_simp
  from write_then_read [OF sample_write_setting this out]
  have rd: "map_sum id utf8_decode (fs_read (last (snd ?w)) (abs_path ([lit ''ws'', lit ''d'', lit ''new''] @ [lit ''y''])))
      = Inr (Some (wp_content sample_write))"
    by (elim conjE)
  show ?thesis by (rule exI [of _ out], rule exI [of _ "snd ?w"], rule conjI [OF out rd])
qed

lemma write_failure_harmless_witness:
  "\<exists>e hist. write_run (abs_path [lit ''ws'']) (map_of sample_tree) (map_of sample_tree) sample_write
      (lit ''0a'') None disk_full = (Inl e, hist) \<and>
    last (map_of sample_tree # hist) [lit ''ws'', lit ''d'', lit ''f''] = map_of sample_tree [lit ''ws'', lit ''d'', lit ''f'']"
proof -
  let ?w = "write_run (abs_path [lit ''ws'']) (map_of sample_tree) (map_of sample_tree) sample_write
      (lit ''0a'') None disk_full"
  have "isl (fst ?w)" by code_simp
  then obtain e where e: "?w = (Inl e, snd ?w)" by (metis isl_def prod.collapse)
  have "map_of sample_tree [lit ''ws'', lit ''d'', lit ''f''] \<noteq> None" by code_simp
  have "remove_fault disk_full = None" by (simp add: disk_full_def no_faults_def)
  then have same: "last (map_of sample_tree # snd ?w) [lit ''ws'', lit ''d'', lit ''f''] =
      map_of sample_tree [lit ''ws'', lit ''d'', lit ''f'']"
    using write_failure_harmless [OF disjI1 [OF sample_write_setting] e, THEN spec, of "[lit ''ws'', lit ''d'', lit ''f'']"]
      \<open>map_of sample_tree [lit ''ws'', lit ''d'', lit ''f''] \<noteq> None\<close>
    by (elim disjE conjE) (simp_all del: last.simps)
  show ?thesis by (rule exI [of _ e], rule exI [of _ "snd ?w"], rule conjI [OF e same])
qed

lemma write_succeeds_witness:
  "\<exists>out. fst (write_run (abs_path [lit ''ws'']) (map_of sample_tree) (map_of sample_tree) sample_write
     (lit ''0a'') None no_faults) = Inr out"
proof (rule write_succeeds [OF sample_write_setting])
  have chk: "list_all (\<lambda>p. case map_of sample_tree p of Some x \<Rightarrow> x = Dir | None \<Rightarrow> True)
      (prefixes [lit ''ws'', lit ''d'', lit ''new''])"
    by code_simp
  show "\<forall>p x. prefix p [lit ''ws'', lit ''d'', lit ''new''] \<and> map_of sample_tree p = Some x \<longrightarrow> x = Dir"
  proof (intro allI impI)
    fix p x
    assume p: "prefix p [lit ''ws'', lit ''d'', lit ''new''] \<and> map_of sample_tree p = Some x"
    then have "p \<in> set (prefixes [lit ''ws'', lit ''d'', lit ''new''])" by (simp only: in_set_prefixes)
    then have "case map_of sample_tree p of Some x \<Rightarrow> x = Dir | None \<Rightarrow> True"
      using chk unfolding list_all_iff by blast
    then show "x = Dir" using p by simp
  qed
qed code_simp

section \<open>Writing to the workspace directory itself\<close>

text \<open>
  The sandbox accepts the workspace directory as a target. \<^theory_text>\<open>write\<close> then puts the temporary file
  next to it, outside the workspace, with the contents of the request, before the rename fails.
\<close>

lemma write_to_workspace_leaves_it:
  "isl (fst (write_run (abs_path [lit ''ws'']) (map_of sample_tree) (map_of sample_tree)
       \<lparr>wp_path = lit ''.'', wp_content = lit ''x''\<rparr> (lit ''00'') None no_faults))"
  "(snd (write_run (abs_path [lit ''ws'']) (map_of sample_tree) (map_of sample_tree)
       \<lparr>wp_path = lit ''.'', wp_content = lit ''x''\<rparr> (lit ''00'') None no_faults) ! 2)
     [temp_name (lit ''ws'') (lit ''00'')] = Some (File [120])"
  by code_simp+

end
