(* ===== verification/Edit_Tool.thy ===== *)
theory Edit_Tool
  imports Edit_Apply Write_Tool
begin

text \<open>
  The whole of \<^theory_text>\<open>tools/edit.rs\<close>'s \<^theory_text>\<open>run\<close>: guards, sandbox, reading, matching and replacing,
  the diff for the agent and the atomic commit. The diff is computed by the crate \<^theory_text>\<open>similar\<close>, which
  is a parameter, as are the NFKC tables.
\<close>

section \<open>The diff\<close>

datatype diff_tag = EqualOp | DeleteOp | InsertOp | ReplaceOp

text \<open>
  What \<^theory_text>\<open>similar\<close> computes from the old and the new text: the operations with the start of their
  range of new lines, the unified hunks and the patch with its header.
\<close>

record differ =
  diff_ops :: "rstr \<Rightarrow> rstr \<Rightarrow> (diff_tag \<times> nat) list"
  diff_hunks :: "nat \<Rightarrow> rstr \<Rightarrow> rstr \<Rightarrow> rstr list"
  diff_patch :: "nat \<Rightarrow> rstr \<Rightarrow> rstr \<Rightarrow> rstr \<Rightarrow> rstr \<Rightarrow> rstr"

definition DIFF_CONTEXT_LINES :: nat where
  "DIFF_CONTEXT_LINES = 3"

definition BINARY_SNIFF_LEN :: nat where
  "BINARY_SNIFF_LEN = 8192"

definition first_changed_line :: "(diff_tag \<times> nat) list \<Rightarrow> nat option" where
  "first_changed_line ops =
     map_option (\<lambda>op. snd op + 1) (List.find (\<lambda>op. fst op \<noteq> EqualOp) ops)"

section \<open>Messages\<close>

fun edit_error_text :: "rstr \<Rightarrow> edit_error \<Rightarrow> rstr" where
  "edit_error_text path (EditNotFound index n) = not_found_message index path n"
| "edit_error_text path (EditMultiple index found n) = multiple_match_message index found path n"
| "edit_error_text path (EditOverlap low high) =
     lit ''edits['' @ dec low @ lit ''] and edits['' @ dec high @ lit ''] overlap in '' @ path @
     lit ''.'' @ [nl] @ lit ''Merge them into one edit or target disjoint regions.''"
| "edit_error_text path EditNoChange =
     lit ''No changes made to '' @ path @ lit ''.'' @ [nl] @
     lit ''The replacement produced identical content.''"
| "edit_error_text path EditPanic = []"

section \<open>The tool\<close>

text \<open>
  The result is \<^theory_text>\<open>None\<close> if the code panics; it comes with the states the file system goes through.
  The sandbox sees \<open>fs0\<close>, the transaction under the lock \<open>fs\<close>.
\<close>

definition edit_run ::
  "(rchar \<Rightarrow> rstr) \<Rightarrow> differ \<Rightarrow> path \<Rightarrow> fs \<Rightarrow> fs \<Rightarrow> edit_params \<Rightarrow> rstr \<Rightarrow> faults
   \<Rightarrow> (rstr + edit_output) option \<times> fs list" where
  "edit_run nfkc df base fs0 fs params rnd fl =
     (let path = ep_path params; edits = ep_edits params;
          err = (\<lambda>e :: rstr. (Some (Inl e), []))
      in if edits = [] then err (lit ''edits must contain at least one replacement'')
         else if list_ex (\<lambda>entry. old_text entry = []) edits then err (lit ''oldText must not be empty'')
         else case resolve_in_workspace fs0 base path of
             Inl e \<Rightarrow> err (path_error_text e)
           | Inr resolved \<Rightarrow>
          (case fs_read fs resolved of
             Inl _ \<Rightarrow> err (lit ''File not found: '' @ path)
           | Inr original_bytes \<Rightarrow>
          if 0 \<in> set (take (min (length original_bytes) BINARY_SNIFF_LEN) original_bytes)
          then err (path @ lit '' appears to be a binary file'')
          else case utf8_decode original_bytes of
             None \<Rightarrow> err (path @ lit '' is not valid UTF-8 text'')
           | Some original_text \<Rightarrow>
          (let (had_bom, content) = strip_bom original_text
           in case edit_content nfkc content edits of
                Inl EditPanic \<Rightarrow> (None, [])
              | Inl e \<Rightarrow> err (edit_error_text path e)
              | Inr final_content \<Rightarrow>
                  (let line = first_changed_line (diff_ops df content final_content);
                       diff_text = concat (diff_hunks df DIFF_CONTEXT_LINES content final_content);
                       patch = diff_patch df DIFF_CONTEXT_LINES (lit ''a/'' @ path) (lit ''b/'' @ path)
                                 content final_content;
                       bytes = restore_bom had_bom final_content;
                       (written, hist) = write_atomic fs resolved bytes rnd fl
                   in (Some (case written of
                         Inl e \<Rightarrow> Inl (lit ''failed to write '' @ path @ lit '': '' @ e)
                       | Inr _ \<Rightarrow> Inr \<lparr>eo_success = True, eo_path = path, eo_replacements = length edits,
                                     eo_first_changed_line = map_option of_nat line,
                                     eo_diff = diff_text, eo_patch = patch\<rparr>), hist)))))"

section \<open>The cases of a run\<close>

lemma read_setting:
  assumes "write_setting fs r requested d n rnd" and "fs_read fs (abs_path (d @ [n])) = Inr bytes"
  shows "fs (d @ [n]) = Some (File bytes) \<and> writable fs d n rnd"
proof -
  have S: "workspace fs r" "resolve_in_workspace fs (abs_path r) requested = Inr (abs_path (d @ [n]))"
    "\<forall>k. canonicalize fs (take k (lexical_normalize (path_join (abs_path r) requested))) \<noteq> Inl ELOOP"
    "\<forall>c \<in> set rnd. is_hexdigit c" "fs (d @ [temp_name n rnd]) = None"
    using assms(1) by (simp_all add: write_setting_def)
  obtain a ns where R: "abs_path (d @ [n]) = abs_path (a @ ns)" "settled fs a ns"
    by (rule resolve_settled [OF S(1-3)])
  have wf: "wf_fs fs" using S(1) by (simp add: workspace_def)
  obtain q where q: "canonicalize fs (abs_path (d @ [n])) = Inr q" "fs q = Some (File bytes)"
    using assms(2) by (auto simp: fs_read_def split: sum.splits option.splits node.splits)
  then have "q = d @ [n]" using settled_lookup [OF R(2)] R(1) by simp
  then have f: "fs (d @ [n]) = Some (File bytes)" using q(2) by simp
  then have "fs d = Some Dir" "plain_name n" using wf_fsD [OF wf f] by simp_all
  then show ?thesis using f wf S(4,5) by (simp add: writable_def)
qed

lemma edit_run_cases:
  assumes "write_setting fs r (ep_path params) d n rnd"
    and "edit_run nfkc df (abs_path r) fs fs params rnd fl = (result, hist)"
  obtains (rejected) e where "result = Some (Inl e)" "hist = []"
  | (committed) bytes t had content final w where
      "ep_edits params \<noteq> []" "\<forall>e \<in> set (ep_edits params). old_text e \<noteq> []"
      "fs (d @ [n]) = Some (File bytes)" "utf8_decode bytes = Some t" "strip_bom t = (had, content)"
      "edit_content nfkc content (ep_edits params) = Inr final" "writable fs d n rnd"
      "write_atomic fs (abs_path (d @ [n])) (restore_bom had final) rnd fl = (w, hist)"
      "result = Some (case w of
         Inl e \<Rightarrow> Inl (lit ''failed to write '' @ ep_path params @ lit '': '' @ e)
       | Inr _ \<Rightarrow> Inr \<lparr>eo_success = True, eo_path = ep_path params, eo_replacements = length (ep_edits params),
           eo_first_changed_line = map_option of_nat (first_changed_line (diff_ops df content final)),
           eo_diff = concat (diff_hunks df DIFF_CONTEXT_LINES content final),
           eo_patch = diff_patch df DIFF_CONTEXT_LINES (lit ''a/'' @ ep_path params) (lit ''b/'' @ ep_path params)
             content final\<rparr>)"
proof -
  have res: "resolve_in_workspace fs (abs_path r) (ep_path params) = Inr (abs_path (d @ [n]))"
    using assms(1) by (simp add: write_setting_def)
  show thesis
  proof (cases "ep_edits params = [] \<or> list_ex (\<lambda>entry. old_text entry = []) (ep_edits params)")
    case True
    then show thesis using assms(2) rejected by (auto simp: edit_run_def Let_def split: if_splits)
  next
    case False
    then have ne: "ep_edits params \<noteq> []" "\<forall>e \<in> set (ep_edits params). old_text e \<noteq> []"
      by (auto simp: list_ex_iff)
    show thesis
    proof (cases "fs_read fs (abs_path (d @ [n]))")
      case (Inl e)
      then show thesis using assms(2) res False rejected by (auto simp: edit_run_def Let_def)
    next
      case (Inr bytes)
      note rd = read_setting [OF assms(1) Inr]
      show thesis
      proof (cases "0 \<in> set (take (min (length bytes) BINARY_SNIFF_LEN) bytes) \<or> utf8_decode bytes = None")
        case True
        then show thesis using assms(2) res False Inr rejected
          by (auto simp: edit_run_def Let_def split: if_splits)
      next
        case clean: False
        then obtain t where t: "utf8_decode bytes = Some t" by auto
        obtain had content where sb: "strip_bom t = (had, content)" by force
        show thesis
        proof (cases "edit_content nfkc content (ep_edits params)")
          case (Inl e)
          moreover have "e \<noteq> EditPanic" using edit_content_not_panic [OF ne(2)] Inl by auto
          ultimately show thesis using assms(2) res False \<open>fs_read _ _ = _\<close> clean t sb rejected
            by (cases e) (auto simp: edit_run_def Let_def)
        next
          case (Inr final)
          obtain w h where w: "write_atomic fs (abs_path (d @ [n])) (restore_bom had final) rnd fl = (w, h)"
            by force
          show thesis
            using assms(2) res False \<open>fs_read _ _ = _\<close> clean t sb Inr w rd ne
            by (intro committed) (auto simp: edit_run_def Let_def)
        qed
      qed
    qed
  qed
qed

section \<open>Properties of the tool\<close>

lemma restore_bom_eq: "restore_bom had c = utf8_encode ((if had then bom else []) @ c)"
  by (simp add: restore_bom_def utf8_encode_def)

text \<open>
  C29: A successful \<^theory_text>\<open>edit\<close> is the pure transformation of the file: the bytes of the file are
  UTF-8 text, the text without its byte-order mark is transformed by the edits, and at the end the
  file holds the transformed text with the mark, while nothing else in the file system has changed.
  The output reports the number of edits.
\<close>

theorem edit_commits:
  assumes "write_setting fs r (ep_path params) d n rnd"
    and "edit_run nfkc df (abs_path r) fs fs params rnd fl = (Some (Inr out), hist)"
  shows "eo_replacements out = length (ep_edits params) \<and> eo_path out = ep_path params \<and>
    (\<exists>bytes t had content final.
       fs (d @ [n]) = Some (File bytes) \<and> utf8_decode bytes = Some t \<and> strip_bom t = (had, content) \<and>
       edit_content nfkc content (ep_edits params) = Inr final \<and>
       last hist = fs(d @ [n] \<mapsto> File (utf8_encode ((if had then bom else []) @ final))))"
  using assms
proof (cases rule: edit_run_cases)
  case (rejected e)
  then show ?thesis by simp
next
  case (committed bytes t had content final w)
  have w: "w = Inr ()" and out: "eo_replacements out = length (ep_edits params) \<and> eo_path out = ep_path params"
    using committed(9) by (auto split: sum.splits)
  from committed(7,8) have "last hist = fs(d @ [n] \<mapsto> File (restore_bom had final))"
    by (cases rule: write_atomic_cases) (use w in auto)
  then show ?thesis using committed(3-6) out unfolding restore_bom_eq by blast
qed

text \<open>
  C30: A failed \<^theory_text>\<open>edit\<close> changes nothing, whatever the reason is: no edits or an empty one, the
  sandbox, a missing or binary file, text that does not match or is ambiguous, overlapping edits, no
  change, or a write that fails at any point. At most the temporary file is left behind, and only if
  removing it fails too. (For a path the sandbox refuses, or accepts without running out of links,
  with a temporary name that is free, and a file system that is the same when the path is resolved
  and when the edit is made.)
\<close>

theorem edit_failure_harmless:
  assumes "write_setting fs r (ep_path params) d n rnd \<or>
      isl (resolve_in_workspace fs (abs_path r) (ep_path params))"
    and "edit_run nfkc df (abs_path r) fs fs params rnd fl = (Some (Inl e), hist)"
  shows "(\<forall>q. last (fs # hist) q \<noteq> fs q \<longrightarrow> q = d @ [temp_name n rnd] \<and> remove_fault fl \<noteq> None) \<and>
    (remove_fault fl = None \<longrightarrow> last (fs # hist) = fs)"
  using assms(1)
proof
  assume "write_setting fs r (ep_path params) d n rnd"
  from this assms(2) show ?thesis
  proof (cases rule: edit_run_cases)
    case (rejected e')
    then show ?thesis by simp
  next
    case (committed bytes t had content final w)
    from committed(7,8) show ?thesis
    proof (cases rule: write_atomic_cases)
      case failed
      have "last (fs # hist) q = fs q" if "q \<noteq> d @ [temp_name n rnd]" for q
        by (rule only_temp_last [OF failed(2) that])
      moreover have "last (fs # hist) = fs" if "remove_fault fl = None" by (rule failed(3) [OF that])
      ultimately show ?thesis by metis
    qed (use committed(9) in simp)
  qed
next
  assume "isl (resolve_in_workspace fs (abs_path r) (ep_path params))"
  then have "hist = []" using assms(2) by (auto simp: edit_run_def Let_def isl_def split: if_splits)
  then show ?thesis by simp
qed

lemma edit_run_states:
  assumes "write_setting fs r (ep_path params) d n rnd"
    and "edit_run nfkc df (abs_path r) fs fs params rnd fl = (result, hist)"
  shows "result \<noteq> None \<and> (\<forall>s \<in> set hist.
    (\<forall>q. s q \<noteq> fs q \<longrightarrow> prefix r q \<and> (q = d @ [n] \<or> q = d @ [temp_name n rnd])) \<and>
    (s (d @ [n]) = fs (d @ [n]) \<or> s = last hist))"
  using assms
proof (cases rule: edit_run_cases)
  case (rejected e)
  then show ?thesis by simp
next
  case (committed bytes t had content final w)
  have res: "resolve_in_workspace fs (abs_path r) (ep_path params) = Inr (abs_path (d @ [n]))"
    and rdir: "fs r = Some Dir"
    using assms(1) by (simp_all add: write_setting_def workspace_def)
  have "prefix r (d @ [n])" by (rule resolve_in_workspace_Inr [OF res]) simp
  moreover have "d @ [n] \<noteq> r" using rdir committed(3) by auto
  ultimately have rd: "prefix r d" by simp
  have tp: "d @ [n] \<noteq> d @ [temp_name n rnd]" using temp_name_neq [of n rnd] by simp
  have ot: "(\<forall>q. s q \<noteq> fs q \<longrightarrow> prefix r q \<and> (q = d @ [n] \<or> q = d @ [temp_name n rnd])) \<and> s (d @ [n]) = fs (d @ [n])"
    if "only_temp fs (d @ [temp_name n rnd]) b s" for s b
    using that tp rd by (auto simp: only_temp_def split: if_splits)
  from committed(7,8) have "\<forall>s \<in> set hist.
    (\<forall>q. s q \<noteq> fs q \<longrightarrow> prefix r q \<and> (q = d @ [n] \<or> q = d @ [temp_name n rnd])) \<and>
    (s (d @ [n]) = fs (d @ [n]) \<or> s = last hist)"
  proof (cases rule: write_atomic_cases)
    case failed
    then show ?thesis using ot by blast
  next
    case (written h)
    have "(\<forall>q. s q \<noteq> fs q \<longrightarrow> prefix r q \<and> (q = d @ [n] \<or> q = d @ [temp_name n rnd]))"
      if "s = fs(d @ [n] \<mapsto> File (restore_bom had final))" for s
      using that rd by auto
    then show ?thesis using ot written(3,4) by auto
  qed
  then show ?thesis using committed(9) by simp
qed

lemma edit_run_wf:
  assumes "write_setting fs r (ep_path params) d n rnd"
    and "edit_run nfkc df (abs_path r) fs fs params rnd fl = (result, hist)" and "s \<in> set hist"
  shows "wf_fs s"
  using assms(1,2)
proof (cases rule: edit_run_cases)
  case (rejected e)
  then show ?thesis using assms(3) by simp
next
  case (committed bytes t had content final w)
  note W = writableD [OF committed(7)]
  have "wf_fs (fs(d @ [n] \<mapsto> File b))" for b using wf_fs_set [OF W(1-3)] committed(3) by simp
  moreover from committed(7,8) have "s = fs(d @ [n] \<mapsto> File (restore_bom had final)) \<or>
      only_temp fs (d @ [temp_name n rnd]) (restore_bom had final) s"
    by (cases rule: write_atomic_cases) (use assms(3) in auto)
  ultimately show ?thesis using only_temp_wf [OF committed(7)] by blast
qed

text \<open>
  C14: An \<^theory_text>\<open>edit\<close> whose path the sandbox accepts without running out of links, with a temporary name
  that is free, on a file system that is the same when the path is resolved and when the edit is made:
  in every state it goes through, only the target and its temporary file can differ from the start,
  both inside the workspace, and the target has its old or its final contents. The call does not panic.
\<close>

theorem edit_safe:
  assumes "write_setting fs r (ep_path params) d n rnd"
    and "edit_run nfkc df (abs_path r) fs fs params rnd fl = (result, hist)"
  shows "result \<noteq> None \<and> (\<forall>s \<in> set hist.
    (\<forall>q. s q \<noteq> fs q \<longrightarrow> prefix r q \<and> (q = d @ [n] \<or> q = d @ [temp_name n rnd])) \<and>
    (s (d @ [n]) = fs (d @ [n]) \<or> s = last hist))"
  using assms by (rule edit_run_states)

section \<open>Witnesses\<close>

definition edit_tree :: "(fpath \<times> node) list" where
  "edit_tree = [([], Dir), ([lit ''ws''], Dir), ([lit ''ws'', lit ''f''], File (utf8_encode (bom @ lit ''X1 X2'')))]"

definition edit_sample :: edit_params where
  "edit_sample = \<lparr>ep_path = lit ''f'', ep_edits =
     [\<lparr>old_text = lit ''X1'', new_text = lit ''Q X2''\<rparr>, \<lparr>old_text = lit ''X2'', new_text = lit ''Z''\<rparr>]\<rparr>"

definition no_differ :: differ where
  "no_differ = \<lparr>diff_ops = \<lambda>_ _. [(ReplaceOp, 0)], diff_hunks = \<lambda>_ _ _. [], diff_patch = \<lambda>_ _ _ _ _. []\<rparr>"

abbreviation edit_sample_run :: "faults \<Rightarrow> (rstr + edit_output) option \<times> fs list" where
  "edit_sample_run fl \<equiv> edit_run (\<lambda>c. [c]) no_differ (abs_path [lit ''ws'']) (map_of edit_tree)
     (map_of edit_tree) edit_sample (lit ''0a'') fl"

lemma edit_sample_setting:
  "write_setting (map_of edit_tree) [lit ''ws''] (ep_path edit_sample) [lit ''ws''] (lit ''f'') (lit ''0a'')"
  unfolding write_setting_def
proof (intro conjI)
  show "workspace (map_of edit_tree) [lit ''ws'']"
    unfolding workspace_def by (rule conjI, rule wf_fs_map_of) code_simp+
  show "\<forall>k. canonicalize (map_of edit_tree)
      (take k (lexical_normalize (path_join (abs_path [lit ''ws'']) (ep_path edit_sample)))) \<noteq> Inl ELOOP"
    by (rule no_eloop_check) code_simp
qed code_simp+

lemma edit_commits_witness:
  "\<exists>out hist. edit_sample_run no_faults = (Some (Inr out), hist) \<and> eo_replacements out = 2"
proof -
  have "\<not> isl (the (fst (edit_sample_run no_faults)))" "fst (edit_sample_run no_faults) \<noteq> None" by code_simp+
  then obtain out where out: "edit_sample_run no_faults = (Some (Inr out), snd (edit_sample_run no_faults))"
    by (metis isl_def option.collapse prod.collapse sum.collapse(2))
  have "eo_replacements out = length (ep_edits edit_sample)"
    using edit_commits [OF edit_sample_setting out] by (elim conjE)
  also have "\<dots> = 2" by (simp add: edit_sample_def)
  finally show ?thesis using out by (intro exI conjI)
qed

lemma edit_failure_harmless_witness:
  "\<exists>e hist. edit_sample_run disk_full = (Some (Inl e), hist) \<and> last (map_of edit_tree # hist) = map_of edit_tree"
proof -
  have "isl (the (fst (edit_sample_run disk_full)))" "fst (edit_sample_run disk_full) \<noteq> None" by code_simp+
  then obtain e where e: "edit_sample_run disk_full = (Some (Inl e), snd (edit_sample_run disk_full))"
    by (metis isl_def option.collapse prod.collapse)
  have "remove_fault disk_full = None" by (simp add: disk_full_def no_faults_def)
  then have "last (map_of edit_tree # snd (edit_sample_run disk_full)) = map_of edit_tree"
    using edit_failure_harmless [OF disjI1 [OF edit_sample_setting] e] by (elim conjE mp)
  then show ?thesis using e by (intro exI conjI)
qed

lemma edit_safe_witness: "fst (edit_sample_run disk_full) \<noteq> None"
proof -
  have "edit_sample_run disk_full = (fst (edit_sample_run disk_full), snd (edit_sample_run disk_full))" by simp
  from edit_safe [OF edit_sample_setting this] show ?thesis by (rule conjunct1)
qed

end
