(* ===== verification/Truncate.thy ===== *)
theory Truncate
  imports F64
begin

text \<open>
  \<^theory_text>\<open>output/truncate.rs\<close>: the truncation the tools share. \<^theory_text>\<open>take_head\<close> keeps whole lines from the
  front, \<^theory_text>\<open>take_tail\<close> from the back; a last line that is too long on its own is cut at a
  character boundary. The loops run over the pieces that are left; an index or a slice that would
  panic in Rust makes the result \<^theory_text>\<open>None\<close>, and the lemmas show that this never happens.
\<close>

section \<open>Limits and formatting\<close>

definition MAX_LINES :: nat where "MAX_LINES = 2000"
definition MAX_BYTES :: nat where "MAX_BYTES = 50 * 1024"

definition format_kb :: "nat \<Rightarrow> rstr" where
  "format_kb bytes =
     (let t = round_half_even (bytes * 10) 1024
      in dec (t div 10) @ lit ''.'' @ dec (t mod 10) @ lit ''KB'')"

definition count_lines :: "rstr \<Rightarrow> nat" where
  "count_lines t = length (split_inclusive nl t)"

section \<open>Head truncation\<close>

record head =
  h_text :: rstr
  h_kept_lines :: nat
  h_byte_limited :: bool
  h_first_line_too_big :: bool

fun head_loop :: "nat \<Rightarrow> nat \<Rightarrow> nat \<Rightarrow> nat \<Rightarrow> rstr list \<Rightarrow> nat \<times> bool" where
  "head_loop max_lines max_bytes kept bytes [] = (kept, False)"
| "head_loop max_lines max_bytes kept bytes (part # rest) =
     (if kept < max_lines then
        if bytes + str_len part > max_bytes then (kept, True)
        else head_loop max_lines max_bytes (kept + 1) (bytes + str_len part) rest
      else (kept, False))"

definition take_head :: "rstr \<Rightarrow> nat \<Rightarrow> nat \<Rightarrow> head" where
  "take_head t max_lines max_bytes =
     (let parts = split_inclusive nl t; total = length parts
      in if str_len t \<le> max_bytes \<and> total \<le> max_lines
         then \<lparr>h_text = t, h_kept_lines = total, h_byte_limited = False,
               h_first_line_too_big = False\<rparr>
         else (let (kept, byte_limited) = head_loop max_lines max_bytes 0 0 parts
               in \<lparr>h_text = concat (take kept parts), h_kept_lines = kept,
                   h_byte_limited = (byte_limited \<and> kept < total),
                   h_first_line_too_big = (kept = 0 \<and> parts \<noteq> [])\<rparr>))"

section \<open>Tail truncation\<close>

record tail =
  t_text :: rstr
  t_first_line :: nat
  t_kept_lines :: nat
  t_byte_limited :: bool
  t_cut_mid_line :: bool
  t_truncated :: bool

text \<open>The loop over \<open>start\<close>: the pieces from \<open>start\<close> on, their byte count, the flags.\<close>

fun tail_loop :: "nat \<Rightarrow> nat \<Rightarrow> nat \<Rightarrow> nat \<Rightarrow> bool \<Rightarrow> rstr list \<Rightarrow> (nat \<times> bool \<times> bool) option"
where
  "tail_loop tot max_bytes start bytes byte_limited [] =
     (if bytes > max_bytes then
        if start = tot - 1 then Some (start, True, True) else None
      else Some (start, byte_limited, False))"
| "tail_loop tot max_bytes start bytes byte_limited (part # rest) =
     (if bytes > max_bytes then
        if start = tot - 1 then Some (start, True, True)
        else tail_loop tot max_bytes (start + 1) (bytes - str_len part) True rest
      else Some (start, byte_limited, False))"

function cut_loop :: "rstr \<Rightarrow> nat \<Rightarrow> nat" where
  "cut_loop kept pos =
     (if pos < str_len kept \<and> \<not> is_char_boundary kept pos then cut_loop kept (pos + 1) else pos)"
  by pat_completeness auto
termination
  by (relation "measure (\<lambda>(kept, pos). str_len kept - pos)") auto

declare cut_loop.simps [simp del]

definition take_tail :: "rstr \<Rightarrow> nat \<Rightarrow> nat \<Rightarrow> tail option" where
  "take_tail t max_lines0 max_bytes =
     (let max_lines = max max_lines0 1;
          parts = split_inclusive nl t;
          total = length parts
      in if str_len t \<le> max_bytes \<and> total \<le> max_lines
         then Some \<lparr>t_text = t, t_first_line = 1, t_kept_lines = total, t_byte_limited = False,
                    t_cut_mid_line = False, t_truncated = False\<rparr>
         else (let start0 = total - max_lines;
                   bytes = sum_list (map str_len (drop start0 parts))
               in case tail_loop total max_bytes start0 bytes False (drop start0 parts) of
                    None \<Rightarrow> None
                  | Some (start, byte_limited, cut_mid_line) \<Rightarrow>
                      (let kept = concat (drop start parts)
                       in map_option
                            (\<lambda>kept'. \<lparr>t_text = kept', t_first_line = start + 1,
                              t_kept_lines = total - start, t_byte_limited = byte_limited,
                              t_cut_mid_line = cut_mid_line, t_truncated = True\<rparr>)
                            (if cut_mid_line
                             then str_from kept (cut_loop kept (str_len kept - max_bytes))
                             else Some kept))))"

section \<open>What head truncation keeps\<close>

text \<open>The line count the loop stops at, and why it stops.\<close>

lemma head_loop_spec:
  assumes "head_loop ml mb kept bytes ps = (k, bl)" and "bytes \<le> mb" and "kept \<le> ml"
  shows "kept \<le> k \<and> k \<le> kept + length ps \<and> k \<le> ml
    \<and> bytes + str_len (concat (take (k - kept) ps)) \<le> mb
    \<and> (bl \<longrightarrow> k < ml \<and> k - kept < length ps
         \<and> mb < bytes + str_len (concat (take (Suc (k - kept)) ps)))
    \<and> (\<not> bl \<longrightarrow> k = ml \<or> k = kept + length ps)"
  using assms
proof (induction ml mb kept bytes ps rule: head_loop.induct)
  case (1 ml mb kept bytes)
  then show ?case by auto
next
  case (2 ml mb kept bytes p ps)
  show ?case
  proof (cases "kept < ml \<and> bytes + str_len p \<le> mb")
    case False
    then show ?thesis using "2.prems" by (auto split: if_splits)
  next
    case True
    then have "head_loop ml mb (kept + 1) (bytes + str_len p) ps = (k, bl)"
      using "2.prems" by simp
    then have IH: "kept + 1 \<le> k \<and> k \<le> kept + 1 + length ps \<and> k \<le> ml
      \<and> bytes + str_len p + str_len (concat (take (k - (kept + 1)) ps)) \<le> mb
      \<and> (bl \<longrightarrow> k < ml \<and> k - (kept + 1) < length ps
           \<and> mb < bytes + str_len p + str_len (concat (take (Suc (k - (kept + 1))) ps)))
      \<and> (\<not> bl \<longrightarrow> k = ml \<or> k = kept + 1 + length ps)"
      using "2.IH" True by auto
    then obtain d where d: "k = Suc (kept + d)" by (metis Suc_eq_plus1 add_Suc le_iff_add)
    show ?thesis using IH unfolding d by auto
  qed
qed

lemma take_head_cases:
  obtains (fits) "str_len t \<le> mb" "count_lines t \<le> ml" "h_text (take_head t ml mb) = t"
      "h_kept_lines (take_head t ml mb) = count_lines t" "\<not> h_byte_limited (take_head t ml mb)"
      "\<not> h_first_line_too_big (take_head t ml mb)"
  | (cut) k bl where "\<not> (str_len t \<le> mb \<and> count_lines t \<le> ml)"
      "head_loop ml mb 0 0 (split_inclusive nl t) = (k, bl)"
      "h_text (take_head t ml mb) = concat (take k (split_inclusive nl t))"
      "h_kept_lines (take_head t ml mb) = k"
      "h_byte_limited (take_head t ml mb) \<longleftrightarrow> bl \<and> k < count_lines t"
      "h_first_line_too_big (take_head t ml mb) \<longleftrightarrow> k = 0 \<and> t \<noteq> []"
proof (cases "str_len t \<le> mb \<and> count_lines t \<le> ml")
  case True
  then show ?thesis by (intro fits) (simp_all add: take_head_def count_lines_def Let_def)
next
  case False
  obtain k bl where "head_loop ml mb 0 0 (split_inclusive nl t) = (k, bl)" by fastforce
  then show ?thesis using False
    by (intro cut [of k bl]) (auto simp: take_head_def count_lines_def Let_def)
qed

lemma take_head_spec:
  fixes t ml mb
  defines "h \<equiv> take_head t ml mb" and "ps \<equiv> split_inclusive nl t"
  shows "h_text h = concat (take (h_kept_lines h) ps)"
    and "h_kept_lines h \<le> length ps" and "h_kept_lines h \<le> ml" and "str_len (h_text h) \<le> mb"
    and "h_kept_lines h < length ps \<Longrightarrow>
      h_kept_lines h = ml \<or> mb < str_len (concat (take (Suc (h_kept_lines h)) ps))"
    and "h_byte_limited h \<longleftrightarrow> h_kept_lines h < length ps \<and> h_kept_lines h < ml"
    and "h_first_line_too_big h \<longleftrightarrow> h_kept_lines h = 0 \<and> ps \<noteq> []"
proof -
  have "h_text h = concat (take (h_kept_lines h) ps) \<and> h_kept_lines h \<le> length ps
    \<and> h_kept_lines h \<le> ml \<and> str_len (h_text h) \<le> mb
    \<and> (h_kept_lines h < length ps \<longrightarrow>
        h_kept_lines h = ml \<or> mb < str_len (concat (take (Suc (h_kept_lines h)) ps)))
    \<and> (h_byte_limited h \<longleftrightarrow> h_kept_lines h < length ps \<and> h_kept_lines h < ml)
    \<and> (h_first_line_too_big h \<longleftrightarrow> h_kept_lines h = 0 \<and> ps \<noteq> [])"
  proof (cases rule: take_head_cases [where t = t and mb = mb and ml = ml])
    case fits
    then show ?thesis by (auto simp: h_def ps_def count_lines_def)
  next
    case (cut k bl)
    from head_loop_spec [OF cut(2)] have
      "k \<le> length ps \<and> k \<le> ml \<and> str_len (concat (take k ps)) \<le> mb
       \<and> (bl \<longrightarrow> k < ml \<and> k < length ps \<and> mb < str_len (concat (take (Suc k) ps)))
       \<and> (\<not> bl \<longrightarrow> k = ml \<or> k = length ps)"
      by (simp add: ps_def)
    then show ?thesis using cut by (cases bl) (auto simp: h_def ps_def count_lines_def)
  qed
  then show "h_text h = concat (take (h_kept_lines h) ps)"
    "h_kept_lines h \<le> length ps" "h_kept_lines h \<le> ml" "str_len (h_text h) \<le> mb"
    "h_kept_lines h < length ps \<Longrightarrow>
      h_kept_lines h = ml \<or> mb < str_len (concat (take (Suc (h_kept_lines h)) ps))"
    "h_byte_limited h \<longleftrightarrow> h_kept_lines h < length ps \<and> h_kept_lines h < ml"
    "h_first_line_too_big h \<longleftrightarrow> h_kept_lines h = 0 \<and> ps \<noteq> []"
    by auto
qed

section \<open>What tail truncation keeps\<close>

text \<open>
  With the invariant that \<open>bytes\<close> counts the pieces that are left, the loop returns, never runs
  past the last piece, and stops at the first suffix that fits (or at a last line that does not).
\<close>

lemma tail_loop_spec:
  assumes "start + length ps = tot" and "ps \<noteq> []" and "bytes = str_len (concat ps)"
  shows "\<exists>st bl' c. tail_loop tot mb start bytes bl ps = Some (st, bl', c)
    \<and> start \<le> st \<and> st < tot
    \<and> (c \<longrightarrow> bl' \<and> st = tot - 1 \<and> mb < str_len (last ps))
    \<and> (\<not> c \<longrightarrow> str_len (concat (drop (st - start) ps)) \<le> mb \<and> (bl' \<longleftrightarrow> bl \<or> start < st))
    \<and> (start < st \<longrightarrow> mb < str_len (concat (drop (st - start - 1) ps)))"
  using assms
proof (induction tot mb start bytes bl ps rule: tail_loop.induct)
  case (1 tot mb start bytes bl)
  then show ?case by simp
next
  case (2 tot mb start bytes bl p ps)
  show ?case
  proof (cases "bytes > mb \<and> ps \<noteq> []")
    case False
    then consider "\<not> bytes > mb" | "bytes > mb" "ps = []" by blast
    then show ?thesis
    proof cases
      case 1
      then show ?thesis using "2.prems" by (intro exI [of _ start] exI [of _ bl] exI [of _ False]) simp
    next
      case 2
      then show ?thesis using "2.prems" by (intro exI [of _ start] exI [of _ True]) simp
    qed
  next
    case True
    then have ne: "start \<noteq> tot - 1" using "2.prems" by (cases ps) auto
    obtain st bl' c where IH: "tail_loop tot mb (start + 1) (bytes - str_len p) True ps
        = Some (st, bl', c)" "start + 1 \<le> st" "st < tot"
      "c \<longrightarrow> bl' \<and> st = tot - 1 \<and> mb < str_len (last ps)"
      "\<not> c \<longrightarrow> str_len (concat (drop (st - (start + 1)) ps)) \<le> mb \<and> (bl' \<longleftrightarrow> True \<or> start + 1 < st)"
      "start + 1 < st \<longrightarrow> mb < str_len (concat (drop (st - (start + 1) - 1) ps))"
      using "2.IH" [OF _ ne] True "2.prems" by auto
    obtain d where d: "st = Suc (start + d)" using IH(2) by (metis Suc_eq_plus1 add_Suc le_iff_add)
    have "mb < str_len (concat (drop d (p # ps)))"
      using IH(6) True "2.prems"(3) unfolding d by (cases d) auto
    then show ?thesis using IH True ne unfolding d by auto
  qed
qed

lemma cut_loop_spec:
  assumes "pos \<le> str_len kept"
  shows "pos \<le> cut_loop kept pos \<and> cut_loop kept pos \<le> str_len kept
    \<and> is_char_boundary kept (cut_loop kept pos)
    \<and> (\<forall>b. pos \<le> b \<and> b < cut_loop kept pos \<longrightarrow> \<not> is_char_boundary kept b)"
  using assms
proof (induction kept pos rule: cut_loop.induct)
  case (1 kept pos)
  show ?case
  proof (cases "pos < str_len kept \<and> \<not> is_char_boundary kept pos")
    case True
    then have "cut_loop kept pos = cut_loop kept (pos + 1)" by (subst cut_loop.simps) simp
    moreover have "pos + 1 \<le> str_len kept" using True by simp
    moreover have "\<not> is_char_boundary kept b" if "pos \<le> b" "b < pos + 1" for b
      using that True by (metis Suc_eq_plus1 le_antisym less_Suc_eq_le)
    ultimately show ?thesis using "1.IH" [OF True] by (metis add_leD1 linorder_not_less)
  next
    case False
    then have "cut_loop kept pos = pos"
      unfolding cut_loop.simps [of kept pos] by (simp only: if_False)
    then show ?thesis using False "1.prems" by (auto simp: le_less)
  qed
qed

lemma cut_loop_near:
  assumes "pos \<le> str_len kept"
  shows "cut_loop kept pos < pos + 4"
proof -
  obtain b where "pos \<le> b" "b < pos + 4" "b \<le> str_len kept" "is_char_boundary kept b"
    using boundary_near [OF assms] by blast
  then show ?thesis using cut_loop_spec [OF assms] by (meson leI order.strict_trans2)
qed

text \<open>The cases of tail truncation: everything fits, whole lines, or part of the last line.\<close>

text \<open>The cut of a line that is too long for the budget: at most three bytes of it are not used.\<close>

lemma cut_line:
  assumes "mb < str_len l"
  obtains k where "k \<le> length l" "str_from l (cut_loop l (str_len l - mb)) = Some (drop k l)"
    "str_len (drop k l) \<le> mb" "mb < str_len (drop k l) + 4"
proof -
  let ?c = "cut_loop l (str_len l - mb)"
  have c: "str_len l - mb \<le> ?c" "?c \<le> str_len l" "is_char_boundary l ?c" "?c < str_len l - mb + 4"
    using cut_loop_spec [of "str_len l - mb" l] cut_loop_near [of "str_len l - mb" l] by auto
  then obtain k where k: "k \<le> length l" "str_len (take k l) = ?c"
    by (auto simp: is_char_boundary_iff)
  have "str_from l ?c = Some (drop k l)"
    using k by (simp add: str_from_def char_index_take flip: k(2))
  moreover have "str_len (drop k l) \<le> mb" "mb < str_len (drop k l) + 4"
    using str_len_take_drop [of k l] k c assms by linarith+
  ultimately show thesis using that k(1) by blast
qed

text \<open>The loop from the first line the line budget allows, in terms of all pieces.\<close>

lemma tail_window:
  fixes ps :: "rstr list" and ml mb :: nat
  assumes "ps \<noteq> []"
  defines "s0 \<equiv> length ps - max ml 1"
  obtains st bl c where "tail_loop (length ps) mb s0 (str_len (concat (drop s0 ps))) False (drop s0 ps) = Some (st, bl, c)"
    "s0 \<le> st" "st < length ps"
    "c \<Longrightarrow> bl \<and> st = length ps - 1 \<and> mb < str_len (last ps)"
    "\<not> c \<Longrightarrow> str_len (concat (drop st ps)) \<le> mb \<and> (bl \<longleftrightarrow> s0 < st)"
    "s0 < st \<Longrightarrow> mb < str_len (concat (drop (st - 1) ps))"
proof -
  have "0 < length ps" "0 < max ml 1" using assms(1) by simp_all
  then have lt: "s0 < length ps" unfolding s0_def by (rule diff_less [rotated])
  then have ne: "drop s0 ps \<noteq> []" "s0 + length (drop s0 ps) = length ps" by simp_all
  obtain st bl c where r: "tail_loop (length ps) mb s0 (str_len (concat (drop s0 ps))) False
      (drop s0 ps) = Some (st, bl, c)" "s0 \<le> st" "st < length ps"
    "c \<longrightarrow> bl \<and> st = length ps - 1 \<and> mb < str_len (last (drop s0 ps))"
    "\<not> c \<longrightarrow> str_len (concat (drop (st - s0) (drop s0 ps))) \<le> mb \<and> (bl \<longleftrightarrow> False \<or> s0 < st)"
    "s0 < st \<longrightarrow> mb < str_len (concat (drop (st - s0 - 1) (drop s0 ps)))"
    using tail_loop_spec [OF ne(2,1) refl, of mb False] by blast
  have dd: "s0 < st \<Longrightarrow> drop (st - s0 - 1) (drop s0 ps) = drop (st - 1) ps"
    "drop (st - s0) (drop s0 ps) = drop st ps"
    using r(2) by (simp_all add: drop_drop)
  show thesis by (rule that [OF r(1-3)]) (use r(4-6) ne(1) dd in auto)
qed

lemma take_tail_cases:
  fixes t ml mb
  defines "ps \<equiv> split_inclusive nl t"
  obtains (fits) "str_len t \<le> mb" "length ps \<le> max ml 1"
      "take_tail t ml mb = Some \<lparr>t_text = t, t_first_line = 1, t_kept_lines = length ps,
         t_byte_limited = False, t_cut_mid_line = False, t_truncated = False\<rparr>"
  | (lines) st bl where "\<not> (str_len t \<le> mb \<and> length ps \<le> max ml 1)"
      "length ps - max ml 1 \<le> st" "st < length ps" "str_len (concat (drop st ps)) \<le> mb"
      "bl \<longleftrightarrow> length ps - max ml 1 < st" "bl \<Longrightarrow> mb < str_len (concat (drop (st - 1) ps))"
      "take_tail t ml mb = Some \<lparr>t_text = concat (drop st ps), t_first_line = st + 1,
         t_kept_lines = length ps - st, t_byte_limited = bl, t_cut_mid_line = False,
         t_truncated = True\<rparr>"
  | (mid) k where "\<not> (str_len t \<le> mb \<and> length ps \<le> max ml 1)" "ps \<noteq> []"
      "mb < str_len (last ps)" "k \<le> length (last ps)" "str_len (drop k (last ps)) \<le> mb"
      "mb < str_len (drop k (last ps)) + 4"
      "take_tail t ml mb = Some \<lparr>t_text = drop k (last ps), t_first_line = length ps,
         t_kept_lines = 1, t_byte_limited = True, t_cut_mid_line = True, t_truncated = True\<rparr>"
proof (cases "str_len t \<le> mb \<and> length ps \<le> max ml 1")
  case True
  then show ?thesis by (intro fits) (simp_all add: take_tail_def ps_def Let_def)
next
  case False
  then have ps: "ps \<noteq> []" by (auto simp: ps_def)
  let ?s0 = "length ps - max ml 1"
  obtain st bl c where r: "tail_loop (length ps) mb ?s0 (str_len (concat (drop ?s0 ps))) False
      (drop ?s0 ps) = Some (st, bl, c)" "?s0 \<le> st" "st < length ps"
    "c \<Longrightarrow> bl \<and> st = length ps - 1 \<and> mb < str_len (last ps)"
    "\<not> c \<Longrightarrow> str_len (concat (drop st ps)) \<le> mb \<and> (bl \<longleftrightarrow> ?s0 < st)"
    "?s0 < st \<Longrightarrow> mb < str_len (concat (drop (st - 1) ps))"
    by (rule tail_window [OF ps, where ml = ml and mb = mb]) blast
  show ?thesis
  proof (cases c)
    case False
    show ?thesis
      using False r \<open>\<not> (str_len t \<le> mb \<and> length ps \<le> max ml 1)\<close>
      by (intro lines [of st bl])
        (auto simp: take_tail_def Let_def str_len_concat ps_def split: if_splits)
  next
    case True
    let ?l = "last ps"
    have "drop (length ps - 1) ps = [?l]"
      using ps by (metis append_butlast_last_id append_eq_conv_conj length_butlast)
    then have l: "concat (drop st ps) = ?l" "mb < str_len ?l" using r(4) [OF True] by simp_all
    have st: "length ps - st = 1" "st + 1 = length ps" using r(3) r(4) [OF True] by linarith+
    have r1: "tail_loop (length ps) mb ?s0 (sum_list (map str_len (drop ?s0 ps))) False (drop ?s0 ps)
        = Some (st, True, True)"
      using r(1,4) True by (simp add: str_len_concat)
    obtain k where k: "k \<le> length ?l" "str_from ?l (cut_loop ?l (str_len ?l - mb)) = Some (drop k ?l)"
      "str_len (drop k ?l) \<le> mb" "mb < str_len (drop k ?l) + 4"
      by (rule cut_line [OF l(2)])
    show ?thesis
    proof (rule mid [of k])
      show "take_tail t ml mb = Some \<lparr>t_text = drop k ?l, t_first_line = length ps,
         t_kept_lines = 1, t_byte_limited = True, t_cut_mid_line = True, t_truncated = True\<rparr>"
        using r1 l k(2) st \<open>\<not> (str_len t \<le> mb \<and> length ps \<le> max ml 1)\<close>
        unfolding take_tail_def Let_def ps_def [symmetric] by simp
    qed (use k l ps \<open>\<not> (str_len t \<le> mb \<and> length ps \<le> max ml 1)\<close> in auto)
  qed
qed

section \<open>Properties of the truncation\<close>

text \<open>
  C21: Head truncation keeps the longest run of whole leading lines that fits both budgets: the kept
  text is exactly the first \<open>h_kept_lines\<close> lines, no more than the line budget and the byte budget
  allow; when lines are dropped, one more line would exceed a budget, and the flags say which one
  and whether not even the first line fitted.
\<close>

theorem take_head_maximal:
  "h_text (take_head t ml mb) = concat (take (h_kept_lines (take_head t ml mb)) (split_inclusive nl t)) \<and>
   h_kept_lines (take_head t ml mb) \<le> min ml (count_lines t) \<and>
   str_len (h_text (take_head t ml mb)) \<le> mb \<and>
   h_kept_lines (take_head t ml mb) = Max {k. k \<le> min ml (count_lines t) \<and>
     str_len (concat (take k (split_inclusive nl t))) \<le> mb} \<and>
   (h_byte_limited (take_head t ml mb) \<longleftrightarrow> h_kept_lines (take_head t ml mb) < min ml (count_lines t)) \<and>
   (h_first_line_too_big (take_head t ml mb) \<longleftrightarrow> h_kept_lines (take_head t ml mb) = 0 \<and> t \<noteq> [])"
proof -
  let ?k = "h_kept_lines (take_head t ml mb)" and ?ps = "split_inclusive nl t"
  note S = take_head_spec [of t ml mb]
  have "?k = Max {k. k \<le> min ml (count_lines t) \<and> str_len (concat (take k ?ps)) \<le> mb}"
  proof (rule Max_eqI [symmetric])
    show "finite {k. k \<le> min ml (count_lines t) \<and> str_len (concat (take k ?ps)) \<le> mb}" by simp
    show "?k \<in> {k. k \<le> min ml (count_lines t) \<and> str_len (concat (take k ?ps)) \<le> mb}"
      using S(1-4) by (simp add: count_lines_def)
  next
    fix j
    assume "j \<in> {k. k \<le> min ml (count_lines t) \<and> str_len (concat (take k ?ps)) \<le> mb}"
    then have j: "j \<le> ml" "j \<le> length ?ps" "str_len (concat (take j ?ps)) \<le> mb"
      by (simp_all add: count_lines_def)
    show "j \<le> ?k"
    proof (rule ccontr)
      assume "\<not> j \<le> ?k"
      then have lt: "Suc ?k \<le> j" by simp
      then have "mb < str_len (concat (take (Suc ?k) ?ps))" using S(5) j by simp
      moreover have "concat (take j ?ps) = concat (take (Suc ?k) ?ps) @ concat (drop (Suc ?k) (take j ?ps))"
        using lt by (metis append_take_drop_id concat_append min.absorb1 take_take)
      ultimately show False using j(3) by simp
    qed
  qed
  then show ?thesis using S by (auto simp: count_lines_def)
qed

text \<open>
  C22: Tail truncation never panics and keeps a suffix of the text: everything when it fits; else the
  longest run of whole last lines within both budgets (a line budget of zero counts as one); else,
  when the last line alone is too long, its longest tail that starts at a character boundary, which
  misses the byte budget by at most three bytes. The line numbers that are reported are those of the
  kept lines.
\<close>

theorem take_tail_suffix:
  "\<exists>r pre. take_tail t ml mb = Some r \<and> t = pre @ t_text r \<and> str_len (t_text r) \<le> mb \<and>
     t_kept_lines r \<le> max ml 1 \<and>
     (t_truncated r \<longleftrightarrow> \<not> (str_len t \<le> mb \<and> count_lines t \<le> max ml 1)) \<and>
     (\<not> t_truncated r \<longrightarrow> pre = []) \<and>
     (t_truncated r \<longrightarrow> t_first_line r + t_kept_lines r = count_lines t + 1) \<and>
     (\<not> t_cut_mid_line r \<and> t_truncated r \<longrightarrow>
        pre = concat (take (t_first_line r - 1) (split_inclusive nl t)) \<and>
        (t_byte_limited r \<longrightarrow>
           mb < str_len (concat (drop (t_first_line r - 2) (split_inclusive nl t)))) \<and>
        (\<not> t_byte_limited r \<longrightarrow> t_first_line r = count_lines t - max ml 1 + 1)) \<and>
     (t_cut_mid_line r \<longrightarrow>
        t_kept_lines r = 1 \<and> suffix (t_text r) (last (split_inclusive nl t)) \<and>
        mb < str_len (last (split_inclusive nl t)) \<and> mb < str_len (t_text r) + 4)"
proof (cases rule: take_tail_cases [where t = t and ml = ml and mb = mb])
  case fits
  then show ?thesis by (simp add: count_lines_def)
next
  case (lines st bl)
  let ?ps = "split_inclusive nl t"
  have split: "concat (take st ?ps) @ concat (drop st ?ps) = t"
    by (simp add: concat_append [symmetric] concat_split_inclusive del: concat_append)
  have nums: "length ?ps - st \<le> max ml 1" "\<not> bl \<Longrightarrow> st = length ?ps - max ml 1"
    "st + (length ?ps - st) = length ?ps"
    using lines(2,3,5) by linarith+
  show ?thesis
    unfolding lines(7)
    by (rule exI, rule exI [of _ "concat (take st ?ps)"], intro conjI, rule refl)
      (simp_all add: split lines(4) nums(2,3) count_lines_def, (use nums(1) lines(1,6) in simp)+)
next
  case (mid k)
  let ?ps = "split_inclusive nl t"
  have "concat ?ps = concat (butlast ?ps) @ last ?ps"
    using mid(2) by (metis append_Nil2 append_butlast_last_id concat.simps concat_append)
  then have split: "(concat (butlast ?ps) @ take k (last ?ps)) @ drop k (last ?ps) = t"
    by (simp add: concat_split_inclusive)
  have suf: "suffix (drop k (last ?ps)) (last ?ps)" by (rule suffix_drop)
  have pos: "0 < length ?ps" using mid(2) by simp
  show ?thesis
    unfolding mid(7)
    by (rule exI, rule exI [of _ "concat (butlast ?ps) @ take k (last ?ps)"], intro conjI, rule refl)
      (use split suf pos mid(1,3,5,6) in \<open>simp_all add: count_lines_def\<close>)
qed

lemma take_tail_suffix_witness:
  "\<exists>r pre. take_tail (lit ''one two'') 5 3 = Some r \<and> lit ''one two'' = pre @ t_text r \<and> str_len (t_text r) \<le> 3"
  using take_tail_suffix [of "lit ''one two''" 5 3] by blast

end
