(* ===== verification/Read_Tool.thy ===== *)
theory Read_Tool
  imports Tool_Types Truncate Write_Tool
begin

text \<open>
  \<^theory_text>\<open>tools/read.rs\<close>: guards, images, the line window and its notes. The crate \<^theory_text>\<open>image\<close> and the base64
  encoder are parameters.
\<close>

section \<open>Images\<close>

datatype image_format = Png | Jpeg | Gif | WebP | Bmp | OtherFormat

record 'img image_lib =
  il_guess :: "byte list \<Rightarrow> rstr + image_format"
  il_load :: "byte list \<Rightarrow> image_format \<Rightarrow> rstr + 'img"
  il_width :: "'img \<Rightarrow> u32"
  il_height :: "'img \<Rightarrow> u32"
  il_resize :: "u32 \<Rightarrow> u32 \<Rightarrow> 'img \<Rightarrow> 'img"
  il_write_png :: "'img \<Rightarrow> rstr + byte list"
  il_base64 :: "byte list \<Rightarrow> rstr"

definition IMAGE_MAX_DIM :: u32 where
  "IMAGE_MAX_DIM = 2000"

definition MAX_READ_BYTES :: nat where
  "MAX_READ_BYTES = 64 * 1024 * 1024"

definition SNIFF_LEN :: nat where
  "SNIFF_LEN = 8192"

fun format_mime :: "image_format \<Rightarrow> rstr option" where
  "format_mime Png = Some (lit ''image/png'')"
| "format_mime Jpeg = Some (lit ''image/jpeg'')"
| "format_mime Gif = Some (lit ''image/gif'')"
| "format_mime WebP = Some (lit ''image/webp'')"
| "format_mime Bmp = Some (lit ''image/bmp'')"
| "format_mime OtherFormat = None"

definition detect_image_mime :: "'img image_lib \<Rightarrow> byte list \<Rightarrow> rstr option" where
  "detect_image_mime il bytes =
     (case il_guess il bytes of Inl _ \<Rightarrow> None | Inr format \<Rightarrow> format_mime format)"

definition encode_image_for_content ::
  "'img image_lib \<Rightarrow> rstr \<Rightarrow> byte list \<Rightarrow> rstr + rstr \<times> rstr" where
  "encode_image_for_content il path bytes =
     (case il_guess il bytes of
        Inl e \<Rightarrow> Inl (lit ''failed to detect image '' @ path @ lit '': '' @ e)
      | Inr format \<Rightarrow>
          (case il_load il bytes format of
             Inl e \<Rightarrow> Inl (lit ''failed to decode image '' @ path @ lit '': '' @ e)
           | Inr img \<Rightarrow>
               (if il_width il img > IMAGE_MAX_DIM \<or> il_height il img > IMAGE_MAX_DIM then
                  (case il_write_png il (il_resize il IMAGE_MAX_DIM IMAGE_MAX_DIM img) of
                     Inl e \<Rightarrow> Inl (lit ''failed to re-encode image '' @ path @ lit '': '' @ e)
                   | Inr buffer \<Rightarrow> Inr (il_base64 il buffer, lit ''image/png''))
                else
                  (let mime = (case format_mime format of Some m \<Rightarrow> m | None \<Rightarrow> lit ''image/png'')
                   in Inr (il_base64 il bytes, mime)))))"

section \<open>The line window\<close>

text \<open>
  The loop: the lines that are kept and whether the byte budget stopped it; \<open>n\<close> lines with
  \<open>used\<close> bytes have been kept so far.
\<close>

fun window_loop :: "nat \<Rightarrow> nat \<Rightarrow> nat \<Rightarrow> rstr list \<Rightarrow> rstr list \<times> bool" where
  "window_loop line_budget n used [] = ([], False)"
| "window_loop line_budget n used (line # rest) =
     (if n < line_budget then
        if used + str_len line > MAX_BYTES then ([], True)
        else (let (kept, capped) = window_loop line_budget (n + 1) (used + str_len line) rest
              in (line # kept, capped))
      else ([], False))"

definition line_budget :: "u32 option \<Rightarrow> nat" where
  "line_budget limit = min (case limit of Some l \<Rightarrow> unat l | None \<Rightarrow> MAX_LINES) MAX_LINES"

definition user_limited :: "u32 option \<Rightarrow> bool" where
  "user_limited limit = (case limit of Some l \<Rightarrow> unat l < MAX_LINES | None \<Rightarrow> False)"

text \<open>The part of \<^theory_text>\<open>run\<close> behind the reading of the text; \<open>offset\<close> is at least one.\<close>

definition read_window :: "rstr \<Rightarrow> rstr \<Rightarrow> u32 \<Rightarrow> u32 option \<Rightarrow> rstr + read_output" where
  "read_window path content offset limit =
     (if content = [] then
        Inr \<lparr>ro_path = path, ro_content = lit ''(file is empty)'', ro_start_line = None,
             ro_end_line = None, ro_total_lines = Some 0, ro_image_mime_type = None\<rparr>
      else
        (let lines = split_inclusive nl content; total = length lines; start = unat offset - 1
         in if start \<ge> total then
              Inl (lit ''Offset '' @ dec (unat offset) @ lit '' is beyond end of file (''
                   @ dec total @ lit '' lines total)'')
            else
              (let (kept, byte_capped) = window_loop (line_budget limit) 0 0 (drop start lines);
                   end = start + length kept
               in if kept = [] then
                    Inr \<lparr>ro_path = path,
                         ro_content = lit ''[Line '' @ dec (start + 1) @ lit '' is ''
                           @ format_kb (str_len (lines ! start)) @ lit '', exceeds ''
                           @ format_kb MAX_BYTES @ lit '' limit.'' @ [nl]
                           @ lit ''Use bash to inspect the line in chunks.]'',
                         ro_start_line = Some (of_nat start + 1), ro_end_line = Some (of_nat start + 1),
                         ro_total_lines = Some (of_nat total), ro_image_mime_type = None\<rparr>
                  else
                    (let first = start + 1; last = end; more_remain = (end < total);
                         budget_hit = (length kept = line_budget limit \<and> more_remain);
                         shown = concat kept;
                         note =
                           (if byte_capped then
                              lit ''[Showing lines '' @ dec first @ lit ''-'' @ dec last @ lit '' of ''
                              @ dec total @ lit '' ('' @ format_kb MAX_BYTES
                              @ lit '' limit). Use offset='' @ dec (last + 1) @ lit '' to continue.]''
                            else if user_limited limit then
                              lit ''['' @ dec (total - last) @ lit '' more lines in file. Use offset=''
                              @ dec (last + 1) @ lit '' to continue.]''
                            else
                              lit ''[Showing lines '' @ dec first @ lit ''-'' @ dec last @ lit '' of ''
                              @ dec total @ lit ''. Use offset='' @ dec (last + 1) @ lit '' to continue.]'')
                     in Inr \<lparr>ro_path = path,
                             ro_content = (if byte_capped \<or> budget_hit then append_note shown note else shown),
                             ro_start_line = Some (of_nat first), ro_end_line = Some (of_nat last),
                             ro_total_lines = Some (of_nat total), ro_image_mime_type = None\<rparr>))))"

section \<open>The tool\<close>

text \<open>
  The code takes the type and the size from the metadata and then reads the file; on a tree that does
  not change in between the size is that of the bytes, so the order of the two checks shows nowhere.
\<close>

definition read_run ::
  "'img image_lib \<Rightarrow> path \<Rightarrow> fs \<Rightarrow> rstr \<Rightarrow> u32 option \<Rightarrow> u32 option \<Rightarrow> rstr + read_output" where
  "read_run il base fs path offset0 limit =
     (let offset = (case offset0 of Some x \<Rightarrow> x | None \<Rightarrow> 1)
      in if offset = 0 then Inl (lit ''Invalid offset: must be at least 1 (lines are 1-based)'')
         else if limit = Some 0 then Inl (lit ''Invalid limit: must be at least 1'')
         else case resolve_in_workspace fs base path of
             Inl e \<Rightarrow> Inl (path_error_text e)
           | Inr resolved \<Rightarrow>
          (case canonicalize fs resolved of
             Inl _ \<Rightarrow> Inl (lit ''File not found: '' @ path)
           | Inr file \<Rightarrow>
          if fs file = Some Dir then
            Inl (path @ lit '' is a directory; use bash (e.g. `ls -la '' @ path @ lit ''`) to inspect it'')
          else case fs_read fs resolved of
             Inl e \<Rightarrow> Inl (lit ''failed to read '' @ path @ lit '': '' @ io_error_text e)
           | Inr bytes \<Rightarrow>
          if length bytes > MAX_READ_BYTES then
            Inl (path @ lit '' is '' @ dec (length bytes) @ lit '' bytes, above the '' @ dec MAX_READ_BYTES
                 @ lit '' byte read limit; use bash to read it in chunks'')
          else case detect_image_mime il bytes of
             Some mime \<Rightarrow>
               Inr \<lparr>ro_path = path, ro_content = lit ''Read image file ['' @ mime @ lit '']'',
                    ro_start_line = None, ro_end_line = None, ro_total_lines = None,
                    ro_image_mime_type = Some mime\<rparr>
           | None \<Rightarrow>
          if 0 \<in> set (take (min (length bytes) SNIFF_LEN) bytes) then
            Inl (path @ lit '' appears to be a binary file; use bash to inspect it'')
          else case utf8_decode bytes of
             None \<Rightarrow> Inl (path @ lit '' is not valid UTF-8 text'')
           | Some content \<Rightarrow> read_window path content offset limit))"

section \<open>The loop is head truncation\<close>

lemma window_loop_head:
  "head_loop budget MAX_BYTES n used ls =
     (n + length (fst (window_loop budget n used ls)), snd (window_loop budget n used ls)) \<and>
   fst (window_loop budget n used ls) = take (length (fst (window_loop budget n used ls))) ls"
  by (induction budget n used ls rule: window_loop.induct) (auto simp: Let_def split_def)

text \<open>What the loop keeps of the lines from \<open>start\<close> on.\<close>

lemma window_loop_spec:
  assumes "window_loop budget 0 0 ls = (kept, capped)"
  shows "kept = take (length kept) ls" "length kept \<le> budget" "length kept \<le> length ls"
    "str_len (concat kept) \<le> MAX_BYTES"
    "capped \<Longrightarrow> length kept < budget \<and> length kept < length ls \<and>
       MAX_BYTES < str_len (concat (take (Suc (length kept)) ls))"
    "\<not> capped \<Longrightarrow> length kept = budget \<or> length kept = length ls"
proof -
  have k: "kept = take (length kept) ls" "head_loop budget MAX_BYTES 0 0 ls = (length kept, capped)"
    using window_loop_head [of budget 0 0 ls] assms by simp_all
  note spec = head_loop_spec [OF k(2)]
  show "kept = take (length kept) ls" by (rule k(1))
  show "length kept \<le> budget" "length kept \<le> length ls" using spec by simp_all
  show "str_len (concat kept) \<le> MAX_BYTES" using spec k(1) by simp
  show "capped \<Longrightarrow> length kept < budget \<and> length kept < length ls \<and>
       MAX_BYTES < str_len (concat (take (Suc (length kept)) ls))"
    using spec by simp
  show "\<not> capped \<Longrightarrow> length kept = budget \<or> length kept = length ls" using spec by simp
qed

section \<open>Numbers\<close>

lemma lines_le_bytes: "count_lines t \<le> str_len t"
proof -
  have "length ps \<le> str_len (concat ps)" if "\<forall>p \<in> set ps. p \<noteq> []" for ps
    using that
  proof (induction ps)
    case (Cons p ps)
    have "0 < str_len p" using Cons.prems str_len_pos [of p] by simp
    moreover have "length ps \<le> str_len (concat ps)" using Cons by simp
    ultimately show ?case by simp
  qed simp
  from this [of "split_inclusive nl t"] show ?thesis
    using split_inclusive_nonempty [of _ nl t] by (simp add: count_lines_def concat_split_inclusive)
qed

lemma unat_line_number:
  assumes "k \<le> MAX_READ_BYTES"
  shows "unat (of_nat k :: u32) = k"
  using assms by (simp add: MAX_READ_BYTES_def unat_of_nat)

section \<open>Properties\<close>

text \<open>The output of a window that keeps at least one line.\<close>

definition window_note :: "bool \<Rightarrow> u32 option \<Rightarrow> nat \<Rightarrow> nat \<Rightarrow> nat \<Rightarrow> rstr" where
  "window_note capped limit first last_line total_lines =
     (if capped then
        lit ''[Showing lines '' @ dec first @ lit ''-'' @ dec last_line @ lit '' of '' @ dec total_lines @ lit '' (''
        @ format_kb MAX_BYTES @ lit '' limit). Use offset='' @ dec (last_line + 1) @ lit '' to continue.]''
      else if user_limited limit then
        lit ''['' @ dec (total_lines - last_line) @ lit '' more lines in file. Use offset='' @ dec (last_line + 1)
        @ lit '' to continue.]''
      else lit ''[Showing lines '' @ dec first @ lit ''-'' @ dec last_line @ lit '' of '' @ dec total_lines
        @ lit ''. Use offset='' @ dec (last_line + 1) @ lit '' to continue.]'')"

lemma read_window_page:
  fixes content offset
  defines "ls \<equiv> split_inclusive nl content" and "st \<equiv> unat offset - 1"
  assumes "content \<noteq> []" and "st < length ls" and "kept \<noteq> []"
    and w: "window_loop (line_budget limit) 0 0 (drop st ls) = (kept, capped)"
  shows "read_window path content offset limit =
    Inr \<lparr>ro_path = path,
      ro_content = (if st + length kept < length ls
        then append_note (concat kept) (window_note capped limit (Suc st) (st + length kept) (length ls))
        else concat kept),
      ro_start_line = Some (of_nat (Suc st)), ro_end_line = Some (of_nat (st + length kept)),
      ro_total_lines = Some (of_nat (length ls)), ro_image_mime_type = None\<rparr>"
proof -
  note S = window_loop_spec [OF w]
  have note_iff: "capped \<or> (length kept = line_budget limit \<and> st + length kept < length ls) \<longleftrightarrow>
      st + length kept < length ls"
    using S(5,6) assms(4) by auto
  have "\<not> length ls \<le> st" using assms(4) by simp
  then show ?thesis
    using assms(3,5) unfolding read_window_def Let_def ls_def [symmetric] st_def [symmetric] w prod.case note_iff
    by (simp only: if_False Suc_eq_plus1 window_note_def)
qed

text \<open>What the loop has shown when it stops: the lines up to \<open>e\<close>, within both budgets, and why no more.\<close>

lemma window_stops:
  fixes content limit st
  defines "ls \<equiv> split_inclusive nl content"
  assumes "window_loop (line_budget limit) 0 0 (drop st ls) = (kept, capped)"
    and "st < length ls" and "limit \<noteq> Some 0"
  defines "e \<equiv> st + length kept"
  shows "e \<le> length ls" "concat (take (e - st) (drop st ls)) = concat kept"
    "length kept \<le> line_budget limit" "str_len (concat kept) \<le> MAX_BYTES"
    "e < length ls \<Longrightarrow> e - st = line_budget limit \<or>
       MAX_BYTES < str_len (concat (take (Suc e - st) (drop st ls)))"
    "kept = [] \<Longrightarrow> capped" "kept = [] \<Longrightarrow> MAX_BYTES < str_len (ls ! st)"
proof -
  note S = window_loop_spec [OF assms(2)]
  have lb: "0 < line_budget limit"
    using assms(4) by (auto simp: line_budget_def MAX_LINES_def unat_gt_0 split: option.splits)
  have e: "e - st = length kept" "Suc e - st = Suc (length kept)" by (simp_all add: e_def Suc_diff_le)
  show "e \<le> length ls" using S(3) assms(3) by (simp add: e_def)
  show "concat (take (e - st) (drop st ls)) = concat kept" using S(1) e(1) by simp
  show "length kept \<le> line_budget limit" "str_len (concat kept) \<le> MAX_BYTES" using S(2,4) by simp_all
  show "e - st = line_budget limit \<or> MAX_BYTES < str_len (concat (take (Suc e - st) (drop st ls)))"
    if "e < length ls"
    using S(5,6) e that assms(3) unfolding e_def by (cases capped) auto
  show cap: capped if "kept = []" using S(6) lb assms(3) that by auto
  show "MAX_BYTES < str_len (ls ! st)" if "kept = []"
    using S(5) cap [OF that] that assms(3) by (simp add: take_Suc hd_drop_conv_nth)
qed

text \<open>
  C32: The window is what was asked for. For a text of at most the read limit and an offset inside
  it, \<^theory_text>\<open>read\<close> reports the lines from the offset to some line \<open>e\<close>, the numbers it reports are those
  of the lines (no \<^theory_text>\<open>u32\<close> wraps), the shown text consists of exactly these whole lines (followed by
  a note if lines remain), their number respects the limit and their bytes the byte budget, and the
  window could not have been longer. Only if the first line alone exceeds the byte budget no
  line is shown.
\<close>

theorem read_window_exact:
  assumes "content \<noteq> []" and "str_len content \<le> MAX_READ_BYTES" and "limit \<noteq> Some 0"
    and "0 < unat offset" and "unat offset \<le> count_lines content"
  shows "\<exists>out e note. read_window path content offset limit = Inr out \<and>
    unat offset - 1 \<le> e \<and> e \<le> count_lines content \<and> e - (unat offset - 1) \<le> line_budget limit \<and>
    map_option unat (ro_total_lines out) = Some (count_lines content) \<and>
    map_option unat (ro_start_line out) = Some (unat offset) \<and>
    map_option unat (ro_end_line out) = Some (max e (unat offset)) \<and>
    (let shown = concat (take (e - (unat offset - 1)) (drop (unat offset - 1) (split_inclusive nl content)))
     in str_len shown \<le> MAX_BYTES \<and>
        (unat offset \<le> e \<longrightarrow> ro_content out = (if e < count_lines content then append_note shown note else shown))) \<and>
    (e < count_lines content \<longrightarrow> e - (unat offset - 1) = line_budget limit \<or>
       MAX_BYTES < str_len (concat (take (Suc e - (unat offset - 1)) (drop (unat offset - 1) (split_inclusive nl content))))) \<and>
    (e < unat offset \<longrightarrow> MAX_BYTES < str_len (split_inclusive nl content ! (unat offset - 1)))"
proof -
  let ?ls = "split_inclusive nl content" and ?st = "unat offset - 1" and ?n = "count_lines content"
  obtain kept capped where w: "window_loop (line_budget limit) 0 0 (drop ?st ?ls) = (kept, capped)" by force
  have n: "?n = length ?ls" "?st < ?n" "Suc ?st = unat offset" using assms(4,5) by (simp_all add: count_lines_def)
  define e where "e = ?st + length kept"
  note S = window_stops [OF w _ assms(3), folded e_def n(1), OF n(2)]
  have u: "unat (of_nat k :: u32) = k" if "k \<le> ?n" for k
    using that lines_le_bytes [of content] assms(2) unat_line_number by simp
  have e: "?st \<le> e" "e - ?st = length kept" by (simp_all add: e_def)
  show ?thesis
  proof (cases "kept = []")
    case True
    have "of_nat ?st + 1 = (of_nat (Suc ?st) :: u32)" by simp
    then have s1: "of_nat ?st + 1 = (of_nat (unat offset) :: u32)" by (simp only: n(3))
    show ?thesis
      using True w assms(1) n S(1-5) S(6,7) [OF True] e s1 u [of "unat offset"] u [of ?n] assms(5)
      by (intro exI [of _ e] exI) (auto simp: read_window_def Let_def max_def)
  next
    case False
    then have pos: "unat offset \<le> e" using n(3) by (cases kept) (simp_all add: e_def)
    let ?msg = "window_note capped limit (Suc ?st) e ?n"
    let ?out = "\<lparr>ro_path = path, ro_content = (if e < ?n then append_note (concat kept) ?msg else concat kept),
      ro_start_line = Some (of_nat (Suc ?st)), ro_end_line = Some (of_nat e),
      ro_total_lines = Some (of_nat ?n), ro_image_mime_type = None\<rparr>"
    have run: "read_window path content offset limit = Inr ?out"
      using read_window_page [OF assms(1) _ False w] n(1,2) by (simp add: e_def)
    show ?thesis
      by (intro exI [of _ ?out] exI [of _ e] exI [of _ ?msg] conjI, rule run)
        (use S(1-5) e pos u [of "Suc ?st"] u [of e] u [of ?n] n(3) assms(5) in
          \<open>simp_all only: Let_def read_output.simps option.map max_def if_True simp_thms refl\<close>, simp_all)
  qed
qed

lemma read_window_exact_witness:
  "\<exists>out e. read_window (lit ''f'') (lit ''ab'' @ [nl] @ lit ''c'') 1 (Some 1) = Inr out \<and> e \<le> (2 :: nat) \<and>
    map_option unat (ro_start_line out) = Some (unat (1 :: u32))"
proof -
  have c: "lit ''ab'' @ [nl] @ lit ''c'' \<noteq> []" "str_len (lit ''ab'' @ [nl] @ lit ''c'') \<le> MAX_READ_BYTES"
    "Some (1 :: u32) \<noteq> Some 0" "0 < unat (1 :: u32)" "unat (1 :: u32) \<le> count_lines (lit ''ab'' @ [nl] @ lit ''c'')"
    "count_lines (lit ''ab'' @ [nl] @ lit ''c'') = 2"
    by (simp_all add: lit_simps nl_def MAX_READ_BYTES_def count_lines_def len_utf8_def)
  from read_window_exact [OF c(1-5), of "lit ''f''"]
  obtain out e where r: "read_window (lit ''f'') (lit ''ab'' @ [nl] @ lit ''c'') 1 (Some 1) = Inr out"
      "e \<le> count_lines (lit ''ab'' @ [nl] @ lit ''c'')"
      "map_option unat (ro_start_line out) = Some (unat (1 :: u32))"
    by blast
  show ?thesis
    by (rule exI [of _ out], rule exI [of _ e], rule conjI [OF r(1) conjI [OF r(2) [unfolded c(6)] r(3)]])
qed

section \<open>Reading page by page\<close>

text \<open>The line at which a window that starts at \<open>start\<close> ends; the next page starts there.\<close>

definition window_end :: "nat \<Rightarrow> rstr list \<Rightarrow> nat \<Rightarrow> nat" where
  "window_end budget ls start = start + length (fst (window_loop budget 0 0 (drop start ls)))"

text \<open>The texts of the pages that a client gets by following the offsets of the notes.\<close>

fun pages :: "nat \<Rightarrow> nat \<Rightarrow> rstr list \<Rightarrow> nat \<Rightarrow> rstr list" where
  "pages 0 budget ls start = []"
| "pages (Suc fuel) budget ls start =
     (if start < length ls then
        concat (fst (window_loop budget 0 0 (drop start ls))) # pages fuel budget ls (window_end budget ls start)
      else [])"

lemma window_end_progress:
  assumes "0 < budget" and "start < length ls" and "str_len (ls ! start) \<le> MAX_BYTES"
  shows "start < window_end budget ls start"
  using assms
  unfolding window_end_def drop_eq_Cons_nth [OF assms(2)]
  by (simp add: Let_def split_def)

lemma pages_concat:
  assumes "0 < budget" and "\<forall>l \<in> set ls. str_len l \<le> MAX_BYTES" and "length ls - start \<le> fuel"
  shows "concat (pages fuel budget ls start) = concat (drop start ls)"
  using assms(3)
proof (induction fuel arbitrary: start)
  case 0
  then show ?case by simp
next
  case (Suc fuel)
  show ?case
  proof (cases "start < length ls")
    case True
    let ?e = "window_end budget ls start"
    have pr: "start < ?e" using True assms(1,2) by (intro window_end_progress) simp_all
    have kept: "fst (window_loop budget 0 0 (drop start ls)) = take (?e - start) (drop start ls)"
      using window_loop_head [of budget 0 0 "drop start ls"] by (simp add: window_end_def)
    have "concat (drop start ls) = concat (take (?e - start) (drop start ls)) @ concat (drop ?e ls)"
      using pr by (metis append_take_drop_id concat_append drop_drop le_add_diff_inverse2 less_imp_le)
    moreover have "concat (pages fuel budget ls ?e) = concat (drop ?e ls)"
      using Suc.prems pr by (intro Suc.IH) simp
    ultimately show ?thesis using True kept by simp
  qed simp
qed

text \<open>
  Pagination reads the whole file. If no single line exceeds the byte budget, then a client that
  reads from the first line and follows the offset of each note sees, page after page, exactly the
  contents: no line is skipped, repeated or cut, whatever limit it uses, and it is done after at
  most as many pages as there are lines.
\<close>

theorem pagination_complete:
  assumes "\<forall>l \<in> set (split_inclusive nl content). str_len l \<le> MAX_BYTES" and "limit \<noteq> Some 0"
  shows "concat (pages (count_lines content) (line_budget limit) (split_inclusive nl content) 0) = content"
proof -
  have "0 < line_budget limit"
    using assms(2) by (auto simp: line_budget_def MAX_LINES_def unat_gt_0 split: option.splits)
  then show ?thesis using pages_concat [OF _ assms(1), of "line_budget limit" 0 "count_lines content"]
    by (simp add: count_lines_def)
qed

lemma pagination_complete_witness:
  "concat (pages (count_lines (lit ''ab'' @ [nl] @ lit ''c'')) (line_budget (Some 1))
     (split_inclusive nl (lit ''ab'' @ [nl] @ lit ''c'')) 0) = lit ''ab'' @ [nl] @ lit ''c''"
  by (rule pagination_complete) code_simp+

text \<open>
  The client that reads a file to its end: it asks again behind the last line of each reply, as the
  notes tell it to, until a reply ends at the last line of the file.
\<close>

fun read_all :: "nat \<Rightarrow> rstr \<Rightarrow> rstr \<Rightarrow> u32 option \<Rightarrow> u32 \<Rightarrow> (rstr + read_output) list" where
  "read_all 0 path content limit offset = []"
| "read_all (Suc fuel) path content limit offset =
     (let r = read_window path content offset limit
      in r # (case r of
          Inl _ \<Rightarrow> []
        | Inr out \<Rightarrow>
            (case (ro_end_line out, ro_total_lines out) of
               (Some e, Some n) \<Rightarrow> if e < n then read_all fuel path content limit (e + 1) else []
             | _ \<Rightarrow> [])))"

text \<open>
  Replies that show, one after the other, the lines from \<open>start\<close> to the end of the file: each reports
  the numbers of its lines, goes on where the one before has ended, and shows at least one line. The
  last one shows the text of its lines and nothing else; the others have a note.
\<close>

fun shows_from :: "rstr list \<Rightarrow> u32 option \<Rightarrow> nat \<Rightarrow> (rstr + read_output) list \<Rightarrow> bool" where
  "shows_from ls limit start [] \<longleftrightarrow> start = length ls"
| "shows_from ls limit start (r # rs) \<longleftrightarrow>
     (\<exists>out e. r = Inr out \<and> start < e \<and> e \<le> length ls \<and>
        map_option unat (ro_start_line out) = Some (start + 1) \<and> map_option unat (ro_end_line out) = Some e \<and>
        map_option unat (ro_total_lines out) = Some (length ls) \<and>
        (let page = concat (take (e - start) (drop start ls))
         in if e < length ls
            then \<exists>capped. noted page (window_note capped limit (start + 1) e (length ls)) (ro_content out)
            else ro_content out = page) \<and>
        shows_from ls limit e rs)"

text \<open>
  A client that takes from a reply as many lines of its text as the line numbers of the reply say.
\<close>

fun read_back :: "rstr + read_output \<Rightarrow> rstr" where
  "read_back (Inl e) = []"
| "read_back (Inr out) =
     (case (ro_start_line out, ro_end_line out) of
        (Some a, Some b) \<Rightarrow> concat (take (unat b + 1 - unat a) (split_inclusive nl (ro_content out)))
      | _ \<Rightarrow> [])"

text \<open>A reply whose last line is not only white space.\<close>

fun ends_in_text :: "rstr list \<Rightarrow> rstr + read_output \<Rightarrow> bool" where
  "ends_in_text ls (Inl e) = False"
| "ends_in_text ls (Inr out) =
     (case ro_end_line out of None \<Rightarrow> False | Some b \<Rightarrow> \<not> list_all is_whitespace (ls ! (unat b - 1)))"

lemma read_all_shows:
  assumes "content \<noteq> []" and "str_len content \<le> MAX_READ_BYTES" and "limit \<noteq> Some 0"
    and "\<forall>l \<in> set (split_inclusive nl content). str_len l \<le> MAX_BYTES"
    and "start < count_lines content" and "count_lines content - start \<le> fuel"
  shows "shows_from (split_inclusive nl content) limit start (read_all fuel path content limit (of_nat (Suc start)))"
  using assms(5,6)
proof (induction fuel arbitrary: start)
  case (Suc fuel)
  let ?ls = "split_inclusive nl content" and ?b = "line_budget limit"
  obtain kept capped where w: "window_loop ?b 0 0 (drop start ?ls) = (kept, capped)" by force
  have n: "start < length ?ls" using Suc.prems by (simp add: count_lines_def)
  have lb: "0 < ?b"
    using assms(3) by (auto simp: line_budget_def MAX_LINES_def unat_gt_0 split: option.splits)
  define e where "e = start + length kept"
  have e: "window_end ?b ?ls start = e" using w by (simp add: window_end_def e_def)
  then have less: "start < e" using window_end_progress [OF lb n] assms(4) n by auto
  then have k: "kept \<noteq> []" by (auto simp: e_def)
  have le: "e \<le> length ?ls" using window_loop_spec(3) [OF w] n by (simp add: e_def)
  have page: "concat kept = concat (take (e - start) (drop start ?ls))"
    using window_loop_spec(1) [OF w] by (simp add: e_def)
  have u: "unat (of_nat k :: u32) = k" if "k \<le> length ?ls" for k
    using that lines_le_bytes [of content] assms(2) unat_line_number by (simp add: count_lines_def)
  have st: "unat (of_nat (Suc start) :: u32) - 1 = start" using u [of "Suc start"] n by simp
  let ?note = "window_note capped limit (Suc start) e (length ?ls)"
  let ?out = "\<lparr>ro_path = path,
      ro_content = (if e < length ?ls then append_note (concat kept) ?note else concat kept),
      ro_start_line = Some (of_nat (Suc start)), ro_end_line = Some (of_nat e),
      ro_total_lines = Some (of_nat (length ?ls)), ro_image_mime_type = None\<rparr>"
  have run: "read_window path content (of_nat (Suc start)) limit = Inr ?out"
    using read_window_page [OF assms(1), of "of_nat (Suc start)" kept limit capped path, unfolded st, OF n k w]
    by (simp only: e_def)
  have lt: "(of_nat e :: u32) < of_nat (length ?ls) \<longleftrightarrow> e < length ?ls"
    using u [OF le] u [of "length ?ls"] by (simp add: word_less_nat_alt)
  let ?rest = "if e < length ?ls then read_all fuel path content limit (of_nat (Suc e)) else []"
  have all: "read_all (Suc fuel) path content limit (of_nat (Suc start)) = Inr ?out # ?rest"
    unfolding read_all.simps run Let_def by (simp add: lt ac_simps)
  have rest: "shows_from ?ls limit e ?rest"
    using Suc.IH [of e] Suc.prems(2) less le by (auto simp: count_lines_def)
  have nums: "map_option unat (ro_start_line ?out) = Some (start + 1)" "map_option unat (ro_end_line ?out) = Some e"
    "map_option unat (ro_total_lines ?out) = Some (length ?ls)"
    using u [of "Suc start"] u [OF le] u [of "length ?ls"] n by simp_all
  have "\<exists>capped. noted (concat kept) (window_note capped limit (start + 1) e (length ?ls)) (ro_content ?out)"
    if "e < length ?ls"
    using that append_note_noted by (intro exI [of _ capped]) simp
  moreover have "ro_content ?out = concat kept" if "\<not> e < length ?ls" using that by simp
  ultimately have show_page: "let page = concat (take (e - start) (drop start ?ls))
      in if e < length ?ls
         then \<exists>capped. noted page (window_note capped limit (start + 1) e (length ?ls)) (ro_content ?out)
         else ro_content ?out = page"
    unfolding Let_def page [symmetric] by metis
  show ?case
    unfolding all shows_from.simps(2)
    by (rule exI [of _ ?out], rule exI [of _ e], intro conjI refl less le nums show_page rest)
qed simp

lemma shows_from_length: "shows_from ls limit start rs \<Longrightarrow> start + length rs \<le> length ls"
proof (induction rs arbitrary: start)
  case (Cons r rs)
  then obtain e where "start < e" "shows_from ls limit e rs" by auto
  then show ?case using Cons.IH [of e] by simp
qed simp

text \<open>The lines of a page that ends in a line with text, from the text with the note.\<close>

lemma noted_lines:
  assumes "noted page msg shown" and "split_inclusive nl page = ls @ [l]" and "last l = nl"
    and "\<not> list_all is_whitespace l" and "cr \<notin> set l"
  shows "concat (take (length ls + 1) (split_inclusive nl shown)) = page"
proof -
  have page: "page = concat ls @ l" using concat_split_inclusive [of nl page] assms(2) by simp
  then have nb: "\<not> list_all is_whitespace page" using assms(4) by (auto simp: list_all_iff)
  obtain body breaks where b: "page = body @ breaks" "list_all is_line_break breaks" "body \<noteq> []"
      "\<not> is_line_break (last body)" "shown = body @ [nl, nl] @ msg"
    using assms(1) nb unfolding noted_def by auto
  have "l \<noteq> []" using split_inclusive_nonempty [of l nl page] assms(2) by simp
  then obtain x where l: "l = x @ [nl]" using assms(3) by (metis append_butlast_last_id)
  have "nl \<notin> set x" using split_inclusive_inner [of l nl page] assms(2) l by simp
  moreover have "x \<noteq> []" using assms(4) l by (auto simp: is_whitespace_def nl_def)
  ultimately have x: "x \<noteq> []" "\<not> is_line_break (last x)"
    using assms(5) l by (auto simp: is_line_break_def) (metis last_in_set)+
  have same: "body @ breaks = (concat ls @ x) @ [nl]" using page b(1) l by simp
  have "breaks = [nl]"
  proof (cases breaks rule: rev_cases)
    case Nil
    then show ?thesis using same b(4) by (auto simp: is_line_break_def)
  next
    case (snoc ys y)
    then have y: "y = nl" "body @ ys = concat ls @ x" using same by simp_all
    have "ys = []"
    proof (rule ccontr)
      assume "ys \<noteq> []"
      have "last ys = last x" using y(2) x(1) \<open>ys \<noteq> []\<close> by (metis last_appendR)
      moreover have "is_line_break (last ys)" using b(2) snoc last_in_set [OF \<open>ys \<noteq> []\<close>] by (simp add: list_all_iff)
      ultimately show False using x(2) by simp
    qed
    then show ?thesis using snoc y(1) by simp
  qed
  then have "shown = page @ [nl] @ msg" using b(1,5) by simp
  moreover have "last page = nl" "page \<noteq> []" using page l by simp_all
  ultimately have "split_inclusive nl shown = split_inclusive nl page @ split_inclusive nl ([nl] @ msg)"
    using split_inclusive_append by blast
  then show ?thesis using assms(2) page by simp
qed

lemma read_back_from:
  assumes "shows_from ls limit start rs" and "ls = split_inclusive nl content" and "cr \<notin> set content"
    and "\<forall>r \<in> set (butlast rs). ends_in_text ls r"
  shows "concat (map read_back rs) = concat (drop start ls)"
  using assms(1,4)
proof (induction rs arbitrary: start)
  case (Cons r rs)
  obtain out e where r: "r = Inr out" "start < e" "e \<le> length ls"
    and nums: "map_option unat (ro_start_line out) = Some (start + 1)" "map_option unat (ro_end_line out) = Some e"
    and part: "let page = concat (take (e - start) (drop start ls))
         in if e < length ls
            then \<exists>capped. noted page (window_note capped limit (start + 1) e (length ls)) (ro_content out)
            else ro_content out = page"
    and rest: "shows_from ls limit e rs"
    using Cons.prems(1) by auto
  obtain a b where ab: "ro_start_line out = Some a" "unat a = start + 1" "ro_end_line out = Some b" "unat b = e"
    using nums by auto
  let ?page = "concat (take (e - start) (drop start ls))"
  have split: "concat (drop start ls) = ?page @ concat (drop e ls)"
    using r(2) by (metis append_take_drop_id concat_append drop_drop le_add_diff_inverse2 less_imp_le)
  have lines: "split_inclusive nl ?page = take (e - start) (drop start ls)"
    using split_inclusive_concat_take [of nl "e - start" "concat (drop start ls)"]
      split_inclusive_concat_drop [of nl start content] assms(2) by simp
  have taken: "read_back r = concat (take (e - start) (split_inclusive nl (ro_content out)))"
    using ab r(1,2) by (simp add: Suc_diff_Suc)
  have IH: "concat (map read_back rs) = concat (drop e ls)"
    using Cons.IH [OF rest] Cons.prems(2) by (cases "rs = []") auto
  have "read_back r = ?page"
  proof (cases "e < length ls")
    case False
    then show ?thesis unfolding taken using part lines by (simp add: Let_def)
  next
    case True
    then obtain capped where shown: "noted ?page (window_note capped limit (start + 1) e (length ls)) (ro_content out)"
      using part by (auto simp: Let_def)
    have "rs \<noteq> []" using rest True by auto
    then have text_end: "\<not> list_all is_whitespace (ls ! (e - 1))" using Cons.prems(2) r(1) ab by simp
    have tk: "take (e - start) (drop start ls) = take (e - start - 1) (drop start ls) @ [ls ! (e - 1)]"
    proof -
      have "e - start = Suc (e - start - 1)" "e - start - 1 < length (drop start ls)" "start + (e - start - 1) = e - 1"
        using r(2,3) by simp_all
      then show ?thesis using take_Suc_conv_app_nth [of "e - start - 1" "drop start ls"] r(3) by simp
    qed
    have "last (ls ! (e - 1)) = nl" using split_inclusive_last [of "e - 1" nl content] True r(2) assms(2) by simp
    moreover have "cr \<notin> set (ls ! (e - 1))"
    proof
      assume "cr \<in> set (ls ! (e - 1))"
      then have "cr \<in> set (concat ls)" using r(2,3) by (auto intro: bexI [OF _ nth_mem])
      then show False using assms(2,3) by simp
    qed
    ultimately have "concat (take (length (take (e - start - 1) (drop start ls)) + 1) (split_inclusive nl (ro_content out))) = ?page"
      by (intro noted_lines [OF shown _ _ text_end]) (use lines tk in simp_all)
    moreover have "length (take (e - start - 1) (drop start ls)) + 1 = e - start" using r(2,3) by simp
    ultimately show ?thesis unfolding taken by (simp only:)
  qed
  then show ?case using IH split by simp
qed simp

text \<open>
  C33: No line of a file is lost between two reads. Take a non-empty text within the read limit, all of
  whose lines are within the byte budget of 50 KB, and a client that reads from the first line and
  follows the offsets, with a limit that is not zero. It gets replies without an error, at most as many
  as there are lines; each goes on where the one before has ended, and together they report all lines.
  The last reply shows exactly the text of its lines. Each other reply shows the text of its lines up
  to the last line breaks, an empty line and the note, but the note alone if its lines are only white
  space. So when the text has no carriage return and no reply but the last ends in a line of white
  space, a client that takes from each text as many lines as the reply reports gets the file back, byte
  for byte.
\<close>

theorem reads_join_up:
  assumes "content \<noteq> []" and "str_len content \<le> MAX_READ_BYTES" and "limit \<noteq> Some 0"
    and "\<forall>l \<in> set (split_inclusive nl content). str_len l \<le> MAX_BYTES"
    and "replies = read_all (count_lines content) path content limit 1"
  shows "length replies \<le> count_lines content \<and> shows_from (split_inclusive nl content) limit 0 replies \<and>
    (cr \<notin> set content \<and> (\<forall>r \<in> set (butlast replies). ends_in_text (split_inclusive nl content) r) \<longrightarrow>
       concat (map read_back replies) = content)"
proof -
  have "0 < count_lines content" using assms(1) by (auto simp: count_lines_def)
  from read_all_shows [OF assms(1-4) this, of "count_lines content" path]
  have s: "shows_from (split_inclusive nl content) limit 0 replies" by (simp add: assms(5))
  have "concat (map read_back replies) = content"
    if "cr \<notin> set content" "\<forall>r \<in> set (butlast replies). ends_in_text (split_inclusive nl content) r"
    using read_back_from [OF s refl that] by simp
  then show ?thesis using s shows_from_length [OF s] by (simp add: count_lines_def)
qed

text \<open>Three lines, one of them empty, in two reads.\<close>

theorem reads_join_up_witness:
  "concat (map read_back (read_all 3 (lit ''f'') (lit ''ab'' @ [nl, nl] @ lit ''c'' @ [nl] @ lit ''d'') (Some 3) 1)) =
     lit ''ab'' @ [nl, nl] @ lit ''c'' @ [nl] @ lit ''d''"
proof -
  let ?c = "lit ''ab'' @ [nl, nl] @ lit ''c'' @ [nl] @ lit ''d''"
  have n: "count_lines ?c = 4" by code_simp
  have c: "?c \<noteq> []" by simp
  have small: "str_len ?c \<le> MAX_READ_BYTES" "\<forall>l \<in> set (split_inclusive nl ?c). str_len l \<le> MAX_BYTES"
    "Some (3 :: u32) \<noteq> Some 0" "cr \<notin> set ?c"
    by code_simp+
  have fits: "\<forall>r \<in> set (butlast (read_all (count_lines ?c) (lit ''f'') ?c (Some 3) 1)).
      ends_in_text (split_inclusive nl ?c) r"
    by code_simp
  have "read_all 3 (lit ''f'') ?c (Some 3) 1 = read_all (count_lines ?c) (lit ''f'') ?c (Some 3) 1" by code_simp
  then show ?thesis
    using reads_join_up [OF c small(1,3,2) refl, of "lit ''f''"] small(4) fits by simp
qed

section \<open>What a read can see\<close>

text \<open>
  C34: A read shows nothing but files of the workspace, as long as no lookup on the path runs out of
  links (\<open>link_limit_escape\<close> is a path for which one does). When \<^theory_text>\<open>read\<close> succeeds, there is a file inside
  the workspace, not larger than the read limit, and the output is either the announcement of an
  image of the detected type or the requested window of the file's text, which has no zero byte at
  the start. Offset and limit were not zero.
\<close>

theorem read_only_workspace:
  assumes "workspace fs r" and "read_run il (abs_path r) fs path offset limit = Inr out"
    and "\<forall>k. canonicalize fs (take k (lexical_normalize (path_join (abs_path r) path))) \<noteq> Inl ELOOP"
  shows "offset \<noteq> Some 0 \<and> limit \<noteq> Some 0 \<and> ro_path out = path \<and>
    (\<exists>p bytes. prefix r p \<and> fs p = Some (File bytes) \<and> length bytes \<le> MAX_READ_BYTES \<and>
       (case detect_image_mime il bytes of
          Some mime \<Rightarrow> ro_image_mime_type out = Some mime
        | None \<Rightarrow> 0 \<notin> set (take SNIFF_LEN bytes) \<and> (\<exists>content. utf8_decode bytes = Some content \<and>
            read_window path content (case offset of Some x \<Rightarrow> x | None \<Rightarrow> 1) limit = Inr out)))"
proof -
  obtain resolved q bytes where R: "resolve_in_workspace fs (abs_path r) path = Inr resolved"
      "canonicalize fs resolved = Inr q" "fs_read fs resolved = Inr bytes" "\<not> length bytes > MAX_READ_BYTES"
    and g: "offset \<noteq> Some 0" "limit \<noteq> Some 0"
    using assms(2) unfolding read_run_def Let_def
    by (auto split: if_splits sum.splits option.splits)
  obtain a ns where S: "resolved = abs_path (a @ ns)" "settled fs a ns" "prefix r (a @ ns)"
    by (rule resolve_settled [OF assms(1) R(1) assms(3)])
  have "ns = [] \<and> q = a" using settled_lookup [OF S(2)] R(2) S(1) by simp
  then have p: "prefix r q" using S(3) by simp
  have f: "fs q = Some (File bytes)"
    using R(2,3) by (auto simp: fs_read_def split: option.splits node.splits)
  have "ro_path out = path \<and> (case detect_image_mime il bytes of
          Some mime \<Rightarrow> ro_image_mime_type out = Some mime
        | None \<Rightarrow> 0 \<notin> set (take SNIFF_LEN bytes) \<and> (\<exists>content. utf8_decode bytes = Some content \<and>
            read_window path content (case offset of Some x \<Rightarrow> x | None \<Rightarrow> 1) limit = Inr out))"
  proof (cases "detect_image_mime il bytes")
    case (Some mime)
    then show ?thesis using assms(2) R f g by (auto simp: read_run_def Let_def split: if_splits)
  next
    case None
    have mn: "take (min (length bytes) SNIFF_LEN) bytes = take SNIFF_LEN bytes"
      by (cases "length bytes \<le> SNIFF_LEN") (simp_all add: min_def)
    obtain content where c: "0 \<notin> set (take SNIFF_LEN bytes)" "utf8_decode bytes = Some content"
        "read_window path content (case offset of Some x \<Rightarrow> x | None \<Rightarrow> 1) limit = Inr out"
      using assms(2) R f g None mn
      by (auto simp: read_run_def Let_def split: if_splits option.splits)
    have "ro_path out = path"
      using c(3) by (auto simp: read_window_def Let_def split: if_splits prod.splits)
    then show ?thesis using c None by simp
  qed
  then show ?thesis using g p f R(4) by (intro conjI exI [of _ q] exI [of _ bytes]) auto
qed

text \<open>An image library that knows nothing.\<close>

definition no_images :: "unit image_lib" where
  "no_images = \<lparr>il_guess = \<lambda>_. Inl [], il_load = \<lambda>_ _. Inl [], il_width = \<lambda>_. 0, il_height = \<lambda>_. 0,
     il_resize = \<lambda>_ _ i. i, il_write_png = \<lambda>_. Inl [], il_base64 = \<lambda>_. []\<rparr>"

lemma read_only_workspace_witness:
  "\<exists>out. read_run no_images (abs_path [lit ''ws'']) (map_of sample_tree) (lit ''in/f'') None None = Inr out \<and>
    ro_path out = lit ''in/f''"
proof -
  let ?r = "read_run no_images (abs_path [lit ''ws'']) (map_of sample_tree) (lit ''in/f'') None None"
  have "\<not> isl ?r" by code_simp
  then obtain out where out: "?r = Inr out" by (metis isl_def sum.collapse(2))
  have "\<forall>k. canonicalize (map_of sample_tree)
      (take k (lexical_normalize (path_join (abs_path [lit ''ws'']) (lit ''in/f'')))) \<noteq> Inl ELOOP"
    by (rule no_eloop_check) code_simp
  from read_only_workspace [OF workspace_sample out this] have "ro_path out = lit ''in/f''" by (elim conjE)
  then show ?thesis using out by blast
qed

text \<open>
  Images are announced and delivered consistently. An image that \<^theory_text>\<open>read\<close> announces with a type,
  that can be decoded and is not larger than 2000 by 2000 is delivered unchanged and with that same
  type; a larger one is delivered as a PNG.
\<close>

theorem image_content_type:
  assumes "detect_image_mime il bytes = Some mime" and "il_guess il bytes = Inr format"
    and "il_load il bytes format = Inr img"
  shows "(il_width il img \<le> IMAGE_MAX_DIM \<and> il_height il img \<le> IMAGE_MAX_DIM \<longrightarrow>
      encode_image_for_content il path bytes = Inr (il_base64 il bytes, mime)) \<and>
    (\<forall>data out_mime. encode_image_for_content il path bytes = Inr (data, out_mime) \<and>
      (IMAGE_MAX_DIM < il_width il img \<or> IMAGE_MAX_DIM < il_height il img) \<longrightarrow>
      out_mime = lit ''image/png'')"
  using assms by (auto simp: detect_image_mime_def encode_image_for_content_def Let_def
      split: sum.splits option.splits)

definition png_lib :: "unit image_lib" where
  "png_lib = no_images\<lparr>il_guess := \<lambda>_. Inr Gif, il_load := \<lambda>_ _. Inr (), il_base64 := map unat\<rparr>"

lemma image_content_type_witness:
  "encode_image_for_content png_lib (lit ''p'') [1, 2] = Inr ([1, 2], lit ''image/gif'')"
  using image_content_type [of png_lib "[1, 2]" "lit ''image/gif''" Gif "()" "lit ''p''"]
  by (simp add: png_lib_def no_images_def detect_image_mime_def IMAGE_MAX_DIM_def)

section \<open>A page of blank lines\<close>

text \<open>
  The note replaces shown text that is only white space: a page of blank lines shows no line at all,
  although the output says which lines it covers.
\<close>

lemma blank_page_is_replaced:
  "map_sum id ro_content (read_window (lit ''f'') [nl, nl, nl] 1 (Some 2)) =
   Inr (lit ''[1 more lines in file. Use offset=3 to continue.]'')"
  by code_simp

end
