(* ===== verification/Utf8_Lossy.thy ===== *)
theory Utf8_Lossy
  imports Rust_Str
begin

text \<open>
  \<^theory_text>\<open>String::from_utf8_lossy\<close>: valid characters are kept, and every maximal beginning of a
  character that is not completed becomes one replacement character.
\<close>

text \<open>The length of the invalid piece that starts with \<open>b\<close> when no character does.\<close>

definition invalid_len :: "byte \<Rightarrow> byte list \<Rightarrow> nat" where
  "invalid_len b bs =
     (let n = unat b;
          c1 = (case bs of b1 # _ \<Rightarrow> unat b1 | _ \<Rightarrow> 0);
          c2 = (case bs of _ # b2 # _ \<Rightarrow> unat b2 | _ \<Rightarrow> 0)
      in if 224 \<le> n \<and> n < 240 then
           (if (if n = 224 then 160 else 128) \<le> c1 \<and> c1 < (if n = 237 then 160 else 192) then 2 else 1)
         else if 240 \<le> n \<and> n < 245 then
           (if (if n = 240 then 144 else 128) \<le> c1 \<and> c1 < (if n = 244 then 144 else 192)
            then (if 128 \<le> c2 \<and> c2 < 192 then 3 else 2) else 1)
         else 1)"

function utf8_lossy :: "byte list \<Rightarrow> rstr" where
  "utf8_lossy [] = []"
| "utf8_lossy (b # bs) =
     (case utf8_step b bs of
        Some (c, k) \<Rightarrow> c # utf8_lossy (drop k bs)
      | None \<Rightarrow> 0xFFFD # utf8_lossy (drop (invalid_len b bs - 1) bs))"
  by pat_completeness auto
termination
  by (relation "measure length") auto

text \<open>On valid UTF-8 it is the decoder.\<close>

lemma utf8_lossy_decode: "utf8_decode bs = Some s \<Longrightarrow> utf8_lossy bs = s"
proof (induction bs arbitrary: s rule: utf8_lossy.induct)
  case (2 b bs)
  then show ?case by (cases "utf8_step b bs") (auto split: prod.splits)
qed simp

lemma utf8_lossy_encode: "valid_str s \<Longrightarrow> utf8_lossy (utf8_encode s) = s"
  by (simp add: utf8_lossy_decode utf8_decode_encode)

lemma utf8_lossy_examples:
  "utf8_lossy [0x61, 0xFF, 0x62] = [0x61, 0xFFFD, 0x62]"
  "utf8_lossy [0xE2, 0x82] = [0xFFFD]"
  "utf8_lossy [0xF0, 0x9F, 0x41] = [0xFFFD, 0x41]"
  "utf8_lossy [0xED, 0xA0, 0x80] = [0xFFFD, 0xFFFD, 0xFFFD]"
  by (simp_all add: utf8_step_def invalid_len_def is_cont_def scalar_def)

end
