(* ===== verification/Process_Group.thy ===== *)
theory Process_Group
  imports Rust_Str File_System
begin

text \<open>
  \<^theory_text>\<open>process/process_group.rs\<close>: the handle of a child that leads its own process group, the
  guard that kills the group unless the child has been reaped, and exit codes. What the operating
  system answers is an argument; a signal to a group is recorded by the group's number.
\<close>

section \<open>The handle\<close>

datatype exit_status = Exited int | Signaled int | OtherStatus

record group_child =
  gc_pid :: "u32 option"
  gc_defused :: bool

type_synonym kills = "int list"    \<comment> \<open>the groups that were sent \<^theory_text>\<open>SIGKILL\<close>, in order\<close>

text \<open>\<^theory_text>\<open>spawned\<close> is the answer of \<^theory_text>\<open>Command::spawn\<close> with the child's number.\<close>

definition spawn_bash :: "io_error + u32 option \<Rightarrow> io_error + group_child" where
  "spawn_bash spawned =
     (case spawned of
        Inl e \<Rightarrow> Inl e
      | Inr pid \<Rightarrow> Inr \<lparr>gc_pid = pid, gc_defused = False\<rparr>)"

text \<open>\<^theory_text>\<open>pid as pid_t\<close> reinterprets the 32 bits as a signed number.\<close>

definition kill_group_raw :: "u32 option \<Rightarrow> kills \<Rightarrow> kills" where
  "kill_group_raw pid kills = (case pid of Some p \<Rightarrow> kills @ [sint p] | None \<Rightarrow> kills)"

text \<open>
  The pipes of the child, which the handle has until they are taken: \<^theory_text>\<open>take_pipes\<close> gives them out
  once.
\<close>

definition take_pipes :: "'p option \<times> 'p option \<Rightarrow> ('p option \<times> 'p option) \<times> ('p option \<times> 'p option)" where
  "take_pipes pipes = (pipes, (None, None))"

definition gc_wait :: "io_error + exit_status \<Rightarrow> group_child \<Rightarrow> (io_error + exit_status) \<times> group_child" where
  "gc_wait answer child =
     (case answer of
        Inl e \<Rightarrow> (Inl e, child)
      | Inr status \<Rightarrow> (Inr status, child\<lparr>gc_defused := True\<rparr>))"

text \<open>
  \<^theory_text>\<open>kill_group\<close> in two steps, before and after the \<^theory_text>\<open>await\<close> at which it can be cancelled: the
  signal, then the same as \<^theory_text>\<open>wait\<close>.
\<close>

definition kill_group_signal :: "group_child \<Rightarrow> kills \<Rightarrow> kills" where
  "kill_group_signal child kills = kill_group_raw (gc_pid child) kills"

definition kill_group_reap ::
  "io_error + exit_status \<Rightarrow> group_child \<Rightarrow> (io_error + exit_status) \<times> group_child" where
  "kill_group_reap answer child =
     (case answer of
        Inl e \<Rightarrow> (Inl e, child)
      | Inr status \<Rightarrow> (Inr status, child\<lparr>gc_defused := True\<rparr>))"

definition gc_drop :: "group_child \<Rightarrow> kills \<Rightarrow> kills" where
  "gc_drop child kills = (if \<not> gc_defused child then kill_group_raw (gc_pid child) kills else kills)"

section \<open>Exit codes\<close>

definition status_code :: "exit_status \<Rightarrow> int option" where
  "status_code status = (case status of Exited c \<Rightarrow> Some c | _ \<Rightarrow> None)"

definition status_signal :: "exit_status \<Rightarrow> int option" where
  "status_signal status = (case status of Signaled s \<Rightarrow> Some s | _ \<Rightarrow> None)"

definition exit_code_of :: "exit_status \<Rightarrow> int" where
  "exit_code_of status =
     (case status_code status of
        Some code \<Rightarrow> code
      | None \<Rightarrow> (case status_signal status of Some signal \<Rightarrow> 128 + signal | None \<Rightarrow> - 1))"

section \<open>The life of a command\<close>

text \<open>
  The states a call of \<^theory_text>\<open>bash::run\<close> goes through after the spawn. At every \<^theory_text>\<open>await\<close> (\<open>Waiting\<close>,
  \<open>Killing\<close>, \<open>Draining\<close>) the future can be dropped, which drops the handle. \<open>rs_reaped\<close> says what
  the operating system knows: whether the child's number still belongs to the child.
\<close>

datatype phase = Waiting | Killing | Draining int bool | Returned | Cancelled

record run_state =
  rs_child :: group_child
  rs_kills :: kills
  rs_reaped :: bool
  rs_phase :: phase

definition run_start :: "u32 option \<Rightarrow> run_state" where
  "run_start pid = \<lparr>rs_child = \<lparr>gc_pid = pid, gc_defused = False\<rparr>, rs_kills = [],
     rs_reaped = False, rs_phase = Waiting\<rparr>"

text \<open>Leaving the function, by returning or by being dropped, drops the handle.\<close>

definition leave :: "phase \<Rightarrow> run_state \<Rightarrow> run_state" where
  "leave ph s = s\<lparr>rs_kills := gc_drop (rs_child s) (rs_kills s), rs_phase := ph\<rparr>"

inductive run_step :: "bool \<Rightarrow> run_state \<Rightarrow> run_state \<Rightarrow> bool" for limited where
  wait_ok: "\<lbrakk>rs_phase s = Waiting; gc_wait (Inr status) (rs_child s) = (Inr status, child)\<rbrakk> \<Longrightarrow>
    run_step limited s (s\<lparr>rs_child := child, rs_reaped := True,
      rs_phase := Draining (exit_code_of status) False\<rparr>)"
| wait_err: "\<lbrakk>rs_phase s = Waiting; gc_wait (Inl e) (rs_child s) = (Inl e, child)\<rbrakk> \<Longrightarrow>
    run_step limited s (leave Returned (s\<lparr>rs_child := child\<rparr>))"
| timeout: "\<lbrakk>rs_phase s = Waiting; limited\<rbrakk> \<Longrightarrow>
    run_step limited s (s\<lparr>rs_kills := kill_group_signal (rs_child s) (rs_kills s), rs_phase := Killing\<rparr>)"
| kill_ok: "\<lbrakk>rs_phase s = Killing; kill_group_reap (Inr status) (rs_child s) = (Inr status, child)\<rbrakk> \<Longrightarrow>
    run_step limited s (s\<lparr>rs_child := child, rs_reaped := True, rs_phase := Draining 124 True\<rparr>)"
| kill_err: "\<lbrakk>rs_phase s = Killing; kill_group_reap (Inl e) (rs_child s) = (Inl e, child)\<rbrakk> \<Longrightarrow>
    run_step limited s (leave Returned (s\<lparr>rs_child := child\<rparr>))"
| finish: "rs_phase s = Draining code late \<Longrightarrow> run_step limited s (leave Returned s)"
| cancel: "rs_phase s \<notin> {Returned, Cancelled} \<Longrightarrow> run_step limited s (leave Cancelled s)"

inductive_cases run_stepE: "run_step limited s s'"

inductive run_reach :: "bool \<Rightarrow> u32 option \<Rightarrow> run_state \<Rightarrow> bool" for limited pid where
  start: "run_reach limited pid (run_start pid)"
| step: "run_reach limited pid s \<Longrightarrow> run_step limited s s' \<Longrightarrow> run_reach limited pid s'"

section \<open>The guard\<close>

definition is_final :: "phase \<Rightarrow> bool" where
  "is_final ph \<longleftrightarrow> ph = Returned \<or> ph = Cancelled"

definition run_ok :: "u32 option \<Rightarrow> run_state \<Rightarrow> bool" where
  "run_ok pid s \<longleftrightarrow>
     gc_pid (rs_child s) = pid \<and> gc_defused (rs_child s) = rs_reaped s \<and>
     (rs_phase s \<in> {Waiting, Killing} \<longrightarrow> \<not> rs_reaped s) \<and>
     (is_final (rs_phase s) \<and> \<not> rs_reaped s \<and> pid \<noteq> None \<longrightarrow> sint (the pid) \<in> set (rs_kills s)) \<and>
     (rs_phase s = Killing \<and> pid \<noteq> None \<longrightarrow> sint (the pid) \<in> set (rs_kills s)) \<and>
     (\<forall>code. rs_phase s = Draining code True \<longrightarrow> code = 124)"

lemmas guard_defs = gc_wait_def kill_group_reap_def kill_group_signal_def kill_group_raw_def
  gc_drop_def leave_def

lemma run_ok_start: "run_ok pid (run_start pid)"
  by (simp add: run_ok_def run_start_def is_final_def)

lemma run_ok_step: "run_step limited s s' \<Longrightarrow> run_ok pid s \<Longrightarrow> run_ok pid s'"
  by (induction rule: run_step.induct)
    (auto simp: run_ok_def is_final_def guard_defs split: option.splits)

lemma run_reach_ok: "run_reach limited pid s \<Longrightarrow> run_ok pid s"
  by (induction rule: run_reach.induct) (auto intro: run_ok_start run_ok_step)

lemma kill_only_unreaped:
  "run_step limited s s' \<Longrightarrow> run_ok pid s \<Longrightarrow> rs_kills s' \<noteq> rs_kills s \<Longrightarrow> \<not> rs_reaped s"
  by (induction rule: run_step.induct)
    (auto simp: run_ok_def guard_defs split: option.splits if_splits)

text \<open>
  C10: No process tree outlives its call. However a command ends, by returning, by failing or by
  having its request cancelled at any point where it waits, the child was reaped or its whole
  process group was sent \<^theory_text>\<open>SIGKILL\<close>. And the group is never signalled once the child is reaped,
  when its number may belong to somebody else.
\<close>
theorem no_process_leak:
  assumes "run_reach limited (Some p) s"
  shows "(is_final (rs_phase s) \<longrightarrow> rs_reaped s \<or> sint p \<in> set (rs_kills s)) \<and>
    (\<forall>s'. run_step limited s s' \<and> rs_reaped s \<longrightarrow> rs_kills s' = rs_kills s)"
proof -
  note ok = run_reach_ok [OF assms]
  have "is_final (rs_phase s) \<longrightarrow> rs_reaped s \<or> sint p \<in> set (rs_kills s)"
    using ok by (auto simp: run_ok_def)
  then show ?thesis using kill_only_unreaped [OF _ ok] by blast
qed

theorem no_process_leak_witness:
  "\<exists>s. run_reach True (Some 77) s \<and> rs_phase s = Cancelled \<and> \<not> rs_reaped s \<and> 77 \<in> set (rs_kills s)"
proof -
  let ?s1 = "(run_start (Some 77))\<lparr>rs_kills := [77], rs_phase := Killing\<rparr>"
  have "run_step True (run_start (Some 77))
      ((run_start (Some 77))\<lparr>rs_kills := kill_group_signal (rs_child (run_start (Some 77)))
         (rs_kills (run_start (Some 77))), rs_phase := Killing\<rparr>)"
    by (rule run_step.timeout) (simp_all add: run_start_def)
  then have "run_step True (run_start (Some 77)) ?s1"
    by (simp add: run_start_def guard_defs)
  then have "run_reach True (Some 77) ?s1" by (rule run_reach.step [OF run_reach.start])
  moreover have "run_step True ?s1 (leave Cancelled ?s1)"
    by (rule run_step.cancel) simp
  ultimately have r: "run_reach True (Some 77) (leave Cancelled ?s1)" by (rule run_reach.step)
  have f: "is_final (rs_phase (leave Cancelled ?s1))" "\<not> rs_reaped (leave Cancelled ?s1)"
    by (simp_all add: is_final_def leave_def run_start_def)
  show ?thesis
    using no_process_leak [OF r] r f by (intro exI [of _ "leave Cancelled ?s1"]) (simp add: leave_def)
qed

end
