(* ===== verification/Output_Collector.thy ===== *)
theory Output_Collector
  imports Rust_Str "HOL-Library.Multiset"
begin

text \<open>
  The two tasks of \<^theory_text>\<open>tools/bash.rs\<close> that read the pipes of a command while it runs
  (\<^theory_text>\<open>read_stream\<close>), and the merge of what they collected. The tasks run on several threads: a
  chunk gets its number and is pushed in two separate steps, between which the other task, or
  another call of the tool, may do anything. The counter is a natural number; its 64 bits do not
  wrap in the lifetime of a process.
\<close>

section \<open>Chunks\<close>

record chunk =
  ck_seq :: nat
  ck_stderr :: bool
  ck_bytes :: "byte list"

text \<open>The merge in \<^theory_text>\<open>run\<close>: sorted by number, together and by stream.\<close>

definition merge_chunks :: "chunk list \<Rightarrow> chunk list" where
  "merge_chunks chunks = sort_key ck_seq chunks"

definition combined_bytes :: "chunk list \<Rightarrow> byte list" where
  "combined_bytes all = concat (map ck_bytes all)"

definition stream_bytes :: "bool \<Rightarrow> chunk list \<Rightarrow> byte list" where
  "stream_bytes stderr all = concat (map ck_bytes (filter (\<lambda>c. ck_stderr c = stderr) all))"

section \<open>The readers\<close>

text \<open>
  A reader waits for its pipe, holds bytes it has read, holds bytes with their number, or has
  stopped: at the end of the stream, at an error, or because it was aborted while it waited.
\<close>

datatype reader = Idle | Got "byte list" | Numbered nat "byte list" | Stopped

record collector =
  co_seq :: nat
  co_chunks :: "chunk list"
  co_reader :: "bool \<Rightarrow> reader"
  co_read :: "bool \<Rightarrow> byte list"    \<comment> \<open>all that was read from the stream so far\<close>

definition BUFFER_SIZE :: nat where
  "BUFFER_SIZE = 16 * 1024"

definition collector_start :: "nat \<Rightarrow> collector" where
  "collector_start n = \<lparr>co_seq = n, co_chunks = [], co_reader = (\<lambda>_. Idle), co_read = (\<lambda>_. [])\<rparr>"

inductive collect_step :: "collector \<Rightarrow> collector \<Rightarrow> bool" where
  read: "\<lbrakk>co_reader s b = Idle; bs \<noteq> []; length bs \<le> BUFFER_SIZE\<rbrakk> \<Longrightarrow>
    collect_step s (s\<lparr>co_reader := (co_reader s)(b := Got bs),
                      co_read := (co_read s)(b := co_read s b @ bs)\<rparr>)"
| stop: "co_reader s b = Idle \<Longrightarrow>
    collect_step s (s\<lparr>co_reader := (co_reader s)(b := Stopped)\<rparr>)"
| number: "co_reader s b = Got bs \<Longrightarrow>
    collect_step s (s\<lparr>co_reader := (co_reader s)(b := Numbered (co_seq s) bs), co_seq := co_seq s + 1\<rparr>)"
| push: "co_reader s b = Numbered q bs \<Longrightarrow>
    collect_step s (s\<lparr>co_reader := (co_reader s)(b := Idle),
                      co_chunks := co_chunks s @ [\<lparr>ck_seq = q, ck_stderr = b, ck_bytes = bs\<rparr>]\<rparr>)"
| other_call: "collect_step s (s\<lparr>co_seq := co_seq s + 1\<rparr>)"

inductive collect_reach :: "nat \<Rightarrow> collector \<Rightarrow> bool" for n where
  start: "collect_reach n (collector_start n)"
| step: "collect_reach n s \<Longrightarrow> collect_step s s' \<Longrightarrow> collect_reach n s'"

section \<open>The invariant\<close>

fun in_flight :: "reader \<Rightarrow> byte list" where
  "in_flight (Got bs) = bs"
| "in_flight (Numbered q bs) = bs"
| "in_flight _ = []"

fun held_number :: "reader \<Rightarrow> nat option" where
  "held_number (Numbered q bs) = Some q"
| "held_number _ = None"

definition numbers :: "chunk list \<Rightarrow> nat set" where
  "numbers cs = ck_seq ` set cs"

definition stream_ok :: "chunk list \<Rightarrow> bool \<Rightarrow> reader \<Rightarrow> byte list \<Rightarrow> bool" where
  "stream_ok cs b r total_read \<longleftrightarrow>
     stream_bytes b cs @ in_flight r = total_read \<and>
     sorted (map ck_seq (filter (\<lambda>c. ck_stderr c = b) cs)) \<and>
     (\<forall>q. held_number r = Some q \<longrightarrow>
        q \<notin> numbers cs \<and> (\<forall>c \<in> set cs. ck_stderr c = b \<longrightarrow> ck_seq c < q))"

definition co_ok :: "collector \<Rightarrow> bool" where
  "co_ok s \<longleftrightarrow>
     (\<forall>b. stream_ok (co_chunks s) b (co_reader s b) (co_read s b)) \<and>
     distinct (map ck_seq (co_chunks s)) \<and>
     (\<forall>q \<in> numbers (co_chunks s). q < co_seq s) \<and>
     (\<forall>b q. held_number (co_reader s b) = Some q \<longrightarrow> q < co_seq s \<and> held_number (co_reader s (\<not> b)) \<noteq> Some q)"

lemma stream_bytes_snoc:
  "stream_bytes b (cs @ [c]) = stream_bytes b cs @ (if ck_stderr c = b then ck_bytes c else [])"
  by (simp add: stream_bytes_def)

lemma numbers_snoc [simp]: "numbers (cs @ [c]) = insert (ck_seq c) (numbers cs)"
  by (simp add: numbers_def)

lemma stream_ok_push:
  assumes "stream_ok cs b (Numbered q bs) r"
  shows "stream_ok (cs @ [\<lparr>ck_seq = q, ck_stderr = b, ck_bytes = bs\<rparr>]) b Idle r"
  using assms by (fastforce simp: stream_ok_def stream_bytes_snoc sorted_append)

lemma stream_ok_push_other:
  assumes "stream_ok cs d rd r" and "d \<noteq> b" and "held_number rd \<noteq> Some q"
  shows "stream_ok (cs @ [\<lparr>ck_seq = q, ck_stderr = b, ck_bytes = bs\<rparr>]) d rd r"
  using assms by (auto simp: stream_ok_def stream_bytes_snoc)

lemma co_ok_start: "co_ok (collector_start n)"
  by (simp add: co_ok_def collector_start_def stream_ok_def stream_bytes_def numbers_def)

lemma co_ok_step:
  assumes "collect_step s s'" and "co_ok s"
  shows "co_ok s'"
  using assms
proof (induction rule: collect_step.induct)
  case (read s b bs)
  have "stream_ok (co_chunks s) b (co_reader s b) (co_read s b)"
    using read.prems by (simp add: co_ok_def)
  then have "stream_ok (co_chunks s) b (Got bs) (co_read s b @ bs)"
    using read.hyps by (simp add: stream_ok_def)
  then show ?case using read.prems by (auto simp: co_ok_def)
next
  case (stop s b)
  have "stream_ok (co_chunks s) b (co_reader s b) (co_read s b)"
    using stop.prems by (simp add: co_ok_def)
  then have "stream_ok (co_chunks s) b Stopped (co_read s b)"
    using stop.hyps by (simp add: stream_ok_def)
  then show ?case using stop.prems by (auto simp: co_ok_def)
next
  case (number s b bs)
  have "stream_ok (co_chunks s) b (Got bs) (co_read s b)" "\<forall>q \<in> numbers (co_chunks s). q < co_seq s"
    using number by (auto simp: co_ok_def) metis
  then have "stream_ok (co_chunks s) b (Numbered (co_seq s) bs) (co_read s b)"
    by (auto simp: stream_ok_def numbers_def)
  then show ?case using number.prems by (fastforce simp: co_ok_def)
next
  case (push s b q bs)
  have b: "stream_ok (co_chunks s) b (Numbered q bs) (co_read s b)" "held_number (co_reader s b) = Some q"
    using push by (auto simp: co_ok_def) metis
  have d: "stream_ok (co_chunks s) (\<not> b) (co_reader s (\<not> b)) (co_read s (\<not> b))"
    "held_number (co_reader s (\<not> b)) \<noteq> Some q" "q < co_seq s"
    using push.prems b(2) by (auto simp: co_ok_def)
  have "stream_ok (co_chunks s @ [\<lparr>ck_seq = q, ck_stderr = b, ck_bytes = bs\<rparr>]) e
      (((co_reader s)(b := Idle)) e) (co_read s e)" for e
    using stream_ok_push [OF b(1)] stream_ok_push_other [OF d(1) _ d(2)] by (cases "e = b") auto
  moreover have "q \<notin> ck_seq ` set (co_chunks s)"
    using b(1) by (simp add: stream_ok_def numbers_def)
  ultimately show ?case using push.prems d(3) by (auto simp: co_ok_def)
next
  case (other_call s)
  then show ?case by (fastforce simp: co_ok_def less_Suc_eq)
qed

lemma collect_reach_ok: "collect_reach n s \<Longrightarrow> co_ok s"
  by (induction rule: collect_reach.induct) (auto intro: co_ok_start co_ok_step)

section \<open>The merge\<close>

lemma shuffles_append:
  "zs \<in> shuffles xs ys \<Longrightarrow> ws @ zs \<in> shuffles (ws @ xs) ys"
  "zs \<in> shuffles xs ys \<Longrightarrow> ws @ zs \<in> shuffles xs (ws @ ys)"
  by (induction ws) (auto intro: Cons_in_shuffles_leftI Cons_in_shuffles_rightI)

lemma combined_in_shuffles: "combined_bytes cs \<in> shuffles (stream_bytes False cs) (stream_bytes True cs)"
  by (induction cs) (auto simp: combined_bytes_def stream_bytes_def intro: shuffles_append)

lemma stream_bytes_merge:
  assumes "stream_ok cs b r total_read"
  shows "stream_bytes b (merge_chunks cs) = stream_bytes b cs"
proof -
  have "filter (\<lambda>c. ck_stderr c = b) (sort_key ck_seq cs) = sort_key ck_seq (filter (\<lambda>c. ck_stderr c = b) cs)"
    by (rule filter_sort)
  also have "\<dots> = filter (\<lambda>c. ck_stderr c = b) cs"
    using assms by (intro sort_key_id_if_sorted) (simp add: stream_ok_def)
  finally show ?thesis by (simp add: stream_bytes_def merge_chunks_def)
qed

lemma merged_streams:
  assumes "co_ok s"
  shows "stream_bytes b (merge_chunks (co_chunks s)) @ in_flight (co_reader s b) = co_read s b"
proof -
  have s: "stream_ok (co_chunks s) b (co_reader s b) (co_read s b)" using assms by (simp add: co_ok_def)
  then show ?thesis using stream_bytes_merge [OF s] by (simp add: stream_ok_def)
qed

text \<open>
  C11: However the two readers, the pipes and other calls interleave, the merged output is what the
  command wrote: each stream has all bytes that were read from it, in their order, except the piece
  the reader has in hand; the combined output is an interleaving of the two streams, in the order
  in which the pieces were numbered, without a piece lost, repeated or out of order.
\<close>
theorem output_streams_faithful:
  assumes "collect_reach n s"
  shows "sorted_wrt (<) (map ck_seq (merge_chunks (co_chunks s))) \<and>
    mset (merge_chunks (co_chunks s)) = mset (co_chunks s) \<and>
    combined_bytes (merge_chunks (co_chunks s))
      \<in> shuffles (stream_bytes False (merge_chunks (co_chunks s))) (stream_bytes True (merge_chunks (co_chunks s))) \<and>
    stream_bytes b (merge_chunks (co_chunks s)) @ in_flight (co_reader s b) = co_read s b"
proof -
  note ok = collect_reach_ok [OF assms]
  have "distinct (map ck_seq (merge_chunks (co_chunks s)))"
    using ok by (simp add: co_ok_def merge_chunks_def distinct_map)
  then have "sorted_wrt (<) (map ck_seq (merge_chunks (co_chunks s)))"
    by (simp add: strict_sorted_iff merge_chunks_def)
  moreover have "stream_bytes b (merge_chunks (co_chunks s)) @ in_flight (co_reader s b) = co_read s b"
    using ok by (rule merged_streams)
  ultimately show ?thesis by (simp add: combined_in_shuffles merge_chunks_def)
qed

text \<open>A run in which the readers number their pieces in one order and push them in the other.\<close>

theorem output_streams_faithful_witness:
  "\<exists>s. collect_reach 5 s \<and> map ck_seq (co_chunks s) = [6, 5] \<and>
     combined_bytes (merge_chunks (co_chunks s)) = [66, 65] \<and>
     stream_bytes False (merge_chunks (co_chunks s)) = [65] \<and>
     [66, 65] \<in> shuffles [65 :: byte] [66]"
proof -
  define s0 where "s0 = collector_start 5"
  define s1 where "s1 = s0\<lparr>co_reader := (co_reader s0)(False := Got [65]),
    co_read := (co_read s0)(False := co_read s0 False @ [65])\<rparr>"
  define s2 where "s2 = s1\<lparr>co_reader := (co_reader s1)(True := Got [66]),
    co_read := (co_read s1)(True := co_read s1 True @ [66])\<rparr>"
  define s3 where "s3 = s2\<lparr>co_reader := (co_reader s2)(True := Numbered (co_seq s2) [66]),
    co_seq := co_seq s2 + 1\<rparr>"
  define s4 where "s4 = s3\<lparr>co_reader := (co_reader s3)(False := Numbered (co_seq s3) [65]),
    co_seq := co_seq s3 + 1\<rparr>"
  define s5 where "s5 = s4\<lparr>co_reader := (co_reader s4)(False := Idle),
    co_chunks := co_chunks s4 @ [\<lparr>ck_seq = 6, ck_stderr = False, ck_bytes = [65]\<rparr>]\<rparr>"
  define s6 where "s6 = s5\<lparr>co_reader := (co_reader s5)(True := Idle),
    co_chunks := co_chunks s5 @ [\<lparr>ck_seq = 5, ck_stderr = True, ck_bytes = [66]\<rparr>]\<rparr>"
  note st = s0_def s1_def s2_def s3_def s4_def s5_def s6_def collector_start_def
  have r0: "collect_reach 5 s0" unfolding s0_def by (rule collect_reach.start)
  have "collect_step s0 s1" unfolding s1_def by (rule collect_step.read) (simp_all add: st BUFFER_SIZE_def)
  with r0 have r1: "collect_reach 5 s1" by (rule collect_reach.step)
  have "collect_step s1 s2" unfolding s2_def by (rule collect_step.read) (simp_all add: st BUFFER_SIZE_def)
  with r1 have r2: "collect_reach 5 s2" by (rule collect_reach.step)
  have "collect_step s2 s3" unfolding s3_def by (rule collect_step.number) (simp add: st)
  with r2 have r3: "collect_reach 5 s3" by (rule collect_reach.step)
  have "collect_step s3 s4" unfolding s4_def by (rule collect_step.number) (simp add: st)
  with r3 have r4: "collect_reach 5 s4" by (rule collect_reach.step)
  have "collect_step s4 s5" unfolding s5_def by (rule collect_step.push) (simp add: st)
  with r4 have r5: "collect_reach 5 s5" by (rule collect_reach.step)
  have "collect_step s5 s6" unfolding s6_def by (rule collect_step.push) (simp add: st)
  with r5 have r6: "collect_reach 5 s6" by (rule collect_reach.step)
  have m: "co_chunks s6 = [\<lparr>ck_seq = 6, ck_stderr = False, ck_bytes = [65]\<rparr>,
      \<lparr>ck_seq = 5, ck_stderr = True, ck_bytes = [66]\<rparr>]"
    by (simp add: st)
  have "combined_bytes (merge_chunks (co_chunks s6)) = [66, 65]"
    "stream_bytes False (merge_chunks (co_chunks s6)) = [65]"
    "stream_bytes True (merge_chunks (co_chunks s6)) = [66]"
    by (simp_all add: m merge_chunks_def combined_bytes_def stream_bytes_def)
  then show ?thesis using r6 m output_streams_faithful [OF r6, of False] by (intro exI [of _ s6]) simp
qed

end
