(* ===== verification/Bash_Tool.thy ===== *)
theory Bash_Tool
  imports Str_Split Utf8_Lossy Process_Group Output_Collector Truncate Tool_Types Util
begin

text \<open>
  \<^theory_text>\<open>tools/bash.rs\<close>: the timeout, and everything \<^theory_text>\<open>run\<close> does with what the command gave: the exit
  code, the merged and truncated output, the log of the full output, the notes for the agent. What
  the operating system answers is an argument; the ways the call can be interleaved or cancelled are
  the subject of the theories on process groups and on the collector. A panic is \<^theory_text>\<open>None\<close>.
\<close>

section \<open>The timeout\<close>

record bash_params =
  bp_command :: rstr
  bp_timeout :: "f64 option"

definition validate_timeout :: "f64 option \<Rightarrow> (rstr + duration option) option" where
  "validate_timeout timeout =
     (case timeout of
        None \<Rightarrow> Some (Inr None)
      | Some seconds \<Rightarrow>
          if is_finite seconds \<and> positive seconds
          then map_option (\<lambda>d. Inr (Some d)) (from_secs_f64 seconds)
          else Some (Inl (lit ''Invalid timeout: must be a finite number of seconds'')))"

text \<open>\<^theory_text>\<open>{:.3}\<close> of a finite value that is not negative.\<close>

fun three_decimals :: "f64 \<Rightarrow> rstr" where
  "three_decimals (Fin neg a b) =
     (let t = round_half_even (a * 1000) b
      in dec (t div 1000) @ lit ''.'' @ zero_pad 3 (dec (t mod 1000)))"
| "three_decimals (Infinite neg) = lit ''inf''"
| "three_decimals NaN = lit ''NaN''"

definition trim_float :: "f64 \<Rightarrow> rstr" where
  "trim_float v = trim_end_by (\<lambda>c. c = 46) (trim_end_by (\<lambda>c. c = 48) (three_decimals v))"

text \<open>\<^theory_text>\<open>seconds as u64\<close> saturates.\<close>

definition format_seconds :: "f64 \<Rightarrow> rstr" where
  "format_seconds seconds =
     (case seconds of
        Fin neg a b \<Rightarrow> if a mod b = 0 then dec (min (a div b) (2 ^ 64 - 1)) else trim_float seconds
      | _ \<Rightarrow> trim_float seconds)"

section \<open>The exit of the command\<close>

datatype bash_error =
    SpawnFailed io_error
  | WaitFailed io_error
  | KillFailed io_error
  | SaveFailed rstr io_error

fun bash_error_text :: "bash_error \<Rightarrow> rstr" where
  "bash_error_text (SpawnFailed e) = lit ''failed to spawn /bin/bash: '' @ io_error_text e"
| "bash_error_text (WaitFailed e) = lit ''failed to wait for bash: '' @ io_error_text e"
| "bash_error_text (KillFailed e) = lit ''failed to kill process group: '' @ io_error_text e"
| "bash_error_text (SaveFailed path e) =
     lit ''failed to save full output to '' @ path @ lit '': '' @ io_error_text e"

text \<open>
  \<open>in_time\<close> says whether the child was reaped within the limit; \<open>answer\<close> is what the last wait for
  it gives. The result is the exit code and whether the command timed out.
\<close>

definition wait_command ::
  "duration option \<Rightarrow> bool \<Rightarrow> io_error + exit_status \<Rightarrow> bash_error + int \<times> bool" where
  "wait_command timeout in_time answer =
     (case timeout of
        Some limit \<Rightarrow>
          if in_time
          then (case answer of Inl e \<Rightarrow> Inl (WaitFailed e) | Inr status \<Rightarrow> Inr (exit_code_of status, False))
          else (case answer of Inl e \<Rightarrow> Inl (KillFailed e) | Inr status \<Rightarrow> Inr (124, True))
      | None \<Rightarrow>
          (case answer of Inl e \<Rightarrow> Inl (WaitFailed e) | Inr status \<Rightarrow> Inr (exit_code_of status, False)))"

section \<open>The output\<close>

definition stream_view :: "rstr \<Rightarrow> rstr option" where
  "stream_view full =
     map_option (\<lambda>t. if t_truncated t then t_text t @ [nl] @ lit ''[...truncated]'' else t_text t)
       (take_tail full MAX_LINES MAX_BYTES)"

definition log_path_of :: "rstr \<Rightarrow> rstr" where
  "log_path_of rnd = lit ''/tmp/mcpod-bash-'' @ rnd @ lit ''.log''"

definition truncation_note :: "tail \<Rightarrow> nat \<Rightarrow> rstr option \<Rightarrow> rstr" where
  "truncation_note t total_lines log_path =
     (let limit_note = (if t_byte_limited t then lit '' ('' @ format_kb MAX_BYTES @ lit '' limit)'' else []);
          shown = lit ''[Showing lines '' @ dec (t_first_line t) @ lit ''-'' @ dec total_lines
                    @ lit '' of '' @ dec total_lines @ limit_note
      in case log_path of
           Some path \<Rightarrow> shown @ lit ''. Full output: '' @ path @ lit '']''
         | None \<Rightarrow> shown @ lit ''.]'')"

text \<open>An \<^theory_text>\<open>i32\<close> in decimal.\<close>

definition dec_int :: "int \<Rightarrow> rstr" where
  "dec_int i = (if i < 0 then lit ''-'' @ dec (nat (- i)) else dec (nat i))"

definition shown_text :: "tail \<Rightarrow> nat \<Rightarrow> rstr option \<Rightarrow> bool \<Rightarrow> duration option \<Rightarrow> int \<Rightarrow> rstr" where
  "shown_text t total_lines log_path timed_out timeout exit_code =
     (let s = t_text t;
          s = (if t_truncated t then append_note s (truncation_note t total_lines log_path) else s);
          s = (if timed_out
               then append_note s (lit ''Command timed out after '' @
                      format_seconds (case timeout of Some d \<Rightarrow> as_secs_f64 d | None \<Rightarrow> Fin False 0 1)
                      @ lit '' seconds'')
               else if exit_code \<noteq> 0
               then append_note s (lit ''Command exited with code '' @ dec_int exit_code)
               else s)
      in if s = [] then lit ''(no output)'' else s)"

text \<open>
  The second component is the file written under \<^theory_text>\<open>/tmp\<close>, with its name. \<open>save\<close> is the answer of
  that write.
\<close>

definition bash_run ::
  "io_error + u32 option \<Rightarrow> duration option \<Rightarrow> bool \<Rightarrow> io_error + exit_status \<Rightarrow> chunk list \<Rightarrow> rstr
     \<Rightarrow> io_error + unit \<Rightarrow> ((bash_error + bash_output) \<times> (rstr \<times> byte list) option) option" where
  "bash_run spawned timeout in_time answer chunks rnd save =
     (case spawn_bash spawned of
        Inl e \<Rightarrow> Some (Inl (SpawnFailed e), None)
      | Inr child \<Rightarrow>
     (case wait_command timeout in_time answer of
        Inl e \<Rightarrow> Some (Inl e, None)
      | Inr (exit_code, timed_out) \<Rightarrow>
     (let all = merge_chunks chunks;
          combined = utf8_lossy (combined_bytes all);
          total_lines = count_lines combined
      in case take_tail combined MAX_LINES MAX_BYTES of
           None \<Rightarrow> None
         | Some t \<Rightarrow>
             if t_truncated t \<and> isl save
             then Some (Inl (SaveFailed (log_path_of rnd) (projl save)), None)
             else (let log_path = (if t_truncated t then Some (log_path_of rnd) else None)
                   in case (stream_view (utf8_lossy (stream_bytes False all)),
                            stream_view (utf8_lossy (stream_bytes True all))) of
                        (Some out, Some err) \<Rightarrow>
                          Some (Inr \<lparr>bo_exit_code = exit_code,
                                     bo_output = shown_text t total_lines log_path timed_out timeout exit_code,
                                     bo_stdout = out, bo_stderr = err,
                                     bo_full_output_log = log_path,
                                     bo_timed_out = (if timed_out then Some True else None)\<rparr>,
                                map_option (\<lambda>path. (path, combined_bytes all)) log_path)
                      | _ \<Rightarrow> None))))"

section \<open>Properties\<close>

lemma take_tail_total: "\<exists>t. take_tail s ml mb = Some t"
  by (cases rule: take_tail_cases [where t = s and ml = ml and mb = mb]) auto

lemma stream_view_total: "\<exists>v. stream_view s = Some v"
  using take_tail_total by (auto simp: stream_view_def)

lemma append_note_nonempty: "note_text \<noteq> [] \<Longrightarrow> append_note s note_text \<noteq> []"
  by (simp add: append_note_def)

text \<open>The result of a call whose command has ended, with the truncated output \<open>t\<close> and the two views.\<close>

lemma bash_run_finished:
  assumes "wait_command timeout in_time answer = Inr (code, late)"
  obtains t o1 o2 where
    "take_tail (utf8_lossy (combined_bytes (merge_chunks chunks))) MAX_LINES MAX_BYTES = Some t"
    "\<not> t_truncated t \<Longrightarrow> t_text t = utf8_lossy (combined_bytes (merge_chunks chunks))"
    "stream_view (utf8_lossy (stream_bytes False (merge_chunks chunks))) = Some o1"
    "stream_view (utf8_lossy (stream_bytes True (merge_chunks chunks))) = Some o2"
    "bash_run (Inr pid) timeout in_time answer chunks rnd save =
       (if t_truncated t \<and> isl save then Some (Inl (SaveFailed (log_path_of rnd) (projl save)), None)
        else (let lp = (if t_truncated t then Some (log_path_of rnd) else None)
              in Some (Inr \<lparr>bo_exit_code = code,
                   bo_output = shown_text t (count_lines (utf8_lossy (combined_bytes (merge_chunks chunks)))) lp
                     late timeout code,
                   bo_stdout = o1, bo_stderr = o2, bo_full_output_log = lp,
                   bo_timed_out = (if late then Some True else None)\<rparr>,
                 map_option (\<lambda>path. (path, combined_bytes (merge_chunks chunks))) lp)))"
proof -
  let ?all = "merge_chunks chunks"
  let ?s = "utf8_lossy (combined_bytes ?all)"
  obtain t where t: "take_tail ?s MAX_LINES MAX_BYTES = Some t" using take_tail_total by blast
  have full: "t_text t = ?s" if "\<not> t_truncated t"
    using that t by (cases rule: take_tail_cases [where t = ?s and ml = MAX_LINES and mb = MAX_BYTES]) auto
  obtain o1 o2 where o: "stream_view (utf8_lossy (stream_bytes False ?all)) = Some o1"
    "stream_view (utf8_lossy (stream_bytes True ?all)) = Some o2"
    using stream_view_total by blast
  show thesis
    by (rule that [OF t full o]) (use assms t o in \<open>simp_all add: bash_run_def spawn_bash_def Let_def\<close>)
qed

lemma wait_command_late: "wait_command timeout in_time answer = Inr (code, True) \<Longrightarrow> code = 124 \<and> timeout \<noteq> None"
  by (auto simp: wait_command_def split: option.splits if_splits sum.splits)

lemma shown_text_nonempty: "shown_text t n lp late timeout code \<noteq> []"
  by (simp add: shown_text_def Let_def lit_def)

lemma shown_text_plain:
  "\<not> t_truncated t \<Longrightarrow> t_text t \<noteq> [] \<Longrightarrow> shown_text t n lp False timeout 0 = t_text t"
  by (simp add: shown_text_def)

text \<open>The text of a reply, from the part of the output that is shown.\<close>

lemma shown_text_noted:
  assumes "late \<longrightarrow> timeout \<noteq> None" and "t_truncated t \<longleftrightarrow> lp \<noteq> None"
  shows "\<exists>shown. (if t_truncated t then noted (t_text t) (truncation_note t n lp) shown else shown = t_text t) \<and>
    (if late
     then \<exists>d. timeout = Some d \<and> noted shown (lit ''Command timed out after '' @ format_seconds (as_secs_f64 d)
            @ lit '' seconds'') (shown_text t n lp late timeout code)
     else if code \<noteq> 0
     then noted shown (lit ''Command exited with code '' @ dec_int code) (shown_text t n lp late timeout code)
     else shown_text t n lp late timeout code = (if shown = [] then lit ''(no output)'' else shown))"
proof -
  let ?shown = "if t_truncated t then append_note (t_text t) (truncation_note t n lp) else t_text t"
  have ne: "append_note x (lit ''Command timed out after '' @ y) \<noteq> []"
    "append_note x (lit ''Command exited with code '' @ y) \<noteq> []" for x y
    by (simp_all add: append_note_def lit_def)
  show ?thesis
    using assms(1) ne by (intro exI [of _ ?shown]) (auto simp: shown_text_def Let_def append_note_noted)
qed

text \<open>
  C18: A call that gets an exit status never panics, and the agent always gets all of the output,
  up to white space, or the name of a file that has it. The result carries the exit code, 124 for a
  timeout, which is also flagged. Output within the limits is shown as it is when the command
  succeeds, with a fixed text if there is none; otherwise it is shown up to its last line breaks,
  followed by an empty line and a note with the exit code or the limit in seconds, and output that is
  only white space gives way to the note. Output beyond the limits is cut to its tail, followed in
  the same way by a note that tells the lines and the name of a log, and then by the note on the exit
  code or the timeout; the bytes of the whole output have been written to that log.
\<close>
theorem bash_reports:
  assumes "wait_command timeout in_time answer = Inr (code, late)"
    and "bash_run (Inr pid) timeout in_time answer chunks rnd (Inr ()) = r"
  shows "\<exists>out saved t shown. r = Some (Inr out, saved) \<and> bo_exit_code out = code \<and>
    bo_timed_out out = (if late then Some True else None) \<and> (late \<longrightarrow> code = 124) \<and>
    bo_output out \<noteq> [] \<and>
    take_tail (utf8_lossy (combined_bytes (merge_chunks chunks))) MAX_LINES MAX_BYTES = Some t \<and>
    (if t_truncated t
     then saved = Some (log_path_of rnd, combined_bytes (merge_chunks chunks)) \<and>
          bo_full_output_log out = Some (log_path_of rnd) \<and>
          noted (t_text t) (truncation_note t (count_lines (utf8_lossy (combined_bytes (merge_chunks chunks))))
            (Some (log_path_of rnd))) shown
     else saved = None \<and> bo_full_output_log out = None \<and>
          shown = utf8_lossy (combined_bytes (merge_chunks chunks))) \<and>
    (if late
     then \<exists>d. timeout = Some d \<and> noted shown (lit ''Command timed out after '' @ format_seconds (as_secs_f64 d)
            @ lit '' seconds'') (bo_output out)
     else if code \<noteq> 0
     then noted shown (lit ''Command exited with code '' @ dec_int code) (bo_output out)
     else bo_output out = (if shown = [] then lit ''(no output)'' else shown))"
proof -
  let ?s = "utf8_lossy (combined_bytes (merge_chunks chunks))"
  obtain t o1 o2 where t: "take_tail ?s MAX_LINES MAX_BYTES = Some t" "\<not> t_truncated t \<Longrightarrow> t_text t = ?s"
    and run: "bash_run (Inr pid) timeout in_time answer chunks rnd (Inr ()) =
       (let lp = (if t_truncated t then Some (log_path_of rnd) else None)
        in Some (Inr \<lparr>bo_exit_code = code, bo_output = shown_text t (count_lines ?s) lp late timeout code,
             bo_stdout = o1, bo_stderr = o2, bo_full_output_log = lp,
             bo_timed_out = (if late then Some True else None)\<rparr>,
           map_option (\<lambda>path. (path, combined_bytes (merge_chunks chunks))) lp))"
    by (rule bash_run_finished [OF assms(1), of chunks pid rnd "Inr ()"]) simp
  have late: "late \<longrightarrow> code = 124" "late \<longrightarrow> timeout \<noteq> None" using wait_command_late assms(1) by (cases late; auto)+
  define lp where "lp = (if t_truncated t then Some (log_path_of rnd) else None)"
  define reply where "reply = shown_text t (count_lines ?s) lp late timeout code"
  have "t_truncated t \<longleftrightarrow> lp \<noteq> None" by (simp add: lp_def)
  note noted = shown_text_noted [where late = late and timeout = timeout and n = "count_lines ?s" and code = code,
      OF late(2) this, folded reply_def]
  obtain shown where sh: "if t_truncated t then noted (t_text t) (truncation_note t (count_lines ?s) lp) shown
      else shown = t_text t"
    "if late
     then \<exists>d. timeout = Some d \<and> noted shown (lit ''Command timed out after '' @ format_seconds (as_secs_f64 d)
            @ lit '' seconds'') reply
     else if code \<noteq> 0
     then noted shown (lit ''Command exited with code '' @ dec_int code) reply
     else reply = (if shown = [] then lit ''(no output)'' else shown)"
    using noted by (elim exE conjE) (rule that)
  have ne: "reply \<noteq> []" unfolding reply_def by (rule shown_text_nonempty)
  let ?out = "\<lparr>bo_exit_code = code, bo_output = reply, bo_stdout = o1, bo_stderr = o2,
      bo_full_output_log = lp, bo_timed_out = (if late then Some True else None)\<rparr>"
  have r: "r = Some (Inr ?out, map_option (\<lambda>path. (path, combined_bytes (merge_chunks chunks))) lp)"
    unfolding assms(2) [symmetric] run by (simp add: Let_def lp_def reply_def)
  show ?thesis
    using t late(1) sh ne
    by (intro exI [of _ ?out] exI [of _ "map_option (\<lambda>path. (path, combined_bytes (merge_chunks chunks))) lp"]
        exI [of _ t] exI [of _ shown] conjI r) (simp_all add: lp_def split: if_splits)
qed

definition bash_chunks :: "chunk list" where
  "bash_chunks = [\<lparr>ck_seq = 5, ck_stderr = True, ck_bytes = utf8_encode (lit ''err'' @ [nl])\<rparr>,
     \<lparr>ck_seq = 4, ck_stderr = False, ck_bytes = utf8_encode (lit ''out'' @ [nl])\<rparr>]"

theorem bash_reports_witness:
  "\<exists>out saved. bash_run (Inr (Some 9)) None False (Inr (Exited 3)) bash_chunks (lit ''ab'') (Inr ())
       = Some (Inr out, saved) \<and>
     bo_exit_code out = 3 \<and> bo_timed_out out = None \<and> bo_full_output_log out = None \<and> saved = None \<and>
     noted (lit ''out'' @ [nl] @ lit ''err'' @ [nl]) (lit ''Command exited with code 3'') (bo_output out)"
proof -
  have w: "wait_command None False (Inr (Exited 3)) = Inr (3, False)" by code_simp
  have n: "lit ''Command exited with code '' @ dec_int 3 = lit ''Command exited with code 3''"
    "utf8_lossy (combined_bytes (merge_chunks bash_chunks)) = lit ''out'' @ [nl] @ lit ''err'' @ [nl]"
    by code_simp+
  have "(case take_tail (utf8_lossy (combined_bytes (merge_chunks bash_chunks))) MAX_LINES MAX_BYTES of
      Some t \<Rightarrow> \<not> t_truncated t | None \<Rightarrow> False)"
    by code_simp
  then show ?thesis
    using bash_reports [OF w refl, of "Some 9" bash_chunks "lit ''ab''"] unfolding n
    by (auto split: option.splits if_splits)
qed

text \<open>The text of that call, with the note after the output of both streams in order.\<close>

lemma bash_run_text:
  "map_option (map_sum id bo_output \<circ> fst)
     (bash_run (Inr (Some 9)) None False (Inr (Exited 3)) bash_chunks (lit ''ab'') (Inr ()))
   = Some (Inr (lit ''out'' @ [nl] @ lit ''err'' @ [nl, nl] @ lit ''Command exited with code 3''))"
  by code_simp

text \<open>
  C40: A timeout of a positive whole number of seconds below \<open>2^53\<close> is taken exactly and printed as that
  number: what the client asked for, what the command is limited to and what the note says agree,
  although the seconds go through floating point twice. (Zero is refused, and from \<open>2^64\<close> on the
  conversion panics: \<open>validate_timeout_panics\<close>.)
\<close>
theorem timeout_round_trip:
  assumes "is_nat_value x n" and "0 < n" and "n < 2 ^ 53"
  shows "validate_timeout (Some x) = Some (Inr (Some (from_secs n))) \<and>
    format_seconds (as_secs_f64 (from_secs n)) = dec n"
proof -
  have "from_secs_f64 x = Some (from_secs n)" using from_secs_f64_nat [OF assms(1)] assms(3) by simp
  then have "validate_timeout (Some x) = Some (Inr (Some (from_secs n)))"
    using assms(2) is_nat_value_finite [OF assms(1)] is_nat_value_positive [OF assms(1)]
    by (simp add: validate_timeout_def)
  moreover have "format_seconds v = dec n" if "is_nat_value v n" for v
    using that assms(3) by (cases v) (auto simp: format_seconds_def min_def)
  ultimately show ?thesis using as_secs_f64_from_secs [OF assms(3)] by simp
qed

theorem timeout_round_trip_witness:
  "validate_timeout (Some (Fin False 60 2)) = Some (Inr (Some (from_secs 30))) \<and>
   format_seconds (as_secs_f64 (from_secs 30)) = dec 30"
  by (rule timeout_round_trip) simp_all

text \<open>A finite positive timeout of 2^64 seconds or more is no error but a panic.\<close>

lemma validate_timeout_panics:
  "validate_timeout (Some (Fin False (2 ^ 64) 1)) = None"
  by (simp add: validate_timeout_def)

end
