(* ===== verification/Environment.thy ===== *)
theory Environment
  imports Config "HOL-Library.RBT" "HOL-Library.List_Lexorder"
begin

text \<open>
  \<^theory_text>\<open>environment.rs\<close>: what \<open>resource://environment\<close> reports. The texts of
  \<^theory_text>\<open>/etc/os-release\<close> and \<^theory_text>\<open>/proc/self/mountinfo\<close> and the outcome of \<^theory_text>\<open>mise --version\<close> are
  arguments. The \<^theory_text>\<open>BTreeMap\<close> of the mounts is a red-black tree of the library; its keys are
  ordered as strings are.
\<close>

section \<open>The data\<close>

record mount_info =
  mi_path :: rstr
  mi_mode :: rstr
  mi_persistent :: bool

record runtime_manager =
  rm_name :: rstr
  rm_installed :: bool

record environment_info =
  ei_os :: rstr
  ei_architecture :: rstr
  ei_workspace :: rstr
  ei_mounts :: "mount_info list"
  ei_runtime_manager :: runtime_manager

definition RESOURCE_URI :: rstr where
  "RESOURCE_URI = lit ''resource://environment''"

text \<open>The entry of \<^theory_text>\<open>resources/list\<close>.\<close>

record resource_entry =
  re_uri :: rstr
  re_name :: rstr
  re_description :: rstr
  re_mime_type :: rstr

definition environment_resource :: resource_entry where
  "environment_resource =
     \<lparr>re_uri = RESOURCE_URI, re_name = lit ''environment'',
      re_description = lit ''Dynamic environment information about this MCPod container: OS, architecture, ''
        @ lit ''workspace, mounts, and runtime manager.'',
      re_mime_type = lit ''application/json''\<rparr>"

section \<open>The operating system\<close>

fun pretty_name :: "rstr list \<Rightarrow> rstr option" where
  "pretty_name [] = None"
| "pretty_name (line # rest) =
     (case strip_prefix line (lit ''PRETTY_NAME='') of
        Some value \<Rightarrow> Some (trim_matches (\<lambda>c. c = 39) (trim_matches (\<lambda>c. c = 34) (trim value)))
      | None \<Rightarrow> pretty_name rest)"

definition os_name :: "rstr option \<Rightarrow> rstr \<Rightarrow> rstr" where
  "os_name os_release os_const =
     (case os_release of
        Some release \<Rightarrow>
          (case pretty_name (str_lines release) of Some name \<Rightarrow> name | None \<Rightarrow> os_const)
      | None \<Rightarrow> os_const)"

text \<open>
  The first answer is kept. \<open>version\<close> is the exit of \<^theory_text>\<open>mise --version\<close>: \<^theory_text>\<open>None\<close> when it could
  not be run or took longer than three seconds.
\<close>

definition mise_installed :: "bool option \<Rightarrow> bool option \<Rightarrow> bool \<times> bool option" where
  "mise_installed cached version =
     (case cached of
        Some installed \<Rightarrow> (installed, cached)
      | None \<Rightarrow>
          (let installed = (case version of Some success \<Rightarrow> success | None \<Rightarrow> False)
           in (installed, Some installed)))"

section \<open>Mount points\<close>

definition is_system_mount :: "rstr \<Rightarrow> bool" where
  "is_system_mount mount_point \<longleftrightarrow>
     mount_point \<in> set [lit ''/'', lit ''/etc/hosts'', lit ''/etc/hostname'', lit ''/etc/resolv.conf'',
       lit ''/etc/localtime'', lit ''/etc/machine-id'', lit ''/etc/platform-id''] \<or>
     list_ex (\<lambda>p. mount_point = p \<or> prefix (p @ [47]) mount_point)
       [lit ''/proc'', lit ''/sys'', lit ''/dev'', lit ''/run'']"

definition unescape_code :: "rstr \<Rightarrow> rchar option" where
  "unescape_code s =
     (if s = 92 # lit ''040'' then Some 32
      else if s = 92 # lit ''011'' then Some 9
      else if s = 92 # lit ''012'' then Some 10
      else if s = 92 # lit ''134'' then Some 92
      else None)"

function unescape_loop :: "rstr \<Rightarrow> rstr" where
  "unescape_loop rest =
     (let before = takeWhile (\<lambda>c. c \<noteq> 92) rest; tail = dropWhile (\<lambda>c. c \<noteq> 92) rest
      in if tail = [] then rest
         else case unescape_code (take 4 tail) of
             Some c \<Rightarrow> before @ c # unescape_loop (drop 4 tail)
           | None \<Rightarrow> before @ 92 # unescape_loop (drop 1 tail))"
  by pat_completeness auto
termination
proof (relation "measure length", simp)
  fix rest before tail :: rstr and c
  assume t: "tail = dropWhile (\<lambda>c. c \<noteq> 92) rest" "tail \<noteq> []"
  then have "length tail \<le> length rest" by (simp add: length_dropWhile_le)
  then show "(drop 4 tail, rest) \<in> measure length" "(drop 1 tail, rest) \<in> measure length"
    using t(2) by (cases tail; simp)+
qed

declare unescape_loop.simps [simp del]

definition unescape_mount_point :: "rstr \<Rightarrow> rstr" where
  "unescape_mount_point field = (if 92 \<notin> set field then field else unescape_loop field)"

text \<open>One line of \<^theory_text>\<open>mountinfo\<close>: the key and the entry, if the mount is reported.\<close>

definition mount_of_line :: "rstr \<Rightarrow> (rstr \<times> mount_info) option" where
  "mount_of_line line =
     (let fields = split_whitespace line;
          separator = length (takeWhile (\<lambda>f. f \<noteq> [45]) fields)
      in if separator = length fields then None
         else if length fields < separator + 2 \<or> length fields < 6 then None
         else (let mount_point = unescape_mount_point (fields ! 4);
                   options = fields ! 5;
                   fstype = fields ! (separator + 1)
               in if is_system_mount mount_point then None
                  else (let mode = (if list_ex (\<lambda>option. option = lit ''ro'') (split_char 44 options)
                                    then lit ''ro'' else lit ''rw'');
                            persistent = (mount_point \<noteq> lit ''/'' \<and> fstype \<noteq> lit ''tmpfs'')
                        in Some (mount_point, \<lparr>mi_path = mount_point, mi_mode = mode,
                                   mi_persistent = persistent\<rparr>))))"

definition insert_mount ::
  "rstr \<Rightarrow> (rstr, mount_info) RBT.rbt \<Rightarrow> (rstr, mount_info) RBT.rbt" where
  "insert_mount line by_path =
     (case mount_of_line line of None \<Rightarrow> by_path | Some (p, i) \<Rightarrow> RBT.insert p i by_path)"

definition mounts :: "rstr option \<Rightarrow> mount_info list" where
  "mounts mountinfo =
     (case mountinfo of
        None \<Rightarrow> []
      | Some t \<Rightarrow> map snd (RBT.entries (fold insert_mount (str_lines t) RBT.empty)))"

definition info ::
  "config \<Rightarrow> rstr option \<Rightarrow> rstr \<Rightarrow> rstr \<Rightarrow> rstr option \<Rightarrow> bool option \<Rightarrow> bool option
     \<Rightarrow> environment_info \<times> bool option" where
  "info config os_release os_const arch mountinfo cached version =
     (let (installed, cached') = mise_installed cached version
      in (\<lparr>ei_os = os_name os_release os_const, ei_architecture = arch,
           ei_workspace = path_display (abs_path (cf_workspace config)),
           ei_mounts = mounts mountinfo,
           ei_runtime_manager = \<lparr>rm_name = lit ''mise'', rm_installed = installed\<rparr>\<rparr>, cached'))"

section \<open>Escaping\<close>

text \<open>What the kernel writes for a mount point.\<close>

fun escape_mount_point :: "rstr \<Rightarrow> rstr" where
  "escape_mount_point [] = []"
| "escape_mount_point (c # s) =
     (if c = 32 then 92 # lit ''040'' else if c = 9 then 92 # lit ''011''
      else if c = 10 then 92 # lit ''012'' else if c = 92 then 92 # lit ''134'' else [c])
     @ escape_mount_point s"

lemma unescape_loop_Nil [simp]: "unescape_loop [] = []"
  by (simp add: unescape_loop.simps)

lemma unescape_loop_other: "c \<noteq> 92 \<Longrightarrow> unescape_loop (c # s) = c # unescape_loop s"
  unfolding unescape_loop.simps [of "c # s"] unescape_loop.simps [of s]
  by (auto simp: Let_def split: option.split)

lemma unescape_loop_code:
  "unescape_code [92, a, b, c] = Some d \<Longrightarrow> unescape_loop (92 # a # b # c # s) = d # unescape_loop s"
  by (subst unescape_loop.simps) (simp add: Let_def)

lemma unescape_loop_escape: "unescape_loop (escape_mount_point s) = s"
  by (induction s) (auto simp: unescape_loop_other unescape_loop_code unescape_code_def lit_def)

lemma unescape_loop_plain: "92 \<notin> set s \<Longrightarrow> unescape_loop s = s"
  by (induction s) (auto simp: unescape_loop_other)

lemma unescape_mount_point_eq: "unescape_mount_point s = unescape_loop s"
  by (simp add: unescape_mount_point_def unescape_loop_plain)

text \<open>
  Mount points are read back exactly: unescaping undoes the kernel's escaping of space, tab,
  newline and backslash, for every name, also one that contains what looks like an escape.
\<close>
theorem mount_point_round_trip: "unescape_mount_point (escape_mount_point s) = s"
  by (simp add: unescape_mount_point_eq unescape_loop_escape)

section \<open>The list of mounts\<close>

lemma mount_of_line_Some:
  assumes "mount_of_line line = Some (p, i)"
  shows "mi_path i = p" "\<not> is_system_mount p"
  using assms by (auto simp: mount_of_line_def Let_def split: if_splits)

lemma lookup_fold_mounts:
  "RBT.lookup (fold insert_mount ls m) =
     RBT.lookup m ++ map_of (rev (List.map_filter mount_of_line ls))"
proof (induction ls arbitrary: m)
  case (Cons l ls)
  show ?case
  proof (cases "mount_of_line l")
    case None
    then show ?thesis using Cons by (simp add: insert_mount_def map_filter_simps)
  next
    case (Some pi)
    obtain p i where "pi = (p, i)" by fastforce
    then show ?thesis using Cons Some by (simp add: insert_mount_def map_filter_simps) (simp add: fun_upd_def)
  qed
qed (simp add: map_filter_simps)

definition reported :: "rstr \<Rightarrow> (rstr \<times> mount_info) list" where
  "reported t = List.map_filter mount_of_line (str_lines t)"

lemma entries_mounts:
  "map_of (RBT.entries (fold insert_mount (str_lines t) RBT.empty)) = map_of (rev (reported t))"
  unfolding map_of_entries lookup_fold_mounts reported_def by simp

text \<open>
  C39: The mounts are listed in the order of their paths, without duplicates and without a system
  mount, and the entry of a path is that of the last line of \<^theory_text>\<open>mountinfo\<close> for it, the mount that
  is on top.
\<close>
theorem mounts_listing:
  "sorted_wrt (<) (map mi_path (mounts (Some t))) \<and>
   list_all (\<lambda>i. \<not> is_system_mount (mi_path i)) (mounts (Some t)) \<and>
   set (mounts (Some t)) = {i. map_of (rev (reported t)) (mi_path i) = Some i}"
proof -
  let ?m = "fold insert_mount (str_lines t) RBT.empty"
  have entry: "(p, i) \<in> set (RBT.entries ?m) \<longleftrightarrow> map_of (rev (reported t)) p = Some i" for p i
    using entries_mounts [of t] distinct_entries [of ?m] by (metis map_of_eq_Some_iff)
  have key: "mi_path i = p \<and> \<not> is_system_mount p" if "(p, i) \<in> set (RBT.entries ?m)" for p i
  proof -
    have "(p, i) \<in> set (reported t)"
      using entry that by (metis map_of_SomeD set_rev)
    then obtain l where "mount_of_line l = Some (p, i)"
      by (auto simp: reported_def List.map_filter_def)
    then show ?thesis using mount_of_line_Some by blast
  qed
  have paths: "map mi_path (mounts (Some t)) = map fst (RBT.entries ?m)"
    using key by (auto simp: mounts_def)
  have "sorted_wrt (<) (map fst (RBT.entries ?m))"
    using sorted_entries [of ?m] distinct_entries [of ?m] by (simp add: strict_sorted_iff)
  moreover have "i \<in> set (mounts (Some t)) \<longleftrightarrow> map_of (rev (reported t)) (mi_path i) = Some i" for i
  proof
    assume "i \<in> set (mounts (Some t))"
    then obtain p where p: "(p, i) \<in> set (RBT.entries ?m)" by (auto simp: mounts_def)
    then show "map_of (rev (reported t)) (mi_path i) = Some i" using entry key [OF p] by simp
  next
    assume "map_of (rev (reported t)) (mi_path i) = Some i"
    then have "(mi_path i, i) \<in> set (RBT.entries ?m)" using entry by simp
    then show "i \<in> set (mounts (Some t))" by (force simp: mounts_def)
  qed
  moreover have "list_all (\<lambda>i. \<not> is_system_mount (mi_path i)) (mounts (Some t))"
    unfolding list_all_iff mounts_def using key by auto
  ultimately show ?thesis unfolding paths by (intro conjI set_eqI) simp_all
qed

text \<open>The root is a system mount, so the test for it in \<open>persistent\<close> never decides anything.\<close>

lemma persistent_unless_tmpfs:
  assumes "mount_of_line line = Some (p, i)"
  shows "mi_persistent i \<longleftrightarrow>
    split_whitespace line ! (length (takeWhile (\<lambda>f. f \<noteq> [45]) (split_whitespace line)) + 1)
      \<noteq> lit ''tmpfs''"
proof -
  have "p \<noteq> lit ''/''" using mount_of_line_Some(2) [OF assms] by (auto simp: is_system_mount_def)
  then show ?thesis using assms by (auto simp: mount_of_line_def Let_def split: if_splits)
qed

end
