(* ===== verification/Instructions.thy ===== *)
theory Instructions
  imports Str_Split Paths
begin

text \<open>
  \<^theory_text>\<open>instructions.rs\<close>: the text an agent is given with the answer to \<^theory_text>\<open>initialize\<close>, line by
  line, with the workspace \<open>w\<close> as it is displayed.
\<close>

definition instruction_lines :: "rstr \<Rightarrow> rstr list" where
  "instruction_lines w =
    [lit ''You are connected to an MCPod development container.'',
     [],
     lit ''Workspace:'',
     [],
     lit ''- The project workspace is '' @ w @ lit ''.'',
     lit ''- Perform project work inside '' @ w @ lit ''.'',
     lit ''- Shell commands run with '' @ w @ lit '' as the default working directory.'',
     [],
     lit ''Available tools:'',
     [],
     lit ''- read: Read file contents.'',
     lit ''- write: Create new files or completely replace file contents.'',
     lit ''- edit: Make precise changes to existing files.'',
     lit ''- bash: Execute shell commands, including git, search, build, test, package management, and development tools.'',
     [],
     lit ''Tool usage:'',
     [],
     lit ''- Use read to inspect source files instead of `cat` or `sed`.'',
     lit ''- Use edit for targeted changes to existing files.'',
     lit ''- Use write for new files or complete rewrites.'',
     lit ''- Use bash for `ls`, `rg`, `find`, git, package managers, builds, tests, and other shell operations.'',
     lit ''- Prefer the dedicated file tools over shell-based file modification.'',
     lit ''- Do not rely on temporary shell state such as `cd`, aliases, or exported variables persisting across separate bash calls.'',
     [],
     lit ''Runtime:'',
     [],
     lit ''- mise is installed.'',
     lit ''- Use mise to manage development runtimes such as Node.js, Python, Rust, Go, and Java.'',
     lit ''- Respect project-defined mise configuration when present.'',
     lit ''- Run `mise install` when the project declares runtimes that are not yet installed.'',
     [],
     lit ''Privileges:'',
     [],
     lit ''- You run as the `mcpod` user mapped onto the workspace owner's UID/GID, so files you create keep the host workspace ownership.'',
     lit ''- You have passwordless sudo inside the container for system-level operations.'',
     lit ''- Do not prefix ordinary project commands with sudo: files created via sudo are owned by root.'',
     [],
     lit ''Package installation:'',
     [],
     lit ''- The container is a disposable development environment.'',
     lit ''- You may install missing system packages with sudo apt-get when required.'',
     lit ''- Prefer `sudo apt-get install -y --no-install-recommends <package>`.'',
     lit ''- Run `sudo apt-get update` when package metadata is unavailable or stale.'',
     lit ''- Prefer mise for development runtimes and runtime-managed tools.'',
     lit ''- Install project-specific system libraries only when required.'',
     [],
     lit ''Project instructions:'',
     [],
     lit ''- If '' @ w @ lit ''/AGENTS.md exists, read it before modifying the project.'',
     lit ''- Follow project-specific instructions found there.'',
     [],
     lit ''Persistence:'',
     [],
     lit ''- Only mounted directories are guaranteed to persist.'',
     lit ''- Changes outside mounted directories may be lost when the container is recreated.'']"

definition instructions :: "path \<Rightarrow> rstr" where
  "instructions workspace_path = join_char nl (instruction_lines (path_display workspace_path))"

end
