(* ===== verification/Server.thy ===== *)
theory Server
  imports Auth Edit_Tool Read_Tool Bash_Tool Environment Instructions
begin

text \<open>
  \<^theory_text>\<open>server.rs\<close>: the tool handlers that turn the outcome of a tool into an MCP result, the list of
  tools, the resource and the server's information. JSON and the types of the rmcp crate are
  represented by the data the code puts into them.
\<close>

section \<open>Results\<close>

datatype content_block = TextBlock rstr | ImageBlock rstr rstr

datatype structured =
    ReadStructured read_output
  | BashStructured bash_output
  | EditStructured edit_output
  | WriteStructured write_output

record call_result =
  cr_is_error :: bool
  cr_content :: "content_block list"
  cr_structured :: "structured option"

datatype mcp_error = InvalidParams rstr | InternalError rstr | ResourceNotFound rstr

definition text_result :: "rstr \<Rightarrow> call_result" where
  "text_result t = \<lparr>cr_is_error = False, cr_content = [TextBlock t], cr_structured = None\<rparr>"

definition tool_error :: "rstr \<Rightarrow> call_result" where
  "tool_error message = \<lparr>cr_is_error = True, cr_content = [TextBlock message], cr_structured = None\<rparr>"

text \<open>\<^theory_text>\<open>run_tool\<close>: a tool's message becomes an internal error. Its log records follow below.\<close>

definition run_tool :: "rstr + 'a \<Rightarrow> mcp_error + 'a" where
  "run_tool outcome =
     (case outcome of Inr result \<Rightarrow> Inr result | Inl message \<Rightarrow> Inl (InternalError message))"

fun mcp_message :: "mcp_error \<Rightarrow> rstr" where
  "mcp_message (InvalidParams m) = m"
| "mcp_message (InternalError m) = m"
| "mcp_message (ResourceNotFound m) = m"

section \<open>Log subjects\<close>

fun clip_cut :: "rstr \<Rightarrow> nat \<Rightarrow> nat" where
  "clip_cut v 0 = 0"
| "clip_cut v (Suc n) = (if \<not> is_char_boundary v (Suc n) then clip_cut v n else Suc n)"

definition LOG_CLIP_MAX :: nat where
  "LOG_CLIP_MAX = 300"

text \<open>\<^theory_text>\<open>None\<close> if the slice panics.\<close>

definition log_clip :: "rstr \<Rightarrow> rstr option" where
  "log_clip v =
     (if str_len v \<le> LOG_CLIP_MAX then Some v
      else map_option (\<lambda>p. p @ [0x2026]) (str_to v (clip_cut v LOG_CLIP_MAX)))"

text \<open>
  The records of \<^theory_text>\<open>run_tool\<close>, with the time the tool took in milliseconds, cut to 64 bits. A record
  has the path or the command and the message of a failure, never the contents of a file.
\<close>

datatype tool_record =
    ToolCalled rstr rstr
  | ToolCompleted rstr nat
  | ToolFailed rstr rstr nat

definition run_tool_log :: "rstr \<Rightarrow> rstr \<Rightarrow> rstr + 'a \<Rightarrow> nat \<Rightarrow> tool_record list option" where
  "run_tool_log tool subject outcome elapsed_ms =
     map_option (\<lambda>clipped.
       [ToolCalled tool clipped,
        (case outcome of
           Inr _ \<Rightarrow> ToolCompleted tool (elapsed_ms mod 2 ^ 64)
         | Inl message \<Rightarrow> ToolFailed tool message (elapsed_ms mod 2 ^ 64))]) (log_clip subject)"

section \<open>The tools\<close>

text \<open>\<open>fs\<close> is the file system when the tool runs, \<open>fs1\<close> when an image is read again.\<close>

definition server_read ::
  "'img image_lib \<Rightarrow> config \<Rightarrow> fs \<Rightarrow> fs \<Rightarrow> read_params \<Rightarrow> mcp_error + call_result" where
  "server_read il config fs fs1 params =
     (let base = abs_path (cf_workspace config)
      in case run_tool (read_run il base fs (rp_path params) (rp_offset params) (rp_limit params)) of
           Inl e \<Rightarrow> Inr (tool_error (mcp_message e))
         | Inr output \<Rightarrow>
             if ro_image_mime_type output \<noteq> None then
               (case resolve_in_workspace fs1 base (ro_path output) of
                  Inl e \<Rightarrow> Inl (InvalidParams (path_error_text e))
                | Inr resolved \<Rightarrow>
                    (case fs_read fs1 resolved of
                       Inl e \<Rightarrow> Inl (InternalError (lit ''failed to re-read image: '' @ io_error_text e))
                     | Inr bytes \<Rightarrow>
                         (case encode_image_for_content il (ro_path output) bytes of
                            Inl e \<Rightarrow> Inl (InternalError e)
                          | Inr (encoded, mime) \<Rightarrow>
                              Inr \<lparr>cr_is_error = False,
                                   cr_content = [TextBlock (ro_content output), ImageBlock encoded mime],
                                   cr_structured = Some (ReadStructured output)\<rparr>)))
             else Inr ((text_result (ro_content output))\<lparr>cr_structured := Some (ReadStructured output)\<rparr>))"

text \<open>
  \<open>outcome\<close> is what \<^theory_text>\<open>bash::run\<close> gives for the validated timeout. A panic is \<^theory_text>\<open>None\<close>.
\<close>

definition server_bash ::
  "bash_params \<Rightarrow> (duration option \<Rightarrow> (bash_error + bash_output) option) \<Rightarrow> (mcp_error + call_result) option"
where
  "server_bash params outcome =
     (case validate_timeout (bp_timeout params) of
        None \<Rightarrow> None
      | Some (Inl message) \<Rightarrow> Some (Inr (tool_error message))
      | Some (Inr timeout) \<Rightarrow>
          (case outcome timeout of
             None \<Rightarrow> None
           | Some r \<Rightarrow>
               (case run_tool (map_sum bash_error_text id r) of
                  Inl e \<Rightarrow> Some (Inr (tool_error (mcp_message e)))
                | Inr output \<Rightarrow>
                    (let is_error = (bo_exit_code output \<noteq> 0 \<or> bo_timed_out output = Some True)
                     in Some (Inr \<lparr>cr_is_error = is_error, cr_content = [TextBlock (bo_output output)],
                                  cr_structured = Some (BashStructured output)\<rparr>)))))"

definition server_edit ::
  "(rchar \<Rightarrow> rstr) \<Rightarrow> differ \<Rightarrow> config \<Rightarrow> fs \<Rightarrow> fs \<Rightarrow> edit_params \<Rightarrow> rstr \<Rightarrow> faults
     \<Rightarrow> (mcp_error + call_result) option \<times> fs list" where
  "server_edit nfkc df config fs0 fs params rnd fl =
     (let (r, hist) = edit_run nfkc df (abs_path (cf_workspace config)) fs0 fs params rnd fl
      in (map_option
            (\<lambda>r. case run_tool r of
                   Inl e \<Rightarrow> Inr (tool_error (mcp_message e))
                 | Inr output \<Rightarrow>
                     Inr ((text_result (lit ''Successfully replaced '' @ dec (eo_replacements output)
                             @ lit '' block(s) in '' @ eo_path output @ lit ''.''))
                            \<lparr>cr_structured := Some (EditStructured output)\<rparr>)) r, hist))"

definition server_write ::
  "config \<Rightarrow> fs \<Rightarrow> fs \<Rightarrow> write_params \<Rightarrow> rstr \<Rightarrow> io_error option \<Rightarrow> faults
     \<Rightarrow> (mcp_error + call_result) \<times> fs list" where
  "server_write config fs0 fs params rnd mkdir_fault fl =
     (let (r, hist) = write_run (abs_path (cf_workspace config)) fs0 fs params rnd mkdir_fault fl
      in (case run_tool r of
            Inl e \<Rightarrow> Inr (tool_error (mcp_message e))
          | Inr output \<Rightarrow>
              Inr ((text_result (lit ''Successfully wrote '' @ dec (wo_bytes output) @ lit '' bytes to ''
                      @ wo_path output))\<lparr>cr_structured := Some (WriteStructured output)\<rparr>), hist))"

section \<open>The list of tools\<close>

definition TOOL_ORDER :: "rstr list" where
  "TOOL_ORDER = [lit ''read'', lit ''bash'', lit ''edit'', lit ''write'']"

definition tool_rank :: "rstr \<Rightarrow> nat" where
  "tool_rank name =
     (let i = length (takeWhile (\<lambda>n. n \<noteq> name) TOOL_ORDER)
      in if i < length TOOL_ORDER then i else 2 ^ 64 - 1)"

datatype cache_scope = PublicScope

record 'tool list_tools_result =
  lt_tools :: "'tool list"
  lt_ttl_ms :: "nat option"
  lt_cache_scope :: "cache_scope option"

text \<open>\<open>list_all\<close> is what the router of the rmcp crate lists; \<open>hints\<close>: the client knows cache hints.\<close>

definition list_tools :: "('tool \<Rightarrow> rstr) \<Rightarrow> 'tool list \<Rightarrow> bool \<Rightarrow> 'tool list_tools_result" where
  "list_tools tool_name router_tools hints =
     \<lparr>lt_tools = sort_key (\<lambda>tool. tool_rank (tool_name tool)) router_tools,
      lt_ttl_ms = (if hints then Some 0 else None),
      lt_cache_scope = (if hints then Some PublicScope else None)\<rparr>"

section \<open>Information and resources\<close>

record server_info =
  si_tools :: bool
  si_resources :: bool
  si_name :: rstr
  si_version :: rstr
  si_instructions :: rstr

definition get_info :: "config \<Rightarrow> rstr \<Rightarrow> server_info" where
  "get_info config version = \<lparr>si_tools = True, si_resources = True, si_name = lit ''mcpod'', si_version = version,
     si_instructions = instructions (abs_path (cf_workspace config))\<rparr>"

definition list_resources :: "resource_entry list" where
  "list_resources = [environment_resource]"

record resource_contents =
  rc_uri :: rstr
  rc_mime_type :: rstr
  rc_text :: rstr

definition read_resource ::
  "(environment_info \<Rightarrow> rstr + rstr) \<Rightarrow> rstr \<Rightarrow> environment_info \<Rightarrow> mcp_error + resource_contents list" where
  "read_resource to_json uri env_info =
     (if uri \<noteq> RESOURCE_URI then Inl (ResourceNotFound (lit ''unknown resource: '' @ uri))
      else case to_json env_info of
          Inl e \<Rightarrow> Inl (InternalError (lit ''failed to serialize environment: '' @ e))
        | Inr t \<Rightarrow>
            Inr [\<lparr>rc_uri = RESOURCE_URI, rc_mime_type = lit ''application/json'', rc_text = t\<rparr>])"

section \<open>Properties\<close>

lemma clip_cut_spec: "clip_cut v n \<le> n \<and> is_char_boundary v (clip_cut v n)"
  by (induction n) (auto simp: is_char_boundary_def)

lemma clip_cut_ge: "is_char_boundary v b \<Longrightarrow> b \<le> n \<Longrightarrow> b \<le> clip_cut v n"
  by (induction n) (auto simp: le_Suc_eq)

text \<open>
  A subject is clipped without a panic: what is logged is the value itself up to 300 bytes, and
  otherwise its longest prefix of whole characters within 300 bytes, which has at least 297 bytes,
  and an ellipsis.
\<close>
theorem log_clip_prefix:
  "\<exists>p q. v = p @ q \<and> str_len p \<le> 300 \<and>
     (if str_len v \<le> 300 then log_clip v = Some v else log_clip v = Some (p @ [0x2026]) \<and> 297 \<le> str_len p)"
proof (cases "str_len v \<le> 300")
  case True
  then show ?thesis
    by (intro exI [of _ v] exI [of _ "[]"]) (simp add: log_clip_def LOG_CLIP_MAX_def)
next
  case False
  let ?c = "clip_cut v 300"
  have c: "?c \<le> 300" "is_char_boundary v ?c" using clip_cut_spec by simp_all
  obtain k where k: "char_index v ?c = Some k" using c(2) by (auto simp: is_char_boundary_def)
  have len: "str_len (take k v) = ?c" using k char_index_SomeD by blast
  obtain b where b: "297 \<le> b" "b < 297 + 4" "is_char_boundary v b"
    using boundary_near [of 297 v] False by auto
  have "297 \<le> ?c" using clip_cut_ge [OF b(3), of 300] b by linarith
  moreover have "str_to v ?c = Some (take k v)" using k by (simp add: str_to_def)
  ultimately show ?thesis
    using False len c(1)
    by (intro exI [of _ "take k v"] exI [of _ "drop k v"]) (simp add: log_clip_def LOG_CLIP_MAX_def)
qed

text \<open>
  Every call of a tool leaves two records, whatever its subject is, and the subject takes at most 303
  bytes of the log.
\<close>

lemma run_tool_log_bounded:
  "\<exists>clipped. run_tool_log tool subject outcome elapsed_ms = Some [ToolCalled tool clipped,
     case outcome of Inr _ \<Rightarrow> ToolCompleted tool (elapsed_ms mod 2 ^ 64)
       | Inl message \<Rightarrow> ToolFailed tool message (elapsed_ms mod 2 ^ 64)] \<and> str_len clipped \<le> 303"
proof -
  obtain p q where p: "subject = p @ q" "str_len p \<le> 300"
      "if str_len subject \<le> 300 then log_clip subject = Some subject else log_clip subject = Some (p @ [0x2026])"
    using log_clip_prefix [of subject] by (auto split: if_splits)
  then have "\<exists>clipped. log_clip subject = Some clipped \<and> str_len clipped \<le> 303"
    by (cases "str_len subject \<le> 300") (auto simp: len_utf8_def)
  then show ?thesis by (auto simp: run_tool_log_def)
qed

text \<open>
  The four tools are listed as read, bash, edit, write, in whatever order the router has them,
  and the list is the router's list otherwise.
\<close>
theorem tools_listed_in_order:
  assumes "mset (map tool_name router_tools) = mset [lit ''read'', lit ''bash'', lit ''edit'', lit ''write'']"
  shows "map tool_name (lt_tools (list_tools tool_name router_tools hints))
      = [lit ''read'', lit ''bash'', lit ''edit'', lit ''write''] \<and>
    mset (lt_tools (list_tools tool_name router_tools hints)) = mset router_tools"
proof -
  have names: "mset (map tool_name router_tools) = mset TOOL_ORDER"
    using assms by (simp add: TOOL_ORDER_def)
  then have set: "set (map tool_name router_tools) = set TOOL_ORDER" by (rule mset_eq_setD)
  have "inj_on tool_rank (set TOOL_ORDER)"
    by (simp add: inj_on_def TOOL_ORDER_def tool_rank_def lit_def)
  then have "sort_key tool_rank (map tool_name router_tools) = sort_key tool_rank TOOL_ORDER"
    using names set by (intro sort_key_inj_key_eq) simp_all
  also have "\<dots> = TOOL_ORDER" by code_simp
  finally have "map tool_name (sort_key (\<lambda>t. tool_rank (tool_name t)) router_tools) = TOOL_ORDER"
    by (simp only: sort_key_map)
  then show ?thesis by (simp add: list_tools_def TOOL_ORDER_def)
qed

theorem tools_listed_in_order_witness:
  "lt_tools (list_tools (\<lambda>n. n) [lit ''bash'', lit ''edit'', lit ''read'', lit ''write''] True)
     = [lit ''read'', lit ''bash'', lit ''edit'', lit ''write'']"
proof -
  have "map (\<lambda>n. n) [lit ''bash'', lit ''edit'', lit ''read'', lit ''write'']
      = [lit ''bash'', lit ''edit'', lit ''read'', lit ''write'']" by simp
  moreover have "mset [lit ''bash'', lit ''edit'', lit ''read'', lit ''write'']
      = mset [lit ''read'', lit ''bash'', lit ''edit'', lit ''write'']"
    by simp
  ultimately show ?thesis
    using tools_listed_in_order [of "\<lambda>n. n" "[lit ''bash'', lit ''edit'', lit ''read'', lit ''write'']" True]
    by simp
qed

lemma read_run_image:
  assumes "read_run il base fs path offset limit = Inr out" and "ro_image_mime_type out = Some mime"
  obtains resolved bytes where "ro_path out = path" "resolve_in_workspace fs base path = Inr resolved"
    "fs_read fs resolved = Inr bytes" "detect_image_mime il bytes = Some mime"
    "ro_content out = lit ''Read image file ['' @ mime @ lit '']''"
  using assms
  by (auto simp: read_run_def read_window_def Let_def split: if_splits sum.splits option.splits prod.splits)

text \<open>
  A failure of the read tool reaches the agent as a result flagged as an error, with the tool's
  message; text comes back as one text block. A protocol error has one cause, as long as the file
  does not change between the two reads of an image: the file looks like an image and cannot be
  decoded or encoded. An image that can be comes back as a text block and an image block.
\<close>
theorem server_read_outcomes:
  fixes il :: "'img image_lib" and config :: config
  defines "tool_outcome fs params \<equiv>
    read_run il (abs_path (cf_workspace config)) fs (rp_path params) (rp_offset params) (rp_limit params)"
  shows "case tool_outcome fs params of
      Inl message \<Rightarrow> server_read il config fs fs params = Inr (tool_error message)
    | Inr out \<Rightarrow>
        (case ro_image_mime_type out of
           None \<Rightarrow> \<exists>result. server_read il config fs fs params = Inr result \<and> \<not> cr_is_error result \<and>
             cr_content result = [TextBlock (ro_content out)] \<and>
             cr_structured result = Some (ReadStructured out)
         | Some mime \<Rightarrow> \<exists>bytes. detect_image_mime il bytes = Some mime \<and>
             (case encode_image_for_content il (rp_path params) bytes of
                Inl e \<Rightarrow> server_read il config fs fs params = Inl (InternalError e)
              | Inr (encoded, out_mime) \<Rightarrow>
                  server_read il config fs fs params = Inr \<lparr>cr_is_error = False,
                    cr_content = [TextBlock (ro_content out), ImageBlock encoded out_mime],
                    cr_structured = Some (ReadStructured out)\<rparr>))"
proof (cases "tool_outcome fs params")
  case (Inl message)
  then show ?thesis by (simp add: server_read_def run_tool_def tool_outcome_def)
next
  case (Inr out)
  show ?thesis
  proof (cases "ro_image_mime_type out")
    case None
    then show ?thesis using Inr
      by (simp add: server_read_def run_tool_def text_result_def tool_outcome_def)
  next
    case (Some mime)
    obtain resolved bytes where r: "ro_path out = rp_path params"
      "resolve_in_workspace fs (abs_path (cf_workspace config)) (rp_path params) = Inr resolved"
      "fs_read fs resolved = Inr bytes" "detect_image_mime il bytes = Some mime"
      by (rule read_run_image [OF Inr [unfolded tool_outcome_def] Some])
    have "case encode_image_for_content il (rp_path params) bytes of
        Inl e \<Rightarrow> server_read il config fs fs params = Inl (InternalError e)
      | Inr (encoded, out_mime) \<Rightarrow>
          server_read il config fs fs params = Inr \<lparr>cr_is_error = False,
            cr_content = [TextBlock (ro_content out), ImageBlock encoded out_mime],
            cr_structured = Some (ReadStructured out)\<rparr>"
      using Inr Some r
      by (simp add: server_read_def run_tool_def tool_outcome_def split: sum.split prod.split)
    then show ?thesis using Inr Some r(4) by auto
  qed
qed

end
