(* ===== verification/Lookup_After_Write.thy ===== *)
theory Lookup_After_Write
  imports Edit_Tool
begin

text \<open>
  Names keep their meaning. The sandbox looks a request up in the file system, and so do the calls
  that follow; the lemmas here show that a tool that has changed the target, and nothing else than
  adding directories on the way to it, has not changed where the same request leads.
\<close>

section \<open>A successful lookup is stable\<close>

lemma walk_ok_more_links:
  assumes "walk fs creat n cur cs = Inr (k, p)"
  shows "walk fs creat (n + j) cur cs = Inr (k + j, p)"
  using assms
proof (induction fs creat n cur cs arbitrary: k p rule: walk.induct)
  case (5 fs creat n cur s cs)
  have dir: "fs cur = Some Dir" using "5.prems" by (simp split: if_splits)
  show ?case
  proof (cases "fs (cur @ [s])")
    case None
    then show ?thesis using "5.prems" dir by (simp split: if_splits)
  next
    case (Some x)
    show ?thesis
    proof (cases x)
      case (File b)
      then show ?thesis using "5.IH"(1) [OF dir Some] "5.prems" dir Some by simp
    next
      case Dir
      then show ?thesis using "5.IH"(2) [OF dir Some] "5.prems" dir Some by simp
    next
      case (Link t)
      then obtain m where m: "n = Suc m" using "5.prems" dir Some by (cases n) simp_all
      then show ?thesis using "5.IH"(3) [OF dir Some Link m] "5.prems" dir Some Link by simp
    qed
  qed
qed (auto split: if_splits)

text \<open>
  \<open>fs'\<close> has the directories of \<open>fs\<close>, its files, possibly with other contents, and its links,
  except for links at a place \<open>p\<close>, at which no lookup ends.
\<close>

definition keeps_lookups :: "fpath \<Rightarrow> fs \<Rightarrow> fs \<Rightarrow> bool" where
  "keeps_lookups p fs fs' \<longleftrightarrow> (\<forall>q x. fs q = Some x \<longrightarrow>
     (case x of
        Dir \<Rightarrow> fs' q = Some Dir
      | File _ \<Rightarrow> \<exists>b. fs' q = Some (File b)
      | Link t \<Rightarrow> fs' q = Some (Link t) \<or> q = p \<and> (\<exists>e. canonicalize fs (abs_path p) = Inl e \<and> e \<noteq> ELOOP)))"

lemma keeps_lookupsD:
  assumes "keeps_lookups p fs fs'"
  shows "fs q = Some Dir \<Longrightarrow> fs' q = Some Dir"
    and "fs q = Some (File b) \<Longrightarrow> \<exists>b'. fs' q = Some (File b')"
    and "fs q = Some (Link t) \<Longrightarrow> fs' q = Some (Link t) \<or>
      q = p \<and> (\<exists>e. canonicalize fs (abs_path p) = Inl e \<and> e \<noteq> ELOOP)"
  using assms by (force simp: keeps_lookups_def)+

lemma dangling_not_passed:
  assumes "wf_fs fs" and "fs cur = Some Dir" and "n \<le> max_links"
    and "walk fs False n cur (Normal s # cs) = Inr r"
    and "canonicalize fs (abs_path (cur @ [s])) = Inl e"
  shows False
proof -
  have "walk fs False max_links [] (abs_path cur) = Inr (max_links, cur)"
    using walk_canonical [of fs "[]" cur False max_links] assms(1,2)
    by (simp add: abs_path_def wf_fs_root wf_fs_Some_dir)
  moreover have "abs_path (cur @ [s]) = abs_path cur @ [Normal s]" by (simp add: abs_path_def)
  ultimately have "walk fs False max_links cur [Normal s] = Inl e"
    using assms(5) by (cases "walk fs False max_links cur [Normal s]")
      (simp_all only: canonicalize_def walk_append_lookup sum.case prod.case map_sum.simps, auto)
  moreover obtain k q where "walk fs False n cur [Normal s] = Inr (k, q)"
    using assms(4) walk_append_lookup [of fs n cur "[Normal s]" cs]
    by (cases "walk fs False n cur [Normal s]") auto
  then have "walk fs False (n + (max_links - n)) cur [Normal s] = Inr (k + (max_links - n), q)"
    by (rule walk_ok_more_links)
  ultimately show False using assms(3) by simp
qed

lemma walk_stable:
  assumes "walk fs False n cur cs = Inr r" and "wf_fs fs" and "n \<le> max_links" and "keeps_lookups p fs fs'"
  shows "walk fs' False n cur cs = Inr r"
  using assms
proof (induction fs "False" n cur cs rule: walk.induct)
  case (5 fs n cur s cs)
  note keep = keeps_lookupsD [OF "5.prems"(4)]
  have dir: "fs cur = Some Dir" using "5.prems"(1) by (simp split: if_splits)
  then have dir': "fs' cur = Some Dir" by (rule keep(1))
  show ?case
  proof (cases "fs (cur @ [s])")
    case None
    then show ?thesis using "5.prems"(1) dir by simp
  next
    case (Some x)
    show ?thesis
    proof (cases x)
      case (File b)
      then obtain b' where "fs' (cur @ [s]) = Some (File b')" using keep(2) Some by blast
      then show ?thesis using "5.hyps"(1) [OF dir Some] "5.prems" dir dir' Some File by simp
    next
      case Dir
      then show ?thesis using "5.hyps"(2) [OF dir Some] "5.prems" dir dir' Some keep(1) by simp
    next
      case (Link t)
      then obtain m where m: "n = Suc m" using "5.prems" dir Some by (cases n) simp_all
      have "fs' (cur @ [s]) = Some (Link t)"
        using keep(3) [of "cur @ [s]" t] Some Link dangling_not_passed [OF "5.prems"(2) dir "5.prems"(3,1)] by auto
      then show ?thesis using "5.hyps"(3) [OF dir Some Link m] "5.prems" dir dir' Some Link m by simp
    qed
  qed
qed (use keeps_lookupsD(1) in \<open>auto split: if_splits\<close>)

section \<open>The same request after the target has been written\<close>

text \<open>\<open>fs'\<close> is what a tool makes of \<open>fs\<close>: the target \<open>t\<close> is a file, directories above it are new.\<close>

definition target_written :: "fs \<Rightarrow> fpath \<Rightarrow> fs \<Rightarrow> bool" where
  "target_written fs t fs' \<longleftrightarrow> wf_fs fs' \<and> fs t \<noteq> Some Dir \<and> (\<exists>b. fs' t = Some (File b)) \<and>
     (\<forall>q. q \<noteq> t \<longrightarrow> fs' q = fs q \<or> fs q = None \<and> fs' q = Some Dir \<and> strict_prefix q t)"

lemma target_kept:
  assumes "workspace fs r" and "resolve_in_workspace fs (abs_path r) requested = Inr (abs_path t)"
    and "\<forall>k. canonicalize fs (take k (lexical_normalize (path_join (abs_path r) requested))) \<noteq> Inl ELOOP"
    and "target_written fs t fs'"
  shows "keeps_lookups t fs fs'"
proof -
  obtain a ns where R: "abs_path t = abs_path (a @ ns)" "settled fs a ns"
    by (rule resolve_settled [OF assms(1-3)])
  have t: "t = a @ ns" using R(1) by simp
  have link: "\<exists>e. canonicalize fs (abs_path t) = Inl e \<and> e \<noteq> ELOOP" if "fs t = Some (Link x)" for x
  proof -
    have "ns \<noteq> []" using that R(2) t by (auto simp: settled_def canonical_def)
    then obtain e where "canonicalize fs (abs_path (a @ [hd ns])) = Inl e" "e \<noteq> ELOOP"
      using R(2) by (auto simp: settled_def)
    then show ?thesis
      using canonicalize_below [of fs "a @ [hd ns]" e "tl ns"] R(2) t \<open>ns \<noteq> []\<close> by (simp add: settled_def)
  qed
  show ?thesis unfolding keeps_lookups_def
  proof (intro allI impI)
    fix q x
    assume "fs q = Some x"
    then show "case x of
        Dir \<Rightarrow> fs' q = Some Dir
      | File _ \<Rightarrow> \<exists>b. fs' q = Some (File b)
      | Link u \<Rightarrow> fs' q = Some (Link u) \<or> q = t \<and> (\<exists>e. canonicalize fs (abs_path t) = Inl e \<and> e \<noteq> ELOOP)"
      using assms(4) link unfolding target_written_def by (cases "q = t"; cases x) fastforce+
  qed
qed

lemma canonicalize_stable:
  assumes "canonicalize fs p = Inr q" and "wf_fs fs" and "keeps_lookups t fs fs'"
  shows "canonicalize fs' p = Inr q"
  using assms(1) walk_stable [OF _ assms(2) order.refl assms(3), of "[]" p]
  by (cases "walk fs False max_links [] p") (auto simp: canonicalize_def)

text \<open>All of the normalised request can now be looked up, and it leads to the target.\<close>

lemma request_leads_to_target:
  assumes "workspace fs r" and "resolve_in_workspace fs (abs_path r) requested = Inr (abs_path t)"
    and "\<forall>k. canonicalize fs (take k (lexical_normalize (path_join (abs_path r) requested))) \<noteq> Inl ELOOP"
    and "target_written fs t fs'"
  defines "p \<equiv> lexical_normalize (path_join (abs_path r) requested)"
  shows "canonicalize fs' p = Inr t" and "\<exists>q. canonicalize fs' (take k p) = Inr q"
proof -
  have wf: "wf_fs fs" "wf_fs fs'" using assms(1,4) by (simp_all add: workspace_def target_written_def)
  note keep = target_kept [OF assms(1-4)]
  obtain A ns a where R: "p = A @ map Normal ns" "canonicalize fs A = Inr a" "abs_path t = abs_path (a @ ns)"
    unfolding p_def by (rule resolve_in_workspace_Inr [OF assms(2)]) blast
  have t: "t = a @ ns" using R(3) by simp
  have A: "canonicalize fs' A = Inr a" using canonicalize_stable [OF R(2) wf(1) keep] .
  have "canonical fs' (a @ ns)" using wf(2) assms(4) t by (auto simp: canonical_wf target_written_def)
  then have w: "walk fs' False m a (map Normal ns) = Inr (m, a @ ns)" for m by (rule walk_canonical [OF wf(2)])
  show all: "canonicalize fs' p = Inr t"
    by (rule canonicalize_split [OF A]) (simp add: R(1) w t)
  obtain m where "walk fs' False max_links [] p = Inr (m, t)"
    using all by (cases "walk fs' False max_links [] p") (auto simp: canonicalize_def)
  then have "walk fs' False max_links [] (take k p @ drop k p) = Inr (m, t)" by simp
  then show "\<exists>q. canonicalize fs' (take k p) = Inr q"
    unfolding walk_append_lookup canonicalize_def by (auto split: sum.splits)
qed

text \<open>So the same request has the same meaning in the new file system, for every tool.\<close>

lemma setting_after_write:
  assumes "write_setting fs r requested d n rnd" and "target_written fs (d @ [n]) fs'"
    and "\<forall>c \<in> set rnd'. is_hexdigit c" and "fs' (d @ [temp_name n rnd']) = None"
  shows "write_setting fs' r requested d n rnd'"
proof -
  let ?p = "lexical_normalize (path_join (abs_path r) requested)"
  have S: "workspace fs r" "resolve_in_workspace fs (abs_path r) requested = Inr (abs_path (d @ [n]))"
    "\<forall>k. canonicalize fs (take k ?p) \<noteq> Inl ELOOP"
    using assms(1) by (simp_all add: write_setting_def)
  note L = request_leads_to_target [OF S assms(2)]
  have "r \<noteq> d @ [n]" using S(1) assms(2) by (auto simp: workspace_def target_written_def)
  then have ws: "workspace fs' r"
    using S(1) assms(2) unfolding workspace_def target_written_def by metis
  have pre: "prefix (abs_path r) ?p" "prefix (abs_path r) (abs_path (d @ [n]))"
    by (rule resolve_in_workspace_Inr [OF S(2)], assumption)+
  have "resolve_loop fs' ?p [] = Some (d @ [n], [])" by (simp add: resolve_loop.simps L(1))
  then have "resolve_in_workspace fs' (abs_path r) requested = Inr (abs_path (d @ [n]))"
    using pre by (simp add: resolve_in_workspace_def path_starts_with_prefix)
  moreover have "canonicalize fs' (take k ?p) \<noteq> Inl ELOOP" for k using L(2) [of k] by auto
  ultimately show ?thesis using ws assms(3,4) by (simp add: write_setting_def)
qed

end
