(* ===== verification/File_Session.thy ===== *)
theory File_Session
  imports Server Lookup_After_Write
begin

text \<open>
  What an agent sees when it works on a file: the handlers of \<^theory_text>\<open>server.rs\<close> for write, edit and read,
  called one after the other on one path, implement a variable that holds a text or nothing.
\<close>

section \<open>The abstract file\<close>

datatype file_call =
    WriteCall rstr
  | EditCall "edit_entry list"
  | ReadCall "u32 option" "u32 option"

datatype outcome = Refused | Changed | Replied "mcp_error + call_result"

text \<open>An edit of a text, with its byte-order mark set aside.\<close>

definition edit_text :: "(rchar \<Rightarrow> rstr) \<Rightarrow> edit_entry list \<Rightarrow> rstr \<Rightarrow> rstr option" where
  "edit_text nfkc edits t =
     (if edits = [] \<or> list_ex (\<lambda>e. old_text e = []) edits \<or> 0 \<in> set (take BINARY_SNIFF_LEN (utf8_encode t))
      then None
      else (case edit_content nfkc (snd (strip_bom t)) edits of
              Inl _ \<Rightarrow> None
            | Inr final \<Rightarrow> Some ((if fst (strip_bom t) then bom else []) @ final)))"

text \<open>What reading gives for a text: a refusal, an image if the bytes look like one, or a window.\<close>

definition read_text ::
  "'img image_lib \<Rightarrow> rstr \<Rightarrow> u32 option \<Rightarrow> u32 option \<Rightarrow> rstr option \<Rightarrow> mcp_error + call_result" where
  "read_text il path offset limit content =
     (if offset = Some 0 then Inr (tool_error (lit ''Invalid offset: must be at least 1 (lines are 1-based)''))
      else if limit = Some 0 then Inr (tool_error (lit ''Invalid limit: must be at least 1''))
      else case content of
          None \<Rightarrow> Inr (tool_error (lit ''File not found: '' @ path))
        | Some t \<Rightarrow>
       if str_len t > MAX_READ_BYTES then
         Inr (tool_error (path @ lit '' is '' @ dec (str_len t) @ lit '' bytes, above the ''
           @ dec MAX_READ_BYTES @ lit '' byte read limit; use bash to read it in chunks''))
       else case detect_image_mime il (utf8_encode t) of
          Some mime \<Rightarrow>
            (let announced = \<lparr>ro_path = path, ro_content = lit ''Read image file ['' @ mime @ lit '']'',
                   ro_start_line = None, ro_end_line = None, ro_total_lines = None,
                   ro_image_mime_type = Some mime\<rparr>
             in case encode_image_for_content il path (utf8_encode t) of
                  Inl e \<Rightarrow> Inl (InternalError e)
                | Inr (encoded, out_mime) \<Rightarrow>
                    Inr \<lparr>cr_is_error = False, cr_content = [TextBlock (ro_content announced), ImageBlock encoded out_mime],
                         cr_structured = Some (ReadStructured announced)\<rparr>)
        | None \<Rightarrow>
       if 0 \<in> set (take SNIFF_LEN (utf8_encode t)) then
         Inr (tool_error (path @ lit '' appears to be a binary file; use bash to inspect it''))
       else case read_window path t (case offset of Some x \<Rightarrow> x | None \<Rightarrow> 1) limit of
          Inl message \<Rightarrow> Inr (tool_error message)
        | Inr out \<Rightarrow> Inr \<lparr>cr_is_error = False, cr_content = [TextBlock (ro_content out)],
                           cr_structured = Some (ReadStructured out)\<rparr>)"

fun spec_call ::
  "(rchar \<Rightarrow> rstr) \<Rightarrow> 'img image_lib \<Rightarrow> rstr \<Rightarrow> file_call \<Rightarrow> rstr option \<Rightarrow> outcome \<times> rstr option" where
  "spec_call nfkc il path (WriteCall t) st = (Changed, Some t)"
| "spec_call nfkc il path (EditCall edits) st =
     (case Option.bind st (edit_text nfkc edits) of None \<Rightarrow> (Refused, st) | Some t \<Rightarrow> (Changed, Some t))"
| "spec_call nfkc il path (ReadCall offset limit) st = (Replied (read_text il path offset limit st), st)"

fun spec_session ::
  "(rchar \<Rightarrow> rstr) \<Rightarrow> 'img image_lib \<Rightarrow> rstr \<Rightarrow> file_call list \<Rightarrow> rstr option \<Rightarrow> outcome list \<times> rstr option" where
  "spec_session nfkc il path [] st = ([], st)"
| "spec_session nfkc il path (call # calls) st =
     (let (out, st1) = spec_call nfkc il path call st;
          (outs, st2) = spec_session nfkc il path calls st1
      in (out # outs, st2))"

section \<open>The same calls on the file system\<close>

text \<open>\<open>rnd\<close> is the random string of a call; \<^theory_text>\<open>None\<close> is a panic.\<close>

fun tool_call ::
  "(rchar \<Rightarrow> rstr) \<Rightarrow> differ \<Rightarrow> 'img image_lib \<Rightarrow> config \<Rightarrow> rstr \<Rightarrow> file_call \<Rightarrow> rstr \<Rightarrow> fs
     \<Rightarrow> (mcp_error + call_result) option \<times> fs" where
  "tool_call nfkc df il config path (WriteCall t) rnd fs =
     (let (r, hist) = server_write config fs fs \<lparr>wp_path = path, wp_content = t\<rparr> rnd None no_faults
      in (Some r, last (fs # hist)))"
| "tool_call nfkc df il config path (EditCall edits) rnd fs =
     (let (r, hist) = server_edit nfkc df config fs fs \<lparr>ep_path = path, ep_edits = edits\<rparr> rnd no_faults
      in (r, last (fs # hist)))"
| "tool_call nfkc df il config path (ReadCall offset limit) rnd fs =
     (Some (server_read il config fs fs \<lparr>rp_path = path, rp_offset = offset, rp_limit = limit\<rparr>), fs)"

text \<open>What the agent learns from a reply; \<^theory_text>\<open>None\<close> for a panic or a protocol error of a mutation.\<close>

fun outcome_of :: "file_call \<Rightarrow> (mcp_error + call_result) option \<Rightarrow> outcome option" where
  "outcome_of call None = None"
| "outcome_of (ReadCall offset limit) (Some r) = Some (Replied r)"
| "outcome_of call (Some (Inl e)) = None"
| "outcome_of call (Some (Inr result)) = Some (if cr_is_error result then Refused else Changed)"

fun tool_session ::
  "(rchar \<Rightarrow> rstr) \<Rightarrow> differ \<Rightarrow> 'img image_lib \<Rightarrow> config \<Rightarrow> rstr \<Rightarrow> (file_call \<times> rstr) list \<Rightarrow> fs
     \<Rightarrow> outcome option list \<times> fs" where
  "tool_session nfkc df il config path [] fs = ([], fs)"
| "tool_session nfkc df il config path ((call, rnd) # calls) fs =
     (let (r, fs1) = tool_call nfkc df il config path call rnd fs;
          (outs, fs2) = tool_session nfkc df il config path calls fs1
      in (outcome_of call r # outs, fs2))"

section \<open>Valid text stays valid\<close>

lemma str_replace_valid: "valid_str s \<Longrightarrow> valid_str t \<Longrightarrow> valid_str (str_replace pat t s)"
proof (induction pat t s rule: str_replace.induct)
  case (2 pat t c s)
  have "valid_str (drop (length pat) (c # s))" using "2.prems"(1) by (rule valid_str_drop)
  then show ?case using 2 by simp
qed simp

lemma adopt_line_endings_valid: "valid_str t \<Longrightarrow> valid_str (adopt_line_endings t crlf)"
  by (simp add: adopt_line_endings_def str_replace_valid scalar_def nl_def cr_def Let_def)

lemma concat_valid: "(\<forall>s \<in> set ss. valid_str s) \<Longrightarrow> valid_str (concat ss)"
  by (induction ss) auto

lemma edit_content_valid:
  assumes "edit_content nfkc content edits = Inr final" and "valid_str content"
    and "\<forall>e \<in> set edits. old_text e \<noteq> [] \<and> valid_str (new_text e)"
  shows "valid_str final"
proof -
  obtain ms where ms: "match_edits nfkc content (is_crlf content) (length edits) 0 edits = Inr ms"
    "find_overlap ms = None" "apply_all (by_start_desc ms) content = Some final"
    by (rule edit_content_Inr [OF assms(1)])
  have ob: "on_boundaries content ms" using match_edits_on_boundaries [OF ms(1)] assms(3) by blast
  obtain ps tail where ps: "map fst ps = sort_key start_of ms" "content = before_pieces ps @ tail"
      "apply_all (by_start_desc ms) content = Some (after_pieces ps @ tail)"
    by (rule apply_sorted [OF ms(2) ob])
  have vb: "valid_str (before_pieces ps)" "valid_str tail" using assms(2) ps(2) by simp_all
  have "valid_str (gap @ snd (snd m))" if q: "(m, gap, mid) \<in> set ps" for m gap mid
  proof -
    have "m \<in> set ms" using piece_match [OF ms(1) ps(1) q] .
    then obtain i where i: "i < length ms" "m = ms ! i" by (auto simp: in_set_conv_nth)
    have la: "list_all2 (\<lambda>e m. find_unique_range nfkc content (old_text e) = Some (Inr (fst (snd m)))
       \<and> snd (snd m) = adopt_line_endings (new_text e) (is_crlf content)) edits ms"
      using match_edits_Inr [OF ms(1)] by blast
    then have "snd (snd m) = adopt_line_endings (new_text (edits ! i)) (is_crlf content)" "i < length edits"
      using i by (auto simp: list_all2_conv_all_nth)
    then have "valid_str (snd (snd m))" using assms(3) by (simp add: adopt_line_endings_valid)
    moreover have "valid_str (gap @ mid)"
    proof -
      obtain xs ys where "ps = xs @ (m, gap, mid) # ys" using split_list [OF q] by blast
      then show ?thesis using vb(1) by simp
    qed
    ultimately show ?thesis by simp
  qed
  then have "valid_str (after_pieces ps)" by (intro concat_valid) auto
  moreover have "final = after_pieces ps @ tail" using ms(3) ps(3) by simp
  ultimately show ?thesis using vb(2) by simp
qed

lemma edit_text_valid:
  assumes "edit_text nfkc edits t = Some t'" and "valid_str t" and "\<forall>e \<in> set edits. valid_str (new_text e)"
  shows "valid_str t'"
  using assms edit_content_valid [OF _ strip_bom_valid [OF assms(2)], of nfkc edits] bom_valid
  by (auto simp: edit_text_def list_ex_iff split: if_splits sum.splits)

section \<open>The relation between the two\<close>

text \<open>
  The path leads to \<open>d/n\<close> in the file system, for every random string that will be used; what lies
  on the way is a directory; and the target is as the abstract file says.
\<close>

definition holds_text :: "fpath \<Rightarrow> rstr \<Rightarrow> fpath \<Rightarrow> rstr \<Rightarrow> rstr set \<Rightarrow> rstr option \<Rightarrow> fs \<Rightarrow> bool" where
  "holds_text r path d n rnds st fs \<longleftrightarrow>
     (\<forall>rnd \<in> rnds. write_setting fs r path d n rnd) \<and>
     (\<forall>p x. prefix p d \<and> fs p = Some x \<longrightarrow> x = Dir) \<and>
     (case st of
        None \<Rightarrow> fs (d @ [n]) = None
      | Some t \<Rightarrow> valid_str t \<and> fs (d @ [n]) = Some (File (utf8_encode t)))"

text \<open>Nothing but the target has changed, except for new directories above it.\<close>

definition others_kept :: "fs \<Rightarrow> fpath \<Rightarrow> rstr \<Rightarrow> fs \<Rightarrow> bool" where
  "others_kept fs d n fs' \<longleftrightarrow>
     (\<forall>q. q \<noteq> d @ [n] \<longrightarrow> fs' q = fs q \<or> fs q = None \<and> fs' q = Some Dir \<and> prefix q d)"

lemma others_kept_refl: "others_kept fs d n fs"
  by (simp add: others_kept_def)

lemma others_kept_trans: "others_kept fs d n fs1 \<Longrightarrow> others_kept fs1 d n fs2 \<Longrightarrow> others_kept fs d n fs2"
  unfolding others_kept_def by metis

lemma holds_after_write:
  assumes "holds_text r path d n rnds st fs" and "rnds \<noteq> {}" and "others_kept fs d n fs'" and "wf_fs fs'"
    and "fs' (d @ [n]) = Some (File (utf8_encode t))" and "valid_str t"
  shows "holds_text r path d n rnds (Some t) fs'"
proof -
  have S: "write_setting fs r path d n rnd" if "rnd \<in> rnds" for rnd
    using assms(1) that by (simp add: holds_text_def)
  have pre: "prefix q d \<Longrightarrow> strict_prefix q (d @ [n])" for q by (auto simp: strict_prefix_def dest: prefix_length_le)
  have "fs (d @ [n]) \<noteq> Some Dir" using assms(1) by (auto simp: holds_text_def split: option.splits)
  then have tw: "target_written fs (d @ [n]) fs'"
    using assms(3-5) pre unfolding target_written_def others_kept_def by blast
  have "write_setting fs' r path d n rnd" if "rnd \<in> rnds" for rnd
  proof (rule setting_after_write [OF S [OF that] tw])
    show "\<forall>c \<in> set rnd. is_hexdigit c" using S [OF that] by (simp add: write_setting_def)
    have "fs (d @ [temp_name n rnd]) = None" using S [OF that] by (simp add: write_setting_def)
    moreover have "d @ [temp_name n rnd] \<noteq> d @ [n]" "\<not> prefix (d @ [temp_name n rnd]) d"
      using temp_name_neq by (auto dest: prefix_length_le)
    ultimately show "fs' (d @ [temp_name n rnd]) = None" using assms(3) unfolding others_kept_def by metis
  qed
  moreover have "x = Dir" if "prefix p d" "fs' p = Some x" for p x
  proof -
    have "p \<noteq> d @ [n]" using that(1) by (auto dest: prefix_length_le)
    then show ?thesis using assms(1,3) that unfolding holds_text_def others_kept_def by (metis option.inject)
  qed
  ultimately show ?thesis using assms(5,6) by (auto simp: holds_text_def)
qed

section \<open>One call\<close>

lemma write_call_refines:
  assumes "holds_text r path d n rnds st fs" and "rnd \<in> rnds" and "cf_workspace config = r" and "valid_str t"
  obtains result fs' where "tool_call nfkc df il config path (WriteCall t) rnd fs = (Some (Inr result), fs')"
    "\<not> cr_is_error result" "holds_text r path d n rnds (Some t) fs'" "others_kept fs d n fs'"
proof -
  let ?params = "\<lparr>wp_path = path, wp_content = t\<rparr>"
  have S: "write_setting fs r (wp_path ?params) d n rnd" using assms(1,2) by (simp add: holds_text_def)
  have nd: "fs (d @ [n]) \<noteq> Some Dir" using assms(1) by (auto simp: holds_text_def split: option.splits)
  have clear: "prefix p d \<and> fs p = Some x \<Longrightarrow> x = Dir" for p x using assms(1) by (simp add: holds_text_def)
  obtain w hist where w: "write_run (abs_path r) fs fs ?params rnd None no_faults = (w, hist)" by force
  from S w show thesis
  proof (cases rule: write_run_cases)
    case (no_parent fs1)
    then show thesis using clear by blast
  next
    case (failed fs1 h)
    then show thesis using nd by simp
  next
    case (written fs1 h)
    let ?fs' = "fs1(d @ [n] \<mapsto> File (utf8_encode t))"
    have last: "last (fs # hist) = ?fs'" using written(2) by simp
    have wf: "wf_fs ?fs'" using wf_fs_set writableD [OF written(4)] written(7) by metis
    have ok: "others_kept fs d n ?fs'" using written(3) by (auto simp: others_kept_def dirs_on_the_way_def)
    have "holds_text r path d n rnds (Some t) ?fs'"
      by (rule holds_after_write [OF assms(1) _ ok wf]) (use assms(2,4) in auto)
    then show thesis
      using ok w written(1) last assms(3)
      by (intro that [of "(text_result (lit ''Successfully wrote '' @ dec (str_len t) @ lit '' bytes to '' @ path))
          \<lparr>cr_structured := Some (WriteStructured \<lparr>wo_success = True, wo_path = path, wo_bytes = str_len t\<rparr>)\<rparr>" ?fs'])
        (simp_all add: server_write_def run_tool_def text_result_def)
  qed
qed

lemma edit_run_on_text:
  assumes "write_setting fs r path d n rnd" and "fs (d @ [n]) = Some (File (utf8_encode t))" and "valid_str t"
  shows "case edit_text nfkc edits t of
      None \<Rightarrow> \<exists>e. edit_run nfkc df (abs_path r) fs fs \<lparr>ep_path = path, ep_edits = edits\<rparr> rnd no_faults = (Some (Inl e), [])
    | Some t' \<Rightarrow> \<exists>out hist. edit_run nfkc df (abs_path r) fs fs \<lparr>ep_path = path, ep_edits = edits\<rparr> rnd no_faults
        = (Some (Inr out), hist) \<and> last (fs # hist) = fs(d @ [n] \<mapsto> File (utf8_encode t'))"
proof -
  let ?params = "\<lparr>ep_path = path, ep_edits = edits\<rparr>"
  have wf: "wf_fs fs" and res: "resolve_in_workspace fs (abs_path r) path = Inr (abs_path (d @ [n]))"
    using assms(1) by (simp_all add: write_setting_def workspace_def)
  have rd: "fs_read fs (abs_path (d @ [n])) = Inr (utf8_encode t)"
    by (rule fs_read_canonical [OF wf assms(2)])
  have wr: "writable fs d n rnd" using read_setting [OF assms(1) rd] by blast
  have dec: "utf8_decode (utf8_encode t) = Some t" by (rule utf8_decode_encode [OF assms(3)])
  have sniff: "take (min (length (utf8_encode t)) BINARY_SNIFF_LEN) (utf8_encode t)
      = take BINARY_SNIFF_LEN (utf8_encode t)"
    by (cases "length (utf8_encode t) \<le> BINARY_SNIFF_LEN") (simp_all add: min_def)
  obtain had content where sb: "strip_bom t = (had, content)" by force
  show ?thesis
  proof (cases "edits = [] \<or> list_ex (\<lambda>e. old_text e = []) edits \<or> 0 \<in> set (take BINARY_SNIFF_LEN (utf8_encode t))")
    case True
    then show ?thesis using res rd sniff by (auto simp: edit_text_def edit_run_def Let_def)
  next
    case False
    show ?thesis
    proof (cases "edit_content nfkc content edits")
      case (Inl e)
      have "e \<noteq> EditPanic" using edit_content_not_panic [of edits nfkc content] Inl False
        by (auto simp: list_ex_iff)
      then show ?thesis using False Inl res rd sniff dec sb
        by (cases e) (simp_all add: edit_text_def edit_run_def Let_def)
    next
      case (Inr final)
      obtain w h where at: "write_atomic fs (abs_path (d @ [n])) (restore_bom had final) rnd no_faults = (w, h)"
        by force
      from wr at have "w = Inr () \<and> last (fs # h) = fs(d @ [n] \<mapsto> File (restore_bom had final))"
        by (cases rule: write_atomic_cases) (use assms(2) in auto)
      then show ?thesis using False Inr res rd sniff dec sb at
        by (simp add: edit_text_def edit_run_def Let_def restore_bom_eq)
    qed
  qed
qed

lemma target_absent:
  assumes "write_setting fs r path d n rnd" and "fs (d @ [n]) = None"
  obtains e where "canonicalize fs (abs_path (d @ [n])) = Inl e"
proof (cases "canonicalize fs (abs_path (d @ [n]))")
  case (Inr q)
  obtain a ns where R: "abs_path (d @ [n]) = abs_path (a @ ns)" "settled fs a ns"
    using assms(1) unfolding write_setting_def by (elim conjE) (rule resolve_settled)
  then have "ns = []" using settled_lookup [OF R(2)] Inr by simp
  then show thesis using R assms(2) by (auto simp: settled_def canonical_def)
qed (rule that)

lemma edit_call_refines:
  assumes "holds_text r path d n rnds st fs" and "rnd \<in> rnds" and "cf_workspace config = r"
    and "\<forall>e \<in> set edits. valid_str (new_text e)"
  obtains result fs' where "tool_call nfkc df il config path (EditCall edits) rnd fs = (Some (Inr result), fs')"
    "cr_is_error result \<longleftrightarrow> Option.bind st (edit_text nfkc edits) = None"
    "holds_text r path d n rnds (snd (spec_call nfkc il path (EditCall edits) st)) fs'" "others_kept fs d n fs'"
proof -
  let ?params = "\<lparr>ep_path = path, ep_edits = edits\<rparr>"
  note goal = that
  have S: "write_setting fs r path d n rnd" using assms(1,2) by (simp add: holds_text_def)
  have refused: thesis
    if run: "edit_run nfkc df (abs_path r) fs fs ?params rnd no_faults = (Some (Inl e), [])"
      and none: "Option.bind st (edit_text nfkc edits) = None" for e
    using run none assms(1,3) others_kept_refl
    by (intro goal [of "tool_error e" fs]) (simp_all add: server_edit_def run_tool_def tool_error_def)
  show thesis
  proof (cases st)
    case None
    obtain e where "canonicalize fs (abs_path (d @ [n])) = Inl e"
      using target_absent [OF S] assms(1) None by (auto simp: holds_text_def)
    then have "\<exists>e. edit_run nfkc df (abs_path r) fs fs ?params rnd no_faults = (Some (Inl e), [])"
      using S by (auto simp: edit_run_def Let_def write_setting_def fs_read_def)
    then show thesis using refused None by auto
  next
    case (Some t)
    have t: "valid_str t" "fs (d @ [n]) = Some (File (utf8_encode t))"
      using assms(1) Some by (simp_all add: holds_text_def)
    note run = edit_run_on_text [OF S t(2,1), where nfkc = nfkc and edits = edits and df = df]
    show thesis
    proof (cases "edit_text nfkc edits t")
      case None
      then show thesis using run refused Some by auto
    next
      case (Some t')
      obtain out hist where out: "edit_run nfkc df (abs_path r) fs fs ?params rnd no_faults = (Some (Inr out), hist)"
          "last (fs # hist) = fs(d @ [n] \<mapsto> File (utf8_encode t'))"
        using run Some by auto
      let ?fs' = "fs(d @ [n] \<mapsto> File (utf8_encode t'))"
      have wf: "wf_fs fs" using S by (simp add: write_setting_def workspace_def)
      have "wf_fs ?fs'"
        by (rule wf_fs_set [OF wf]) (use wf_fsD [OF wf t(2) refl] t(2) in simp_all)
      moreover have ok: "others_kept fs d n ?fs'" by (simp add: others_kept_def)
      moreover have "valid_str t'" using edit_text_valid [OF Some t(1) assms(4)] .
      ultimately have "holds_text r path d n rnds (Some t') ?fs'"
        by (intro holds_after_write [OF assms(1)]) (use assms(2) in auto)
      then show thesis
        using out ok Some \<open>st = Some t\<close> assms(3)
        by (intro that [of "(text_result (lit ''Successfully replaced '' @ dec (eo_replacements out)
              @ lit '' block(s) in '' @ eo_path out @ lit ''.''))\<lparr>cr_structured := Some (EditStructured out)\<rparr>" ?fs'])
          (simp_all add: server_edit_def run_tool_def text_result_def)
    qed
  qed
qed

lemma offset_zero: "(case offset of None \<Rightarrow> 1 | Some x \<Rightarrow> x) = (0 :: u32) \<longleftrightarrow> offset = Some 0"
  by (cases offset) simp_all

lemma read_call_refines:
  assumes "write_setting fs r path d n rnd" and "cf_workspace config = r"
    and "case st of None \<Rightarrow> fs (d @ [n]) = None
      | Some t \<Rightarrow> valid_str t \<and> fs (d @ [n]) = Some (File (utf8_encode t))"
  shows "server_read il config fs fs \<lparr>rp_path = path, rp_offset = offset, rp_limit = limit\<rparr> =
    read_text il path offset limit st"
proof (cases st)
  case None
  obtain e where "canonicalize fs (abs_path (d @ [n])) = Inl e"
    using target_absent [OF assms(1)] assms(3) None by auto
  then show ?thesis using assms(1,2) None
    by (auto simp: server_read_def read_text_def read_run_def run_tool_def Let_def write_setting_def
        offset_zero)
next
  case (Some t)
  have t: "valid_str t" "fs (d @ [n]) = Some (File (utf8_encode t))" using assms(3) Some by simp_all
  have wf: "wf_fs fs" and res: "resolve_in_workspace fs (abs_path r) path = Inr (abs_path (d @ [n]))"
    using assms(1) by (simp_all add: write_setting_def workspace_def)
  have rd: "fs_read fs (abs_path (d @ [n])) = Inr (utf8_encode t)" by (rule fs_read_canonical [OF wf t(2)])
  have can: "canonicalize fs (abs_path (d @ [n])) = Inr (d @ [n])"
    using wf t(2) by (simp add: canonicalize_canonical canonical_wf)
  have dec: "utf8_decode (utf8_encode t) = Some t" by (rule utf8_decode_encode [OF t(1)])
  have sniff: "take (min (str_len t) SNIFF_LEN) (utf8_encode t) = take SNIFF_LEN (utf8_encode t)"
    by (cases "str_len t \<le> SNIFF_LEN") (simp_all add: min_def)
  note facts = res rd can dec t(2) assms(2) offset_zero [of offset]
  show ?thesis
  proof (cases "offset = Some 0 \<or> limit = Some 0 \<or> str_len t > MAX_READ_BYTES")
    case True
    then show ?thesis using facts Some
      by (elim disjE) (simp_all add: server_read_def read_text_def read_run_def run_tool_def Let_def)
  next
    case False
    show ?thesis
    proof (cases "detect_image_mime il (utf8_encode t)")
      case None
      have "ro_image_mime_type out = None" if "read_window path t x limit = Inr out" for x out
        using that by (auto simp: read_window_def Let_def split: if_splits prod.splits)
      then show ?thesis using False facts None Some sniff
        by (simp add: server_read_def read_text_def read_run_def run_tool_def text_result_def Let_def
            split: sum.split)
    next
      case (Some mime)
      then show ?thesis using False facts \<open>st = Some t\<close>
        by (simp add: server_read_def read_text_def read_run_def run_tool_def Let_def
            split: sum.split)
    qed
  qed
qed

text \<open>Strings of a call are Rust strings.\<close>

fun valid_call :: "file_call \<Rightarrow> bool" where
  "valid_call (WriteCall t) = valid_str t"
| "valid_call (EditCall edits) = (\<forall>e \<in> set edits. valid_str (new_text e))"
| "valid_call (ReadCall offset limit) = True"

lemma call_refines:
  assumes "holds_text r path d n rnds st fs" and "rnd \<in> rnds" and "cf_workspace config = r" and "valid_call call"
    and "tool_call nfkc df il config path call rnd fs = (result, fs')"
  shows "outcome_of call result = Some (fst (spec_call nfkc il path call st)) \<and>
    holds_text r path d n rnds (snd (spec_call nfkc il path call st)) fs' \<and> others_kept fs d n fs'"
proof (cases call)
  case (WriteCall t)
  then have "valid_str t" using assms(4) by simp
  obtain res f where f: "tool_call nfkc df il config path (WriteCall t) rnd fs = (Some (Inr res), f)"
    "\<not> cr_is_error res" "holds_text r path d n rnds (Some t) f" "others_kept fs d n f"
    by (rule write_call_refines [OF assms(1-3) \<open>valid_str t\<close>])
  then have "result = Some (Inr res)" "fs' = f" using assms(5) WriteCall by simp_all
  then show ?thesis using f(2-4) WriteCall by simp
next
  case (EditCall edits)
  then have v: "\<forall>e \<in> set edits. valid_str (new_text e)" using assms(4) by simp
  obtain res f where f: "tool_call nfkc df il config path (EditCall edits) rnd fs = (Some (Inr res), f)"
    "cr_is_error res \<longleftrightarrow> Option.bind st (edit_text nfkc edits) = None"
    "holds_text r path d n rnds (snd (spec_call nfkc il path (EditCall edits) st)) f" "others_kept fs d n f"
    by (rule edit_call_refines [OF assms(1-3) v])
  then have "result = Some (Inr res)" "fs' = f" using assms(5) EditCall by simp_all
  then show ?thesis using f(2-4) EditCall by (cases "Option.bind st (edit_text nfkc edits)") simp_all
next
  case (ReadCall offset limit)
  have S: "write_setting fs r path d n rnd" using assms(1,2) by (simp add: holds_text_def)
  have "case st of None \<Rightarrow> fs (d @ [n]) = None
      | Some t \<Rightarrow> valid_str t \<and> fs (d @ [n]) = Some (File (utf8_encode t))"
    using assms(1) by (simp add: holds_text_def)
  from read_call_refines [OF S assms(3) this, of il offset limit] show ?thesis
    using assms(1,5) ReadCall others_kept_refl by auto
qed

section \<open>Sessions\<close>

lemma session_refines_spec:
  assumes "holds_text r path d n rnds st fs" and "set (map snd calls) \<subseteq> rnds" and "cf_workspace config = r"
    and "\<forall>c \<in> set (map fst calls). valid_call c"
  shows "\<exists>fs'. tool_session nfkc df il config path calls fs =
      (map Some (fst (spec_session nfkc il path (map fst calls) st)), fs') \<and>
    holds_text r path d n rnds (snd (spec_session nfkc il path (map fst calls) st)) fs' \<and> others_kept fs d n fs'"
  using assms
proof (induction calls arbitrary: st fs)
  case Nil
  then show ?case by (simp add: others_kept_refl)
next
  case (Cons c calls)
  obtain call rnd where c: "c = (call, rnd)" by force
  obtain result fs1 where one: "tool_call nfkc df il config path call rnd fs = (result, fs1)" by force
  have "rnd \<in> rnds" "valid_call call" using Cons.prems(2,4) c by simp_all
  note C = call_refines [OF Cons.prems(1) this(1) Cons.prems(3) this(2) one]
  obtain fs2 where rest: "tool_session nfkc df il config path calls fs1 =
      (map Some (fst (spec_session nfkc il path (map fst calls) (snd (spec_call nfkc il path call st)))), fs2)"
    "holds_text r path d n rnds (snd (spec_session nfkc il path (map fst calls) (snd (spec_call nfkc il path call st)))) fs2"
    "others_kept fs1 d n fs2"
    using Cons.IH [of "snd (spec_call nfkc il path call st)" fs1] C Cons.prems(2-4) by auto
  have "others_kept fs d n fs2" using C rest(3) others_kept_trans by blast
  then show ?case using C c one rest(1,2) by (simp add: Let_def case_prod_unfold)
qed

text \<open>
  C2: The file tools implement a text variable. Take a path that leads to a file or to nothing yet,
  and any sequence of write, edit and read calls on it, with no input or output errors. Every reply
  is the one the abstract file gives: a write succeeds, also when it has to create the directories;
  an edit succeeds exactly if it applies to the text that is there, and changes nothing otherwise; a
  read replies with the window of the current text. At the end the file holds the text of the
  abstract file, no temporary file is left and nothing else has changed but new directories on the way.
  No call panics, and none but a read ends in a protocol error.
\<close>

theorem session_refines:
  assumes "holds_text (cf_workspace config) path d n (set (map snd calls)) st fs"
    and "\<forall>c \<in> set (map fst calls). valid_call c"
  shows "\<exists>fs'. tool_session nfkc df il config path calls fs =
      (map Some (fst (spec_session nfkc il path (map fst calls) st)), fs') \<and>
    (case snd (spec_session nfkc il path (map fst calls) st) of
       None \<Rightarrow> fs' (d @ [n]) = None
     | Some t \<Rightarrow> fs' (d @ [n]) = Some (File (utf8_encode t))) \<and>
    (\<forall>q. q \<noteq> d @ [n] \<longrightarrow> fs' q = fs q \<or> fs q = None \<and> fs' q = Some Dir \<and> prefix q d)"
proof -
  obtain fs' where f: "tool_session nfkc df il config path calls fs =
      (map Some (fst (spec_session nfkc il path (map fst calls) st)), fs')"
    "holds_text (cf_workspace config) path d n (set (map snd calls))
       (snd (spec_session nfkc il path (map fst calls) st)) fs'" "others_kept fs d n fs'"
    using session_refines_spec [OF assms(1) order.refl refl assms(2), of nfkc df il] by blast
  have "case snd (spec_session nfkc il path (map fst calls) st) of
       None \<Rightarrow> fs' (d @ [n]) = None
     | Some t \<Rightarrow> fs' (d @ [n]) = Some (File (utf8_encode t))"
    using f(2) by (auto simp: holds_text_def split: option.splits)
  then show ?thesis using f(1,3) unfolding others_kept_def by blast
qed

definition session_config :: config where
  "session_config = open_config\<lparr>cf_workspace := [lit ''ws'']\<rparr>"

definition session_sample :: "(file_call \<times> rstr) list" where
  "session_sample =
    [(ReadCall None None, lit ''0a''), (WriteCall (lit ''X1 X2''), lit ''0a''),
     (EditCall [\<lparr>old_text = lit ''X1'', new_text = lit ''Q''\<rparr>], lit ''0b''),
     (EditCall [\<lparr>old_text = lit ''X1'', new_text = lit ''Q''\<rparr>], lit ''0c''), (ReadCall None None, lit ''0d'')]"

lemma session_sample_holds:
  "holds_text [lit ''ws''] (lit ''d/new/y'') [lit ''ws'', lit ''d'', lit ''new''] (lit ''y'')
     (set (map snd session_sample)) None (map_of sample_tree)"
proof -
  let ?d = "[lit ''ws'', lit ''d'', lit ''new'']"
  have chk: "list_all (\<lambda>p. case map_of sample_tree p of Some x \<Rightarrow> x = Dir | None \<Rightarrow> True) (prefixes ?d)"
    "list_all (\<lambda>rnd. list_all is_hexdigit rnd \<and> map_of sample_tree (?d @ [temp_name (lit ''y'') rnd]) = None)
       (map snd session_sample)"
    "map_of sample_tree (?d @ [lit ''y'']) = None"
    by code_simp+
  have "write_setting (map_of sample_tree) [lit ''ws''] (lit ''d/new/y'') ?d (lit ''y'') rnd"
    if "rnd \<in> set (map snd session_sample)" for rnd
    using bspec [OF chk(2) [unfolded list_all_iff [of _ "map snd session_sample"]] that] sample_write_setting
    unfolding write_setting_def by (simp add: sample_write_def list_all_iff)
  moreover have "x = Dir" if "prefix p ?d" "map_of sample_tree p = Some x" for p x
  proof -
    have "p \<in> set (prefixes ?d)" using that(1) by (simp only: in_set_prefixes)
    then have "case map_of sample_tree p of Some x \<Rightarrow> x = Dir | None \<Rightarrow> True"
      using chk(1) unfolding list_all_iff by blast
    then show ?thesis using that(2) by simp
  qed
  ultimately show ?thesis using chk(3) unfolding holds_text_def option.case by blast
qed

theorem session_refines_witness:
  "\<exists>fs' window. tool_session (\<lambda>c. [c]) no_differ no_images session_config (lit ''d/new/y'') session_sample
      (map_of sample_tree) =
     ([Some (Replied (Inr (tool_error (lit ''File not found: d/new/y'')))), Some Changed, Some Changed,
       Some Refused, Some (Replied (Inr window))], fs') \<and>
    cr_content window = [TextBlock (lit ''Q X2'')] \<and>
    fs' ([lit ''ws'', lit ''d'', lit ''new''] @ [lit ''y'']) = Some (File (utf8_encode (lit ''Q X2'')))"
proof -
  let ?s = "spec_session (\<lambda>c. [c]) no_images (lit ''d/new/y'') (map fst session_sample) None"
  let ?window = "\<lparr>cr_is_error = False, cr_content = [TextBlock (lit ''Q X2'')],
    cr_structured = Some (ReadStructured \<lparr>ro_path = lit ''d/new/y'', ro_content = lit ''Q X2'',
      ro_start_line = Some 1, ro_end_line = Some 1, ro_total_lines = Some 1, ro_image_mime_type = None\<rparr>)\<rparr>"
  have s: "?s = ([Replied (Inr (tool_error (lit ''File not found: d/new/y''))), Changed, Changed, Refused,
      Replied (Inr ?window)], Some (lit ''Q X2''))"
    by code_simp
  have h: "holds_text (cf_workspace session_config) (lit ''d/new/y'') [lit ''ws'', lit ''d'', lit ''new''] (lit ''y'')
      (set (map snd session_sample)) None (map_of sample_tree)"
    using session_sample_holds by (simp add: session_config_def)
  have v: "\<forall>c \<in> set (map fst session_sample). valid_call c" by code_simp
  from session_refines [OF h v, of "\<lambda>c. [c]" no_differ no_images] obtain fs' where
    "tool_session (\<lambda>c. [c]) no_differ no_images session_config (lit ''d/new/y'') session_sample (map_of sample_tree) =
      (map Some (fst ?s), fs')"
    "fs' ([lit ''ws'', lit ''d'', lit ''new''] @ [lit ''y'']) = Some (File (utf8_encode (lit ''Q X2'')))"
    unfolding s by auto
  then show ?thesis unfolding s by (intro exI [of _ fs'] exI [of _ ?window]) simp
qed

section \<open>Reading back what was written\<close>

text \<open>A text within the limits is shown whole.\<close>

lemma read_window_small:
  assumes "t \<noteq> []" and "str_len t \<le> MAX_BYTES" and "count_lines t \<le> MAX_LINES"
  shows "\<exists>out. read_window path t 1 None = Inr out \<and> ro_content out = t"
proof -
  let ?ls = "split_inclusive nl t"
  obtain kept capped where w: "window_loop (line_budget None) 0 0 (drop (unat (1 :: u32) - 1) ?ls) = (kept, capped)"
    by force
  note S = window_loop_spec [OF w]
  have lb: "line_budget None = MAX_LINES" by (simp add: line_budget_def)
  have ne: "?ls \<noteq> []" using assms(1) concat_split_inclusive [of nl t] by auto
  have "str_len (concat (take (Suc (length kept)) ?ls)) \<le> str_len t"
    by (metis append_take_drop_id concat_append concat_split_inclusive le_add1 str_len_append)
  then have "\<not> capped" using S(5) assms(2) by auto
  then have "length kept = length ?ls" using S(2,3,6) lb assms(3) by (auto simp: count_lines_def)
  then have kept: "kept = ?ls" using S(1) by simp
  show ?thesis
    using read_window_page [OF assms(1) _ _ w] ne kept by (simp add: concat_split_inclusive)
qed

text \<open>
  The agent reads what it wrote. Whenever a write call reports success, whatever was at the path
  before, a read of the same path shows exactly the text that was written, as one text block: for any
  text that is not empty, has at most 2000 lines and 50 KB, no zero byte, and is not taken for an image.
\<close>

theorem written_text_is_shown:
  assumes "write_setting fs (cf_workspace config) (wp_path params) d n rnd" and "valid_str (wp_content params)"
    and "server_write config fs fs params rnd mf fl = (Inr result, hist)" and "\<not> cr_is_error result"
    and "wp_content params \<noteq> []" and "str_len (wp_content params) \<le> MAX_BYTES"
    and "count_lines (wp_content params) \<le> MAX_LINES" and "0 \<notin> set (utf8_encode (wp_content params))"
    and "detect_image_mime il (utf8_encode (wp_content params)) = None"
  shows "\<exists>shown. server_read il config (last hist) (last hist)
      \<lparr>rp_path = wp_path params, rp_offset = None, rp_limit = None\<rparr> = Inr shown \<and>
    \<not> cr_is_error shown \<and> cr_content shown = [TextBlock (wp_content params)]"
proof -
  let ?t = "wp_content params"
  obtain w where w: "write_run (abs_path (cf_workspace config)) fs fs params rnd mf fl = (w, hist)"
    using assms(3) by (simp add: server_write_def split: prod.splits)
  then have okw: "\<not> isl w" using assms(3,4)
    by (cases w) (auto simp: server_write_def run_tool_def tool_error_def)
  have "\<exists>fs'. last hist = fs' \<and> target_written fs (d @ [n]) fs' \<and> fs' (d @ [n]) = Some (File (utf8_encode ?t)) \<and>
      fs' (d @ [temp_name n rnd]) = None"
    using assms(1) w
  proof (cases rule: write_run_cases)
    case (written fs1 h)
    let ?fs' = "fs1(d @ [n] \<mapsto> File (utf8_encode ?t))"
    note W = writableD [OF written(4)]
    have wf: "wf_fs ?fs'" by (rule wf_fs_set [OF W(1-3)]) (use written(7) in simp)
    have nd: "fs (d @ [n]) \<noteq> Some Dir" using written(5,7) by simp
    have "?fs' q = fs q \<or> fs q = None \<and> ?fs' q = Some Dir \<and> strict_prefix q (d @ [n])" if "q \<noteq> d @ [n]" for q
      using written(3) that unfolding dirs_on_the_way_def by (auto simp: strict_prefix_def)
    then have "target_written fs (d @ [n]) ?fs'" using wf nd unfolding target_written_def by auto
    then show ?thesis using written(2) W(4) temp_name_neq [of n rnd] by auto
  qed (use okw in auto)
  then have tw: "target_written fs (d @ [n]) (last hist)"
    and f: "last hist (d @ [n]) = Some (File (utf8_encode ?t))" "last hist (d @ [temp_name n rnd]) = None"
    by blast+
  have "\<forall>c \<in> set rnd. is_hexdigit c" using assms(1) by (simp add: write_setting_def)
  then have S: "write_setting (last hist) (cf_workspace config) (wp_path params) d n rnd"
    using setting_after_write [OF assms(1) tw] f(2) by blast
  obtain out where out: "read_window (wp_path params) ?t 1 None = Inr out" "ro_content out = ?t"
    using read_window_small [OF assms(5-7)] by blast
  have "str_len ?t \<le> MAX_READ_BYTES" using assms(6) by (simp add: MAX_BYTES_def MAX_READ_BYTES_def)
  moreover have "0 \<notin> set (take SNIFF_LEN (utf8_encode ?t))" using assms(8) by (meson in_set_takeD)
  ultimately show ?thesis
    using read_call_refines [OF S refl, of "Some ?t" il None None] f(1) assms(2,9) out
    by (simp add: read_text_def)
qed

lemma written_text_is_shown_witness:
  "\<exists>shown hist. hist = snd (server_write session_config (map_of sample_tree) (map_of sample_tree) sample_write
      (lit ''0a'') None no_faults) \<and>
    server_read no_images session_config (last hist) (last hist)
      \<lparr>rp_path = wp_path sample_write, rp_offset = None, rp_limit = None\<rparr> = Inr shown \<and>
    cr_content shown = [TextBlock (lit ''hi'')]"
proof -
  let ?w = "server_write session_config (map_of sample_tree) (map_of sample_tree) sample_write (lit ''0a'') None no_faults"
  have s: "\<not> isl (fst ?w)" "\<not> cr_is_error (projr (fst ?w))" by code_simp+
  then have w: "?w = (Inr (projr (fst ?w)), snd ?w)" by (metis prod.collapse sum.collapse(2))
  have S: "write_setting (map_of sample_tree) (cf_workspace session_config) (wp_path sample_write)
      [lit ''ws'', lit ''d'', lit ''new''] (lit ''y'') (lit ''0a'')"
    using sample_write_setting by (simp add: session_config_def)
  have c: "valid_str (wp_content sample_write)" "wp_content sample_write \<noteq> []"
    "str_len (wp_content sample_write) \<le> MAX_BYTES" "count_lines (wp_content sample_write) \<le> MAX_LINES"
    "0 \<notin> set (utf8_encode (wp_content sample_write))"
    "detect_image_mime no_images (utf8_encode (wp_content sample_write)) = None"
    "wp_content sample_write = lit ''hi''"
    by code_simp+
  from written_text_is_shown [OF S c(1) w s(2) c(2-6)] show ?thesis unfolding c(7) by blast
qed

text \<open>
  The condition on images matters: a text that starts with the magic bytes of a bitmap, the letters
  BM, is written without complaint, and every read of it fails with a protocol error.
\<close>

definition bitmap_lib :: "unit image_lib" where
  "bitmap_lib = no_images\<lparr>il_guess := \<lambda>bytes. if prefix [66, 77] bytes then Inr Bmp else Inl [],
     il_load := \<lambda>_ _. Inl (lit ''bad header'')\<rparr>"

lemma text_taken_for_bitmap:
  "spec_session (\<lambda>c. [c]) bitmap_lib (lit ''f'') [WriteCall (lit ''BMI: 22''), ReadCall None None] None =
    ([Changed, Replied (Inl (InternalError (lit ''failed to decode image f: bad header'')))],
     Some (lit ''BMI: 22''))"
  by code_simp

end
