(* ===== verification/Entry_Point.thy ===== *)
theory Entry_Point
  imports Router File_Session
begin

text \<open>
  The program itself, \<^theory_text>\<open>main.rs\<close>: what the command line selects, the start of the server and its
  end. \<^theory_text>\<open>TcpListener::bind\<close> and \<^theory_text>\<open>axum::serve\<close> are parameters; what the process does while it serves
  is the step relation in the second half.
\<close>

section \<open>The command line\<close>

definition HELP :: rstr where
  "HELP =
     lit ''MCPod '' @ [0x2014] @ lit '' MCP-controlled development server.'' @ [nl]
     @ [nl]
     @ lit ''Run `mcpod` from the directory the agent should work in; all configuration'' @ [nl]
     @ lit ''comes from environment variables (no CLI options):'' @ [nl]
     @ [nl]
     @ lit ''  MCPOD_TOKEN            Bearer token for /mcp, /sse and /messages.'' @ [nl]
     @ lit ''                         Unset/empty disables authentication (dangerous).'' @ [nl]
     @ lit ''  MCPOD_PORT             Listen port (default 3000).'' @ [nl]
     @ lit ''  MCPOD_HOST             Bind address (default 127.0.0.1; the Docker image'' @ [nl]
     @ lit ''                         sets 0.0.0.0 and relies on the port mapping).'' @ [nl]
     @ lit ''  MCPOD_WORKSPACE        Workspace root the file tools are jailed in.'' @ [nl]
     @ lit ''                         Default: the current directory (the Docker image'' @ [nl]
     @ lit ''                         presets /workspace).'' @ [nl]
     @ lit ''  MCPOD_ALLOWED_HOSTS    Comma-separated Host-header allowlist'' @ [nl]
     @ lit ''                         (default: unrestricted).'' @ [nl]
     @ lit ''  MCPOD_ALLOWED_ORIGINS  Browser Origin allowlist (default: localhost on'' @ [nl]
     @ lit ''                         any port).'' @ [nl]
     @ lit ''  MCPOD_SSE_SESSION_TTL  Disconnected legacy SSE session TTL (default 30m).'' @ [nl]
     @ lit ''  MCPOD_SSE_KEEPALIVE    SSE keepalive interval (default 15s).'' @ [nl]
     @ [nl]
     @ lit ''Example (host mode):'' @ [nl]
     @ [nl]
     @ lit ''  MCPOD_TOKEN=\"$(openssl rand -hex 32)\" ./mcpod'' @ [nl]
     @ [nl]
     @ lit ''Docs: https://github.com/fb0sh/MCPod'' @ [nl]"

text \<open>
  \<^theory_text>\<open>std::env::args().nth(k)\<close>: the iterator panics, \<^theory_text>\<open>None\<close> here, at an argument that is not Unicode.
\<close>

fun nth_arg :: "byte list list \<Rightarrow> nat \<Rightarrow> rstr option option" where
  "nth_arg [] k = Some None"
| "nth_arg (a # as) k =
     (case utf8_decode a of
        None \<Rightarrow> None
      | Some arg \<Rightarrow> (case k of 0 \<Rightarrow> Some (Some arg) | Suc j \<Rightarrow> nth_arg as j))"

datatype cli = PrintHelp | PrintVersion | RunServer

definition cli_action :: "byte list list \<Rightarrow> cli option" where
  "cli_action args =
     map_option (\<lambda>arg.
       if arg = Some (lit ''-h'') \<or> arg = Some (lit ''--help'') then PrintHelp
       else if arg = Some (lit ''-V'') \<or> arg = Some (lit ''--version'') then PrintVersion
       else RunServer) (nth_arg args 1)"

section \<open>The start\<close>

datatype main_log =
    AuthenticationEnabled
  | AuthenticationDisabled
  | ServerStarted ip_addr "16 word" rstr
  | ShutdownReceived
  | ServerStopped

datatype main_event =
    Printed rstr
  | Logged main_log
  | BindAttempt ip_addr "16 word"
  | Served config

datatype main_error =
    InvalidConfiguration config_error
  | FailedToBind ip_addr "16 word" io_error
  | ServerFailed io_error

datatype main_result = MainOk | MainErr main_error | MainPanic

text \<open>
  The events of a run, in order, and how it ends. \<open>serve\<close> gives what is logged while the server runs
  and how \<^theory_text>\<open>axum::serve\<close> returns. The file system after the start is the one \<^theory_text>\<open>from_env\<close> leaves.
\<close>

definition main_run ::
  "byte list list \<Rightarrow> rstr \<Rightarrow> env \<Rightarrow> fpath option \<Rightarrow> fs \<Rightarrow> (ip_addr \<Rightarrow> 16 word \<Rightarrow> io_error + unit)
     \<Rightarrow> (config \<Rightarrow> main_log list \<times> (io_error + unit)) \<Rightarrow> main_event list \<times> main_result" where
  "main_run args version env cwd fs bind serve =
     (case cli_action args of
        None \<Rightarrow> ([], MainPanic)
      | Some PrintHelp \<Rightarrow> ([Printed HELP], MainOk)
      | Some PrintVersion \<Rightarrow> ([Printed (lit ''mcpod '' @ version @ [nl])], MainOk)
      | Some RunServer \<Rightarrow>
          (case from_env env cwd fs of
             None \<Rightarrow> ([], MainPanic)
           | Some (Inl e, _) \<Rightarrow> ([], MainErr (InvalidConfiguration e))
           | Some (Inr config, _) \<Rightarrow>
               (let auth = Logged (case cf_token config of
                      Some _ \<Rightarrow> AuthenticationEnabled | None \<Rightarrow> AuthenticationDisabled);
                    host = cf_host config; port = cf_port config;
                    attempt = [auth, BindAttempt host port]
                in case bind host port of
                     Inl e \<Rightarrow> (attempt, MainErr (FailedToBind host port e))
                   | Inr _ \<Rightarrow>
                       (let started = attempt @ [Logged (ServerStarted host port
                              (path_display (abs_path (cf_workspace config)))), Served config];
                            (logs, outcome) = serve config
                        in case outcome of
                             Inl e \<Rightarrow> (started @ map Logged logs, MainErr (ServerFailed e))
                           | Inr _ \<Rightarrow> (started @ map Logged logs @ [Logged ServerStopped], MainOk)))))"

section \<open>Properties of the start\<close>

lemma main_run_served:
  assumes "main_run args version env cwd fs bind serve = (events, result)" and "Served config \<in> set events"
  obtains fs' where "from_env env cwd fs = Some (Inr config, fs')" "bind (cf_host config) (cf_port config) = Inr ()"
    "cli_action args = Some RunServer"
  using assms
  by (auto simp: main_run_def Let_def split: option.splits cli.splits sum.splits prod.splits)

text \<open>
  The order of a start: an address is bound only if the configuration is valid, and then it is the
  configured one; the server runs only behind a successful bind, and by then the log has said whether
  authentication is on and where the server listens.
\<close>

lemma main_start_order:
  assumes "main_run args version env cwd fs bind serve = (events, result)"
  shows "(BindAttempt host port \<in> set events \<longrightarrow>
      (\<exists>c fs'. from_env env cwd fs = Some (Inr c, fs') \<and> host = cf_host c \<and> port = cf_port c)) \<and>
    (Served c \<in> set events \<longrightarrow> (\<exists>rest. events =
      [Logged (if cf_token c = None then AuthenticationDisabled else AuthenticationEnabled),
       BindAttempt (cf_host c) (cf_port c),
       Logged (ServerStarted (cf_host c) (cf_port c) (path_display (abs_path (cf_workspace c)))), Served c] @ rest))"
  using assms
  by (auto simp: main_run_def Let_def split: option.splits cli.splits sum.splits prod.splits)

text \<open>
  C9: What \<^theory_text>\<open>mcpod --help\<close> says of the token is true of the server that \<^theory_text>\<open>main\<close> starts. If the
  environment has a token that is not blank, the server that comes up has authentication enabled,
  says so, and refuses every request to an MCP endpoint that does not carry this token, surrounding
  white space of the variable aside: with 401 or 403, and without a change of its state.
\<close>

theorem main_serves_protected:
  assumes "main_run args version env cwd fs bind serve = (events, result)" and "Served config \<in> set events"
    and "env (lit ''MCPOD_TOKEN'') = Some v" and "trim v \<noteq> []" and "valid_str v"
    and "\<And>bs u. to_str bs = Some u \<Longrightarrow> valid_str u"
    and "Option.bind (rq_header request (lit ''authorization'')) to_str \<noteq> Some (lit ''Bearer '' @ trim v)"
  shows "Logged AuthenticationEnabled \<in> set events \<and>
    snd (snd (build_router to_str config dispatch fallback mcp legacy request s)) = s \<and>
    (\<forall>e. dispatch request = Some e \<and> e \<noteq> HealthGet \<longrightarrow>
       rs_status (fst (snd (build_router to_str config dispatch fallback mcp legacy request s))) \<in> {401, 403})"
proof -
  obtain fs' where c: "from_env env cwd fs = Some (Inr config, fs')"
    by (rule main_run_served [OF assms(1,2)])
  have "cf_token config = token_env env" by (rule from_env_Inr [OF c])
  then have token: "cf_token config = Some (trim v)" using assms(3,4) by (simp add: token_env_def)
  have "valid_str (trim v)" using assms(5) trim_subset [of v] by (auto simp: valid_str_def list_all_iff)
  then have "\<not> bearer_ok to_str config request"
    using bearer_ok_iff [of config "trim v" to_str request] token assms(6,7) by blast
  note refused = router_refuses [OF this]
  obtain rest where "events = [Logged (if cf_token config = None then AuthenticationDisabled else AuthenticationEnabled),
      BindAttempt (cf_host config) (cf_port config), Logged (ServerStarted (cf_host config) (cf_port config)
        (path_display (abs_path (cf_workspace config)))), Served config] @ rest"
    using main_start_order [OF assms(1), of "cf_host config" "cf_port config" config] assms(2) by blast
  then have "Logged AuthenticationEnabled \<in> set events" using token by simp
  moreover have "rs_status (fst (snd (build_router to_str config dispatch fallback mcp legacy request s))) \<in> {401, 403}"
    if "dispatch request = Some e" "e \<noteq> HealthGet" for e
    unfolding refused(2) [of dispatch e fallback mcp legacy s, OF that(1)] using that(2) by (simp only: if_False split: if_split) simp
  ultimately show ?thesis using refused(1) [of dispatch fallback mcp legacy s] by (intro conjI allI impI) simp_all
qed

definition demo_main :: "byte list list \<Rightarrow> main_event list \<times> main_result" where
  "demo_main args = main_run args (lit ''2.0.1'') env_sample (Some [lit ''home'']) config_fs
     (\<lambda>_ _. Inr ()) (\<lambda>_. ([ShutdownReceived], Inr ()))"

lemma main_serves_protected_witness:
  "\<exists>config. Served config \<in> set (fst (demo_main [utf8_encode (lit ''mcpod'')])) \<and>
    rs_status (fst (snd (build_router visible_ascii config open_dispatch (\<lambda>_. plain_response 404 [])
      (\<lambda>_ _ s. ([], plain_response 200 [], s)) (\<lambda>_. sse_handler (lit ''a''))
      (sample_request (lit ''/sse'') []) (sse_new :: (nat, nat) sse)))) \<in> {401, 403}"
proof -
  let ?args = "[utf8_encode (lit ''mcpod'')]"
  have run: "main_run ?args (lit ''2.0.1'') env_sample (Some [lit ''home'']) config_fs
     (\<lambda>_ _. Inr ()) (\<lambda>_. ([ShutdownReceived], Inr ())) = (fst (demo_main ?args), snd (demo_main ?args))"
    by (simp add: demo_main_def)
  have "list_ex (\<lambda>ev. case ev of Served c \<Rightarrow> True | _ \<Rightarrow> False) (fst (demo_main ?args))" by code_simp
  then obtain ev where ev: "ev \<in> set (fst (demo_main ?args))" "case ev of Served c \<Rightarrow> True | _ \<Rightarrow> False"
    unfolding list_ex_iff by blast
  from ev(2) obtain config where "ev = Served config" by (cases ev) simp_all
  then have c: "Served config \<in> set (fst (demo_main ?args))" using ev(1) by simp
  have v: "env_sample (lit ''MCPOD_TOKEN'') = Some (lit '' secret '')" "trim (lit '' secret '') \<noteq> []"
    "valid_str (lit '' secret '')"
    "Option.bind (rq_header (sample_request (lit ''/sse'') []) (lit ''authorization'')) visible_ascii
       \<noteq> Some (lit ''Bearer '' @ trim (lit '' secret ''))"
    "open_dispatch (sample_request (lit ''/sse'') []) = Some SseGet"
    by code_simp+
  have "\<forall>e. open_dispatch (sample_request (lit ''/sse'') []) = Some e \<and> e \<noteq> HealthGet \<longrightarrow>
      rs_status (fst (snd (build_router visible_ascii config open_dispatch (\<lambda>_. plain_response 404 [])
        (\<lambda>_ _ s. ([], plain_response 200 [], s)) (\<lambda>_. sse_handler (lit ''a''))
        (sample_request (lit ''/sse'') []) (sse_new :: (nat, nat) sse)))) \<in> {401, 403}"
    by (rule main_serves_protected [OF run c v(1,2,3) visible_ascii_valid v(4), THEN conjunct2, THEN conjunct2])
  then show ?thesis using c v(5) by blast
qed

text \<open>
  The defaults that \<^theory_text>\<open>mcpod --help\<close> documents are the ones in force. With none of the variables
  set, in a directory that exists, the server listens on port 3000 of 127.0.0.1 only, works in the
  current directory, without a token and without a list of hosts, accepts the browser origins of
  localhost only, keeps disconnected sessions for 30 minutes and sends a keepalive every 15 seconds.
\<close>

theorem documented_defaults:
  assumes "\<forall>name \<in> set [lit ''MCPOD_TOKEN'', lit ''MCPOD_PORT'', lit ''MCPOD_HOST'', lit ''MCPOD_WORKSPACE'',
      lit ''MCPOD_ALLOWED_HOSTS'', lit ''MCPOD_ALLOWED_ORIGINS'', lit ''MCPOD_SSE_SESSION_TTL'',
      lit ''MCPOD_SSE_KEEPALIVE'']. env name = None"
    and "workspace fs d"
  shows "from_env env (Some d) fs = Some (Inr \<lparr>cf_token = None, cf_host = V4 [127, 0, 0, 1], cf_port = 3000,
      cf_workspace = d, cf_allowed_hosts = [], cf_allowed_origins = [],
      cf_sse_session_ttl = from_secs 1800, cf_sse_keepalive = from_secs 15\<rparr>, fs)"
proof -
  have wf: "wf_fs fs" and dir: "fs d = Some Dir" using assms(2) by (simp_all add: workspace_def)
  have unset: "env (lit ''MCPOD_TOKEN'') = None" "env (lit ''MCPOD_PORT'') = None" "env (lit ''MCPOD_HOST'') = None"
    "env (lit ''MCPOD_WORKSPACE'') = None" "env (lit ''MCPOD_ALLOWED_HOSTS'') = None"
    "env (lit ''MCPOD_ALLOWED_ORIGINS'') = None" "env (lit ''MCPOD_SSE_SESSION_TTL'') = None"
    "env (lit ''MCPOD_SSE_KEEPALIVE'') = None"
    using assms(1) by simp_all
  have host: "parse_ip_addr (lit ''127.0.0.1'') = Some (V4 [127, 0, 0, 1])" by code_simp
  have "workspace_env env (Some d) = Some (abs_path d)"
    by (simp add: workspace_env_def default_workspace_def unset)
  moreover have "canonicalize_root fs (abs_path d) = (Inr d, fs)"
  proof -
    have can: "canonical fs d" by (rule wf_fs_Some_dir [OF wf dir])
    have "create_dir_all fs (abs_path d) = (Inr (), fs)"
      using create_dir_all_existing [OF wf can] dir
      by (cases "create_dir_all fs (abs_path d)") (auto simp: dirs_created_def split: sum.splits)
    then show ?thesis
      using canonicalize_canonical [OF wf can] by (simp add: canonicalize_root_def abs_path_def)
  qed
  moreover have "csv_env env (lit ''MCPOD_ALLOWED_HOSTS'') = []" "csv_env env (lit ''MCPOD_ALLOWED_ORIGINS'') = []"
    unfolding csv_env_def unset by code_simp+
  ultimately show ?thesis
    by (simp add: from_env_def host_env_def port_env_def token_env_def duration_env_def unset host)
qed

lemma documented_defaults_witness:
  "\<exists>config. from_env (\<lambda>_. None) (Some [lit ''ws'']) (map_of sample_tree) = Some (Inr config, map_of sample_tree) \<and>
    cf_port config = 3000 \<and> cf_workspace config = [lit ''ws'']"
  using documented_defaults [of "\<lambda>_. None", OF _ workspace_sample] by simp

end
