(* ===== verification/Life_Cycle.thy ===== *)
theory Life_Cycle
  imports Entry_Point
begin

text \<open>
  The server process from the start of \<^theory_text>\<open>axum::serve\<close> to the return of \<^theory_text>\<open>main\<close>: the shutdown signal
  of \<^theory_text>\<open>main.rs\<close>, the sweeper of \<^theory_text>\<open>legacy_sse.rs\<close> that it wakes, and the sessions whose streams the
  graceful shutdown waits for. The steps of the three are interleaved in every way.
\<close>

section \<open>The process\<close>

datatype server_phase = Serving | ShuttingDown | Ended

text \<open>
  \<open>pr_token\<close>: the cancellation token of \<^theory_text>\<open>main\<close> is cancelled. \<open>pr_swept\<close>: the sweeper has ended, when
  there were that many sessions.
\<close>

record ('m, 'n) process =
  pr_phase :: server_phase
  pr_token :: bool
  pr_swept :: "nat option"
  pr_log :: "main_log list"
  pr_sse :: "('m, 'n) sse"

definition process_new :: "('m, 'n) process" where
  "process_new = \<lparr>pr_phase = Serving, pr_token = False, pr_swept = None, pr_log = [], pr_sse = sse_new\<rparr>"

datatype signal = CtrlC | Terminate

text \<open>
  \<^theory_text>\<open>shutdown_signal\<close>, with the result of installing the SIGTERM handler and the signal that comes
  first; \<^theory_text>\<open>None\<close> is its panic.
\<close>

definition shutdown_signal ::
  "io_error option \<Rightarrow> signal \<Rightarrow> ('m, 'n) process \<Rightarrow> ('m, 'n) process option" where
  "shutdown_signal install_error sig p =
     (case install_error of
        Some _ \<Rightarrow> None
      | None \<Rightarrow> (case sig of
            CtrlC \<Rightarrow> Some (p\<lparr>pr_log := pr_log p @ [ShutdownReceived], pr_token := True\<rparr>)
          | Terminate \<Rightarrow> Some (p\<lparr>pr_log := pr_log p @ [ShutdownReceived], pr_token := True\<rparr>)))"

text \<open>
  While the server drains, requests on connections that were accepted before are still answered, so
  sessions can still be opened; it stops when no response is being sent any more.
\<close>

inductive life_step ::
  "duration \<Rightarrow> ('n \<Rightarrow> rstr) \<Rightarrow> ('m, 'n) process \<Rightarrow> ('m, 'n) process \<Rightarrow> bool" for ttl to_json where
  signalled: "\<lbrakk>pr_phase p = Serving; shutdown_signal None sig p = Some p'\<rbrakk> \<Longrightarrow>
    life_step ttl to_json p (p'\<lparr>pr_phase := ShuttingDown\<rparr>)"
| session: "\<lbrakk>pr_phase p \<noteq> Ended; i \<notin> sn_id ` set (ss_sessions (pr_sse p))\<rbrakk> \<Longrightarrow>
    life_step ttl to_json p (p\<lparr>pr_sse := snd (open_session i (pr_sse p))\<rparr>)"
| traffic: "\<lbrakk>pr_phase p \<noteq> Ended; traffic_step to_json (pr_sse p) s'\<rbrakk> \<Longrightarrow>
    life_step ttl to_json p (p\<lparr>pr_sse := s'\<rparr>)"
| sweeper: "\<lbrakk>pr_phase p \<noteq> Ended; pr_swept p = None; ev = Shutdown \<longrightarrow> pr_token p;
     sweeper_turn ttl ev (pr_sse p) = (goes_on, s')\<rbrakk> \<Longrightarrow>
    life_step ttl to_json p (p\<lparr>pr_sse := s', pr_swept :=
      (if goes_on then None else Some (length (ss_sessions s')))\<rparr>)"
| stopped: "\<lbrakk>pr_phase p = ShuttingDown; list_all (\<lambda>x. \<not> ch_open (sn_outbound x)) (ss_sessions (pr_sse p))\<rbrakk> \<Longrightarrow>
    life_step ttl to_json p (p\<lparr>pr_phase := Ended, pr_log := pr_log p @ [ServerStopped]\<rparr>)"

inductive life_reach :: "duration \<Rightarrow> ('n \<Rightarrow> rstr) \<Rightarrow> ('m, 'n) process \<Rightarrow> bool" for ttl to_json where
  start: "life_reach ttl to_json process_new"
| step: "life_reach ttl to_json p \<Longrightarrow> life_step ttl to_json p p' \<Longrightarrow> life_reach ttl to_json p'"

inductive_cases life_step_cases: "life_step ttl to_json p p'"

section \<open>Cancelled is cancelled\<close>

text \<open>No step takes a session away or revives it.\<close>

definition still_cancelled :: "('m, 'n) sse \<Rightarrow> ('m, 'n) sse \<Rightarrow> bool" where
  "still_cancelled s s' \<longleftrightarrow> length (ss_sessions s) \<le> length (ss_sessions s') \<and>
     (\<forall>k < length (ss_sessions s). sn_cancelled (ss_sessions s ! k) \<longrightarrow> sn_cancelled (ss_sessions s' ! k))"

lemma still_cancelled_refl [simp]: "still_cancelled s s"
  by (simp add: still_cancelled_def)

lemma still_cancelled_trans: "still_cancelled s s1 \<Longrightarrow> still_cancelled s1 s2 \<Longrightarrow> still_cancelled s s2"
  unfolding still_cancelled_def by (meson le_trans less_le_trans)

lemma still_cancelled_same: "ss_sessions s' = ss_sessions s \<Longrightarrow> still_cancelled s s'"
  by (simp add: still_cancelled_def)

lemma still_cancelled_upd:
  assumes "\<And>x. sn_cancelled x \<Longrightarrow> sn_cancelled (f x)"
  shows "still_cancelled s (upd_session k f s)"
proof -
  have "sn_cancelled (ss_sessions (upd_session k f s) ! j)"
    if "j < length (ss_sessions s)" "sn_cancelled (ss_sessions s ! j)" for j
    by (cases "k = j") (use that assms in \<open>simp_all add: upd_session_def\<close>)
  then show ?thesis by (simp add: still_cancelled_def upd_session_def)
qed

lemma still_cancelled_cancel: "still_cancelled s (cancel_session k s)"
  unfolding cancel_session_def by (rule still_cancelled_upd) simp

lemma still_cancelled_map [simp]:
  "still_cancelled s (s'\<lparr>ss_map := m\<rparr>) = still_cancelled s s'"
  "still_cancelled s (s'\<lparr>ss_posts := ps\<rparr>) = still_cancelled s s'"
  by (simp_all add: still_cancelled_def)

lemma still_cancelled_disconnect: "still_cancelled s (disconnect i now s)"
  by (auto simp: disconnect_def still_cancelled_cancel split: option.split)

lemma still_cancelled_open: "still_cancelled s (snd (open_session i s))"
  by (simp add: still_cancelled_def open_session_def Let_def nth_append)

lemma still_cancelled_stream_drop: "still_cancelled s (stream_drop k now s)"
proof -
  let ?s1 = "upd_session k (\<lambda>x. x\<lparr>sn_outbound := (sn_outbound x)\<lparr>ch_open := False\<rparr>\<rparr>) s"
  let ?s2 = "upd_session k (\<lambda>x. x\<lparr>sn_guard_fired := True\<rparr>) ?s1"
  have s1: "still_cancelled s ?s1" by (rule still_cancelled_upd) simp
  have "still_cancelled ?s1 ?s2" by (rule still_cancelled_upd) simp
  then have "still_cancelled s (disconnect i now ?s2)" for i
    by (rule still_cancelled_trans [OF still_cancelled_trans [OF s1] still_cancelled_disconnect])
  then show ?thesis using s1 by (simp add: stream_drop_def guard_fire_def)
qed

lemma still_cancelled_traffic: "traffic_step to_json s s' \<Longrightarrow> still_cancelled s s'"
proof (induction rule: traffic_step.induct)
  case (post_end s ps k m qs r s')
  then obtain ch where "s' = upd_session k (\<lambda>x. x\<lparr>sn_inbound := ch\<rparr>) s" using deliver_send_Ready by metis
  then show ?case by (simp add: still_cancelled_upd)
next
  case (loop_receive k s m s')
  then show ?case
    by (auto simp: transport_receive_def still_cancelled_upd split: poll.splits)
next
  case (loop_send k s item waited r s')
  then show ?case
    by (auto simp: transport_send_def still_cancelled_upd split: poll.splits bool.splits if_splits)
next
  case (loop_end k s)
  then show ?case by (simp add: transport_drop_def still_cancelled_upd)
next
  case (event k s ev s')
  then show ?case
    by (auto simp: stream_next_def Let_def still_cancelled_upd split: poll.splits if_splits)
qed (simp_all add: still_cancelled_stream_drop)

section \<open>The invariant\<close>

definition life_ok :: "('n \<Rightarrow> rstr) \<Rightarrow> ('m, 'n) process \<Rightarrow> bool" where
  "life_ok to_json p \<longleftrightarrow> sse_ok to_json (pr_sse p) \<and>
     (pr_token p \<longleftrightarrow> pr_phase p \<noteq> Serving) \<and>
     (case pr_swept p of
        None \<Rightarrow> True
      | Some k \<Rightarrow> pr_token p \<and> k \<le> length (ss_sessions (pr_sse p)) \<and>
          list_all sn_cancelled (take k (ss_sessions (pr_sse p)))) \<and>
     (pr_phase p = Ended \<longrightarrow> list_all sn_cancelled (ss_sessions (pr_sse p))) \<and>
     pr_log p = (case pr_phase p of
        Serving \<Rightarrow> [] | ShuttingDown \<Rightarrow> [ShutdownReceived] | Ended \<Rightarrow> [ShutdownReceived, ServerStopped])"

lemma take_cancelled:
  assumes "still_cancelled s s'" and "k \<le> length (ss_sessions s)"
    and "list_all sn_cancelled (take k (ss_sessions s))"
  shows "k \<le> length (ss_sessions s') \<and> list_all sn_cancelled (take k (ss_sessions s'))"
  using assms by (auto simp: still_cancelled_def list_all_length)

lemma life_ok_sse:
  assumes "life_ok to_json p" and "pr_phase p \<noteq> Ended" and "sse_ok to_json s'" and "still_cancelled (pr_sse p) s'"
  shows "life_ok to_json (p\<lparr>pr_sse := s'\<rparr>)"
  using assms take_cancelled [OF assms(4)] by (auto simp: life_ok_def split: option.splits)

lemma life_ok_step: "life_step ttl to_json p p' \<Longrightarrow> life_ok to_json p \<Longrightarrow> life_ok to_json p'"
proof (induction rule: life_step.induct)
  case (signalled p sig p')
  then show ?case
    by (cases sig) (auto simp: life_ok_def shutdown_signal_def split: option.splits)
next
  case (session p i)
  have "sse_ok to_json (snd (open_session i (pr_sse p)))"
    using sse_ok_opened [OF _ session.hyps(2)] session.prems by (simp add: life_ok_def)
  then show ?case using life_ok_sse [OF session.prems session.hyps(1)] still_cancelled_open by blast
next
  case (traffic p s')
  have "sse_ok to_json s'" using sse_ok_traffic [OF traffic.hyps(2)] traffic.prems by (simp add: life_ok_def)
  then show ?case
    using life_ok_sse [OF traffic.prems traffic.hyps(1)] still_cancelled_traffic [OF traffic.hyps(2)] by blast
next
  case (sweeper p ev goes_on s')
  have ok: "sse_ok to_json (pr_sse p)" using sweeper.prems by (simp add: life_ok_def)
  show ?case
  proof (cases ev)
    case (Tick now)
    then have "goes_on" "s' = sweep ttl now (pr_sse p)" using sweeper.hyps(4) by (simp_all add: sweeper_turn_def)
    then show ?thesis using sse_ok_sweep [OF ok] sweeper.prems sweeper.hyps(1,2) by (simp add: life_ok_def)
  next
    case Shutdown
    then have s': "\<not> goes_on" "s' = close_all (pr_sse p)" using sweeper.hyps(4) by (simp_all add: sweeper_turn_def)
    have "sessions_ok (pr_sse p)" using ok by (simp add: sse_ok_def)
    then have "list_all sn_cancelled (ss_sessions s')"
      unfolding s'(2) by (simp add: close_all_sessions(3) list_all_iff)
    then show ?thesis
      using s' sse_ok_close_all [OF ok] sweeper.prems sweeper.hyps(1,3) Shutdown by (simp add: life_ok_def)
  qed
next
  case (stopped p)
  have "list_all sn_cancelled (ss_sessions (pr_sse p))"
    using stopped.hyps(2) stopped.prems by (auto simp: life_ok_def sse_ok_def session_ok_def list_all_iff)
  then show ?case using stopped by (simp add: life_ok_def split: option.splits)
qed

lemma life_reach_ok: "life_reach ttl to_json p \<Longrightarrow> life_ok to_json p"
proof (induction rule: life_reach.induct)
  case start
  show ?case using sse_ok_start by (simp add: life_ok_def process_new_def)
qed (blast intro: life_ok_step)

section \<open>Properties\<close>

text \<open>
  C13: Shutting down is orderly, in every interleaving of the signal, the sweeper, the sessions and
  requests that still arrive. The token is cancelled exactly from the signal on. When the sweeper has
  ended, every session that existed then is cancelled and stays so, whatever happens afterwards; and
  when the server has stopped, no session at all is left that is not cancelled. The log has the
  signal, and then the end, once each.
\<close>

theorem graceful_shutdown:
  assumes "life_reach ttl to_json p"
  shows "(pr_token p \<longleftrightarrow> pr_phase p \<noteq> Serving) \<and>
    (\<forall>k. pr_swept p = Some k \<longrightarrow> pr_token p \<and> list_all sn_cancelled (take k (ss_sessions (pr_sse p)))) \<and>
    (pr_phase p = Ended \<longrightarrow> list_all sn_cancelled (ss_sessions (pr_sse p))) \<and>
    pr_log p = (case pr_phase p of
       Serving \<Rightarrow> [] | ShuttingDown \<Rightarrow> [ShutdownReceived] | Ended \<Rightarrow> [ShutdownReceived, ServerStopped])"
  using life_reach_ok [OF assms] by (auto simp: life_ok_def)

text \<open>A run: a session is opened, the signal comes, the sweeper closes it, its stream goes, the server stops.\<close>

definition life_demo :: "nat \<Rightarrow> (nat, nat) process" where
  "life_demo n =
     (let p1 = process_new\<lparr>pr_sse := snd (open_session (lit ''a'') sse_new)\<rparr>;
          p2 = p1\<lparr>pr_log := [ShutdownReceived], pr_token := True, pr_phase := ShuttingDown\<rparr>;
          p3 = p2\<lparr>pr_sse := close_all (pr_sse p2), pr_swept := Some 1\<rparr>;
          p4 = p3\<lparr>pr_sse := stream_drop 0 5 (pr_sse p3)\<rparr>;
          p5 = p4\<lparr>pr_phase := Ended, pr_log := pr_log p4 @ [ServerStopped]\<rparr>
      in [process_new, p1, p2, p3, p4, p5] ! n)"

lemmas life_demo_defs = life_demo_def process_new_def sse_new_def open_session_def close_all_def
  cancel_session_def upd_session_def stream_drop_def guard_fire_def disconnect_def shutdown_signal_def
  sweeper_turn_def new_channel_def Let_def

lemma life_demo_reach:
  "life_reach ttl dec (life_demo 3)" "life_reach ttl dec (life_demo 5)"
proof -
  have r0: "life_reach ttl dec (life_demo 0)" unfolding life_demo_def Let_def by (simp add: life_reach.start)
  have "life_demo 1 = (life_demo 0)\<lparr>pr_sse := snd (open_session (lit ''a'') (pr_sse (life_demo 0)))\<rparr>"
    by (simp add: life_demo_defs)
  then have "life_step ttl dec (life_demo 0) (life_demo 1)"
    using life_step.session [of "life_demo 0" "lit ''a''" ttl dec] by (simp add: life_demo_defs)
  with r0 have r1: "life_reach ttl dec (life_demo 1)" by (rule life_reach.step)
  have "life_demo 2 = (the (shutdown_signal None Terminate (life_demo 1)))\<lparr>pr_phase := ShuttingDown\<rparr>"
    "shutdown_signal None Terminate (life_demo 1) = Some (the (shutdown_signal None Terminate (life_demo 1)))"
    "pr_phase (life_demo 1) = Serving"
    by (simp_all add: life_demo_defs)
  then have "life_step ttl dec (life_demo 1) (life_demo 2)"
    using life_step.signalled by metis
  with r1 have r2: "life_reach ttl dec (life_demo 2)" by (rule life_reach.step)
  have "life_demo 3 = (life_demo 2)\<lparr>pr_sse := snd (sweeper_turn ttl Shutdown (pr_sse (life_demo 2))),
      pr_swept := Some (length (ss_sessions (snd (sweeper_turn ttl Shutdown (pr_sse (life_demo 2))))))\<rparr>"
    by (simp add: life_demo_defs)
  then have "life_step ttl dec (life_demo 2) (life_demo 3)"
    using life_step.sweeper [of "life_demo 2" Shutdown ttl False _ dec] by (simp add: life_demo_defs)
  with r2 show r3: "life_reach ttl dec (life_demo 3)" by (rule life_reach.step)
  have "life_demo 4 = (life_demo 3)\<lparr>pr_sse := stream_drop 0 5 (pr_sse (life_demo 3))\<rparr>"
    "traffic_step dec (pr_sse (life_demo 3)) (stream_drop 0 5 (pr_sse (life_demo 3)))" "pr_phase (life_demo 3) = ShuttingDown"
    by (simp add: life_demo_def Let_def, rule traffic_step.stream_gone) (simp_all add: life_demo_defs)
  then have "life_step ttl dec (life_demo 3) (life_demo 4)"
    using life_step.traffic [of "life_demo 3" dec _ ttl] by simp
  with r3 have r4: "life_reach ttl dec (life_demo 4)" by (rule life_reach.step)
  have "life_demo 5 = (life_demo 4)\<lparr>pr_phase := Ended, pr_log := pr_log (life_demo 4) @ [ServerStopped]\<rparr>"
    "list_all (\<lambda>x. \<not> ch_open (sn_outbound x)) (ss_sessions (pr_sse (life_demo 4)))" "pr_phase (life_demo 4) = ShuttingDown"
    by (simp_all add: life_demo_defs)
  then have "life_step ttl dec (life_demo 4) (life_demo 5)"
    using life_step.stopped [of "life_demo 4" ttl dec] by simp
  with r4 show "life_reach ttl dec (life_demo 5)" by (rule life_reach.step)
qed

theorem graceful_shutdown_witness:
  "pr_phase (life_demo 5) = Ended \<and> length (ss_sessions (pr_sse (life_demo 5))) = 1 \<and>
   list_all sn_cancelled (ss_sessions (pr_sse (life_demo 5))) \<and>
   pr_log (life_demo 5) = [ShutdownReceived, ServerStopped]"
proof -
  have "pr_phase (life_demo 5) = Ended" "length (ss_sessions (pr_sse (life_demo 5))) = 1" by code_simp+
  then show ?thesis using graceful_shutdown [OF life_demo_reach(2)] by simp
qed

text \<open>
  What \<^theory_text>\<open>close_all\<close> does not see: a request that is answered after the sweeper has ended opens a
  session that nothing on the server's side ever cancels, so the shutdown waits for its client.
\<close>

definition late_session :: "(nat, nat) process" where
  "late_session = (life_demo 3)\<lparr>pr_sse := snd (open_session (lit ''b'') (pr_sse (life_demo 3)))\<rparr>"

lemma session_after_close_all_lives:
  "life_reach ttl dec late_session" "pr_swept late_session = Some 1" "pr_token late_session"
  "\<not> sn_cancelled (ss_sessions (pr_sse late_session) ! 1)" "active_count (pr_sse late_session) = 1"
proof -
  have "life_step ttl dec (life_demo 3) late_session"
    unfolding late_session_def by (rule life_step.session) (simp_all add: life_demo_defs lit_def)
  then show "life_reach ttl dec late_session" using life_demo_reach(1) by (rule life_reach.step [rotated])
qed code_simp+

end
