(* ===== verification/Confinement.thy ===== *)
theory Confinement
  imports Server
begin

text \<open>
  What the file tools can do to the file system over any number of calls. The locale \<open>confined\<close>
  states what one call of a tool promises; what follows for sequences of calls is proved in it, and
  the handlers of \<^theory_text>\<open>server.rs\<close> for read, write and edit are an interpretation.
\<close>

section \<open>Sequences of calls\<close>

text \<open>A change of the tree that stays strictly below \<open>r\<close>.\<close>

definition changes_below :: "fpath \<Rightarrow> fs \<Rightarrow> fs \<Rightarrow> bool" where
  "changes_below r fs s \<longleftrightarrow> (\<forall>q. s q \<noteq> fs q \<longrightarrow> strict_prefix r q)"

lemma changes_below_refl: "changes_below r fs fs"
  by (simp add: changes_below_def)

lemma changes_below_trans: "changes_below r fs s \<Longrightarrow> changes_below r s s' \<Longrightarrow> changes_below r fs s'"
  unfolding changes_below_def by metis

lemma changes_below_root: "changes_below r fs s \<Longrightarrow> s r = fs r"
  by (auto simp: changes_below_def)

text \<open>The states that a sequence of calls goes through, and the condition on each call in its state.\<close>

fun session_states :: "('u \<Rightarrow> fs \<Rightarrow> fs list) \<Rightarrow> 'u list \<Rightarrow> fs \<Rightarrow> fs list" where
  "session_states moves [] fs = []"
| "session_states moves (u # us) fs = moves u fs @ session_states moves us (last (fs # moves u fs))"

fun session_admitted :: "('u \<Rightarrow> fs \<Rightarrow> bool) \<Rightarrow> ('u \<Rightarrow> fs \<Rightarrow> fs list) \<Rightarrow> 'u list \<Rightarrow> fs \<Rightarrow> bool" where
  "session_admitted ok moves [] fs = True"
| "session_admitted ok moves (u # us) fs =
     (ok u fs \<and> session_admitted ok moves us (last (fs # moves u fs)))"

locale confined =
  fixes moves :: "'u \<Rightarrow> fs \<Rightarrow> fs list" and ok :: "'u \<Rightarrow> fs \<Rightarrow> bool" and r :: fpath
  assumes below: "workspace fs r \<Longrightarrow> ok u fs \<Longrightarrow> s \<in> set (moves u fs) \<Longrightarrow> changes_below r fs s"
    and tree: "workspace fs r \<Longrightarrow> ok u fs \<Longrightarrow> s \<in> set (moves u fs) \<Longrightarrow> wf_fs s"
begin

lemma call_keeps_workspace:
  assumes "workspace fs r" and "ok u fs" and "s \<in> set (fs # moves u fs)"
  shows "workspace s r \<and> changes_below r fs s"
  using assms below [OF assms(1,2), of s] tree [OF assms(1,2), of s]
  by (auto simp: workspace_def changes_below_refl changes_below_root)

lemma session_confined:
  assumes "workspace fs r" and "session_admitted ok moves us fs" and "s \<in> set (session_states moves us fs)"
  shows "workspace s r \<and> changes_below r fs s"
  using assms
proof (induction us arbitrary: fs)
  case (Cons u us)
  let ?fs = "last (fs # moves u fs)"
  have ok: "ok u fs" "session_admitted ok moves us ?fs" using Cons.prems(2) by simp_all
  have *: "workspace s r \<and> changes_below r fs s" if "s \<in> set (fs # moves u fs)" for s
    using call_keeps_workspace [OF Cons.prems(1) ok(1) that] .
  have end_: "workspace ?fs r \<and> changes_below r fs ?fs" by (rule *) (rule last_in_set, simp)
  from Cons.prems(3) consider "s \<in> set (moves u fs)" | "s \<in> set (session_states moves us ?fs)" by auto
  then show ?case
  proof cases
    case 1
    then show ?thesis using * by simp
  next
    case 2
    then show ?thesis using Cons.IH [OF _ ok(2)] end_ changes_below_trans by blast
  qed
qed simp

end

section \<open>The calls of the server\<close>

text \<open>A call with what its environment decides: the random string and the faults.\<close>

datatype tool_use =
    UseRead read_params
  | UseWrite write_params rstr "io_error option" faults
  | UseEdit edit_params rstr faults

fun use_states :: "(rchar \<Rightarrow> rstr) \<Rightarrow> differ \<Rightarrow> config \<Rightarrow> tool_use \<Rightarrow> fs \<Rightarrow> fs list" where
  "use_states nfkc df config (UseRead params) fs = []"
| "use_states nfkc df config (UseWrite params rnd mf fl) fs = snd (server_write config fs fs params rnd mf fl)"
| "use_states nfkc df config (UseEdit params rnd fl) fs = snd (server_edit nfkc df config fs fs params rnd fl)"

text \<open>
  What is asked of a call that the sandbox lets through: it does not name the workspace itself, no
  prefix of it runs out of links, and the temporary name is random and free.
\<close>

definition path_names :: "path \<Rightarrow> fpath" where
  "path_names p = concat (map (\<lambda>c. case c of Normal n \<Rightarrow> [n] | _ \<Rightarrow> []) p)"

lemma path_names_abs_path [simp]: "path_names (abs_path x) = x"
proof -
  have "concat (map (\<lambda>c. case c of Normal n \<Rightarrow> [n] | _ \<Rightarrow> []) (map Normal x)) = x" by (induction x) auto
  then show ?thesis by (simp add: path_names_def abs_path_def)
qed

definition change_admitted :: "fpath \<Rightarrow> rstr \<Rightarrow> rstr \<Rightarrow> fs \<Rightarrow> bool" where
  "change_admitted r path rnd fs \<longleftrightarrow>
     (case resolve_in_workspace fs (abs_path r) path of
        Inl _ \<Rightarrow> True
      | Inr target \<Rightarrow>
          (let x = path_names target; p = lexical_normalize (path_join (abs_path r) path)
           in x \<noteq> r \<and> (\<forall>k \<in> set [0..<Suc (length p)]. canonicalize fs (take k p) \<noteq> Inl ELOOP) \<and>
              (\<forall>c \<in> set rnd. is_hexdigit c) \<and> fs (butlast x @ [temp_name (last x) rnd]) = None))"

fun use_admitted :: "config \<Rightarrow> tool_use \<Rightarrow> fs \<Rightarrow> bool" where
  "use_admitted config (UseRead params) fs = True"
| "use_admitted config (UseWrite params rnd mf fl) fs = change_admitted (cf_workspace config) (wp_path params) rnd fs"
| "use_admitted config (UseEdit params rnd fl) fs = change_admitted (cf_workspace config) (ep_path params) rnd fs"

lemma change_admitted_cases:
  assumes "workspace fs r" and "change_admitted r path rnd fs"
  obtains (refused) e where "resolve_in_workspace fs (abs_path r) path = Inl e"
  | (setting) d n where "write_setting fs r path d n rnd" "d @ [n] \<noteq> r" "prefix r d"
proof (cases "resolve_in_workspace fs (abs_path r) path")
  case (Inl e)
  then show thesis by (rule refused)
next
  case (Inr target)
  obtain x where x: "target = abs_path x" "prefix r x"
    by (rule resolve_in_workspace_Inr [OF Inr]) simp
  have c: "x \<noteq> r" "(\<forall>c \<in> set rnd. is_hexdigit c)" "fs (butlast x @ [temp_name (last x) rnd]) = None"
    "\<forall>k \<in> set [0..<Suc (length (lexical_normalize (path_join (abs_path r) path)))].
       canonicalize fs (take k (lexical_normalize (path_join (abs_path r) path))) \<noteq> Inl ELOOP"
    using assms(2) Inr x(1) by (simp_all add: change_admitted_def Let_def)
  have ne: "x \<noteq> []" using c(1) x(2) by auto
  then have split: "butlast x @ [last x] = x" by simp
  have "write_setting fs r path (butlast x) (last x) rnd"
    using assms(1) Inr x(1) c(2,3) no_eloop_check [OF c(4)] split by (simp add: write_setting_def)
  moreover have "prefix r (butlast x)"
    using x(2) c(1) prefix_snoc [of r "butlast x" "last x"] split by simp
  ultimately show thesis using c(1) split by (intro setting [of "butlast x" "last x"]) simp_all
qed

lemma below_temp: "prefix r d \<Longrightarrow> r \<noteq> d @ [m]"
  by (auto simp: prefix_def)

lemma write_confined:
  assumes "workspace fs r" and "change_admitted r (wp_path params) rnd fs"
    and "write_run (abs_path r) fs fs params rnd mf fl = (result, hist)" and "s \<in> set hist"
  shows "changes_below r fs s \<and> wf_fs s"
  using assms(1,2)
proof (cases rule: change_admitted_cases)
  case (refused e)
  then show ?thesis using assms(3,4) by (simp add: write_run_def)
next
  case (setting d n)
  have root: "fs r \<noteq> None" using assms(1) by (simp add: workspace_def)
  have "strict_prefix r q" if "s q \<noteq> fs q" for q
  proof -
    have "prefix r q \<and> (q = d @ [n] \<or> q = d @ [temp_name n rnd] \<or> fs q = None \<and> s q = Some Dir \<and> prefix q d)"
      using write_run_differences [OF setting(1,2) assms(3)] assms(4) that by blast
    then show ?thesis using root setting(2) below_temp [OF setting(3)] by (auto simp: strict_prefix_def)
  qed
  then show ?thesis using write_run_wf [OF setting(1) assms(3,4)] by (simp add: changes_below_def)
qed

lemma edit_confined:
  assumes "workspace fs r" and "change_admitted r (ep_path params) rnd fs"
    and "edit_run nfkc df (abs_path r) fs fs params rnd fl = (result, hist)" and "s \<in> set hist"
  shows "changes_below r fs s \<and> wf_fs s"
  using assms(1,2)
proof (cases rule: change_admitted_cases)
  case (refused e)
  then show ?thesis using assms(3,4) by (auto simp: edit_run_def Let_def split: if_splits)
next
  case (setting d n)
  have "prefix r q \<and> (q = d @ [n] \<or> q = d @ [temp_name n rnd])" if "s q \<noteq> fs q" for q
    using edit_run_states [OF setting(1) assms(3)] assms(4) that by blast
  then have "strict_prefix r q" if "s q \<noteq> fs q" for q
    using that setting(2) below_temp [OF setting(3)] by (auto simp: strict_prefix_def)
  then show ?thesis using edit_run_wf [OF setting(1) assms(3,4)] by (simp add: changes_below_def)
qed

interpretation tools: confined "use_states nfkc df config" "use_admitted config" "cf_workspace config"
proof unfold_locales
  fix fs u s
  assume a: "workspace fs (cf_workspace config)" "use_admitted config u fs" "s \<in> set (use_states nfkc df config u fs)"
  have "changes_below (cf_workspace config) fs s \<and> wf_fs s"
  proof (cases u)
    case (UseWrite params rnd mf fl)
    then show ?thesis using a write_confined [OF a(1), of params rnd mf fl]
      by (auto simp: server_write_def split: prod.splits)
  next
    case (UseEdit params rnd fl)
    then show ?thesis using a edit_confined [OF a(1), of params rnd nfkc df fl]
      by (auto simp: server_edit_def split: prod.splits)
  qed (use a in simp)
  then show "changes_below (cf_workspace config) fs s" "wf_fs s" by simp_all
qed

text \<open>
  C3: Read, write and edit calls that are made one after the other leave the rest of the machine as it
  was. The configuration read from the environment names a workspace, and in every state that such a
  sequence goes through, failures and faults included, the workspace is still a directory of a
  well-formed tree and only entries strictly below it differ from the start. What is asked of each
  write and edit, when its turn comes, is that the path the sandbox accepts is not the workspace
  itself and does not run out of links, and that the temporary name is free; nobody else changes the
  tree between the resolution of a path and the write. Each of these is needed:
  \<open>write_to_workspace_leaves_it\<close>, \<open>link_limit_escape\<close>, \<open>link_after_resolution_leads_out\<close>. Paths that the
  sandbox refuses, and reads, may be anything.
\<close>

theorem sessions_stay_in_workspace:
  assumes "wf_fs fs0" and "\<forall>d. cwd = Some d \<longrightarrow> workspace fs0 d"
    and "from_env env cwd fs0 = Some (Inr config, fs)"
    and "session_admitted (use_admitted config) (use_states nfkc df config) uses fs"
    and "s \<in> set (session_states (use_states nfkc df config) uses fs)"
  shows "workspace s (cf_workspace config) \<and> (\<forall>q. s q \<noteq> fs q \<longrightarrow> strict_prefix (cf_workspace config) q)"
  using tools.session_confined [OF from_env_workspace [OF assms(1) _ assms(3)] assms(4,5)] assms(2)
  by (auto simp: changes_below_def)

text \<open>Two calls that change something, one that is refused and one that only reads.\<close>

definition demo_uses :: "tool_use list" where
  "demo_uses =
     [UseWrite \<lparr>wp_path = lit ''a/b'', wp_content = lit ''one''\<rparr> (lit ''00'') None no_faults,
      UseWrite \<lparr>wp_path = lit ''../x'', wp_content = lit ''out''\<rparr> (lit ''01'') None no_faults,
      UseEdit \<lparr>ep_path = lit ''a/b'', ep_edits = [\<lparr>old_text = lit ''one'', new_text = lit ''two''\<rparr>]\<rparr> (lit ''02'') no_faults,
      UseRead \<lparr>rp_path = lit ''a/b'', rp_offset = None, rp_limit = None\<rparr>]"

theorem sessions_stay_in_workspace_witness:
  "\<exists>config fs s. from_env env_sample (Some [lit ''home'']) config_fs = Some (Inr config, fs) \<and>
     s = last (session_states (use_states (\<lambda>c. [c]) no_differ config) demo_uses fs) \<and>
     s (cf_workspace config @ [lit ''a'', lit ''b'']) = Some (File (utf8_encode (lit ''two''))) \<and>
     workspace s (cf_workspace config) \<and> (\<forall>q. s q \<noteq> fs q \<longrightarrow> strict_prefix (cf_workspace config) q)"
proof -
  let ?r = "from_env env_sample (Some [lit ''home'']) config_fs"
  let ?st = "\<lambda>c. use_states (\<lambda>c. [c]) no_differ c"
  have "(case ?r of Some (Inr c, fs) \<Rightarrow> session_admitted (use_admitted c) (?st c) demo_uses fs \<and>
      (let ss = session_states (?st c) demo_uses fs
       in ss \<noteq> [] \<and> last ss (cf_workspace c @ [lit ''a'', lit ''b'']) = Some (File (utf8_encode (lit ''two''))))
     | _ \<Rightarrow> False)"
    by code_simp
  then obtain c fs where r: "?r = Some (Inr c, fs)" "session_admitted (use_admitted c) (?st c) demo_uses fs"
      "session_states (?st c) demo_uses fs \<noteq> []"
      "last (session_states (?st c) demo_uses fs) (cf_workspace c @ [lit ''a'', lit ''b''])
       = Some (File (utf8_encode (lit ''two'')))"
    by (cases ?r; cases "fst (the ?r)") (auto simp: Let_def)
  have wf: "wf_fs config_fs" unfolding config_fs_def by (rule wf_fs_map_of) code_simp
  then have "\<forall>d. Some [lit ''home''] = Some d \<longrightarrow> workspace config_fs d"
    by (simp add: workspace_def config_fs_def lit_def)
  from sessions_stay_in_workspace [OF wf this r(1,2) last_in_set [OF r(3)]] r(1,4) show ?thesis by blast
qed

section \<open>Calls that overlap\<close>

text \<open>
  That the calls come one after the other is needed. \<^theory_text>\<open>write.rs\<close> resolves the path before it takes
  the lock, although its comment has nothing between the resolution and the rename: when a command
  puts a link in place of a directory that was missing, the write follows it out of the workspace.
\<close>

definition race_tree :: "(fpath \<times> node) list" where
  "race_tree = [([], Dir), ([lit ''ws''], Dir), ([lit ''out''], Dir)]"

lemma link_after_resolution_leads_out:
  "let fs0 = map_of race_tree; fs = fs0([lit ''ws'', lit ''a''] \<mapsto> Link (lit ''/out''));
       params = \<lparr>wp_path = lit ''a/b'', wp_content = lit ''x''\<rparr>
   in (case write_run (abs_path [lit ''ws'']) fs0 fs params (lit ''00'') None no_faults of
         (Inr _, hist) \<Rightarrow> last hist [lit ''out'', lit ''b''] = Some (File (utf8_encode (lit ''x''))) | _ \<Rightarrow> False) \<and>
      isl (fst (write_run (abs_path [lit ''ws'']) fs fs params (lit ''00'') None no_faults))"
  by code_simp

end
