(* ===== verification/Bash_Call.thy ===== *)
theory Bash_Call
  imports Bash_Tool
begin

text \<open>
  A whole call of \<^theory_text>\<open>bash::run\<close>: the life of the command, the two readers of its output and the
  report, running together. The parts are those of \<^theory_text>\<open>Process_Group\<close>, \<^theory_text>\<open>Output_Collector\<close> and
  \<^theory_text>\<open>Bash_Tool\<close>; here every interleaving of them is a run, and what a part shows of its own runs
  carries over because each run of the call projects to a run of the part.
\<close>

section \<open>The call\<close>

text \<open>
  \<open>bc_answer\<close> is the last answer about the child and whether it came in time, \<open>bc_result\<close> what the
  function returned, with the saved log.
\<close>

record bash_call =
  bc_process :: run_state
  bc_output :: collector
  bc_answer :: "(bool \<times> (io_error + exit_status)) option"
  bc_result :: "((bash_error + bash_output) \<times> (rstr \<times> byte list) option) option option"

definition bash_call_start :: "u32 option \<Rightarrow> nat \<Rightarrow> bash_call" where
  "bash_call_start pid n =
     \<lparr>bc_process = run_start pid, bc_output = collector_start n, bc_answer = None, bc_result = None\<rparr>"

text \<open>
  The readers run until the call returns and takes what they have pushed. The report comes when the
  readers are done or after two seconds, so nothing is asked of them.
\<close>

inductive call_step ::
  "duration option \<Rightarrow> u32 option \<Rightarrow> rstr \<Rightarrow> io_error + unit \<Rightarrow> bash_call \<Rightarrow> bash_call \<Rightarrow> bool"
  for timeout pid rnd save where
  reaped: "\<lbrakk>rs_phase (bc_process s) = Waiting; run_step (timeout \<noteq> None) (bc_process s) p;
      rs_phase p = Draining (exit_code_of status) False\<rbrakk> \<Longrightarrow>
    call_step timeout pid rnd save s (s\<lparr>bc_process := p, bc_answer := Some (True, Inr status)\<rparr>)"
| limit_over: "\<lbrakk>run_step (timeout \<noteq> None) (bc_process s) p; rs_phase p = Killing\<rbrakk> \<Longrightarrow>
    call_step timeout pid rnd save s (s\<lparr>bc_process := p\<rparr>)"
| killed: "\<lbrakk>rs_phase (bc_process s) = Killing; run_step (timeout \<noteq> None) (bc_process s) p;
      rs_phase p = Draining code True\<rbrakk> \<Longrightarrow>
    call_step timeout pid rnd save s (s\<lparr>bc_process := p, bc_answer := Some (False, Inr status)\<rparr>)"
| failed: "\<lbrakk>rs_phase (bc_process s) = Waiting \<or> rs_phase (bc_process s) = Killing;
      run_step (timeout \<noteq> None) (bc_process s) p; rs_phase p = Returned\<rbrakk> \<Longrightarrow>
    call_step timeout pid rnd save s
      (s\<lparr>bc_process := p,
         bc_result := Some (bash_run (Inr pid) timeout (rs_phase (bc_process s) = Waiting) (Inl e)
           (co_chunks (bc_output s)) rnd save)\<rparr>)"
| report: "\<lbrakk>rs_phase (bc_process s) = Draining code late; run_step (timeout \<noteq> None) (bc_process s) p;
      rs_phase p = Returned; bc_answer s = Some (in_time, answer)\<rbrakk> \<Longrightarrow>
    call_step timeout pid rnd save s
      (s\<lparr>bc_process := p,
         bc_result := Some (bash_run (Inr pid) timeout in_time answer (co_chunks (bc_output s)) rnd save)\<rparr>)"
| cancelled: "\<lbrakk>run_step (timeout \<noteq> None) (bc_process s) p; rs_phase p = Cancelled\<rbrakk> \<Longrightarrow>
    call_step timeout pid rnd save s (s\<lparr>bc_process := p\<rparr>)"
| gathered: "\<lbrakk>rs_phase (bc_process s) \<noteq> Returned; collect_step (bc_output s) c\<rbrakk> \<Longrightarrow>
    call_step timeout pid rnd save s (s\<lparr>bc_output := c\<rparr>)"

inductive call_reach ::
  "duration option \<Rightarrow> u32 option \<Rightarrow> rstr \<Rightarrow> io_error + unit \<Rightarrow> nat \<Rightarrow> bash_call \<Rightarrow> bool"
  for timeout pid rnd save n where
  start: "call_reach timeout pid rnd save n (bash_call_start pid n)"
| step: "call_reach timeout pid rnd save n s \<Longrightarrow> call_step timeout pid rnd save s s' \<Longrightarrow>
    call_reach timeout pid rnd save n s'"

section \<open>Runs of the call and of its parts\<close>

lemma call_step_projects:
  "call_step timeout pid rnd save s s' \<Longrightarrow>
     run_step (timeout \<noteq> None) (bc_process s) (bc_process s') \<and> bc_output s' = bc_output s \<or>
     bc_process s' = bc_process s \<and> collect_step (bc_output s) (bc_output s')"
  by (induction rule: call_step.induct) auto

lemma call_reach_projects:
  "call_reach timeout pid rnd save n s \<Longrightarrow>
     run_reach (timeout \<noteq> None) pid (bc_process s) \<and> collect_reach n (bc_output s)"
proof (induction rule: call_reach.induct)
  case start
  then show ?case by (simp add: bash_call_start_def run_reach.start collect_reach.start)
next
  case (step s s')
  from call_step_projects [OF step.hyps(2)] step.IH show ?case
    by (metis run_reach.step collect_reach.step)
qed

text \<open>
  What is known of the child and what has been killed when a call is about to report, and what a
  report can be: a failed wait, or the outcome of a command that was reaped in time or killed.
\<close>

definition ended :: "duration option \<Rightarrow> u32 option \<Rightarrow> kills \<Rightarrow> int \<Rightarrow> bool \<Rightarrow> exit_status \<Rightarrow> bool" where
  "ended timeout pid kills code late status \<longleftrightarrow>
     wait_command timeout (\<not> late) (Inr status) = Inr (code, late) \<and>
     (if late then (\<forall>p. pid = Some p \<longrightarrow> sint p \<in> set kills) else kills = [])"

definition draining_ok :: "duration option \<Rightarrow> u32 option \<Rightarrow> bash_call \<Rightarrow> int \<Rightarrow> bool \<Rightarrow> bool" where
  "draining_ok timeout pid s code late \<longleftrightarrow> gc_defused (rs_child (bc_process s)) \<and>
     (\<exists>status. bc_answer s = Some (\<not> late, Inr status) \<and>
        ended timeout pid (rs_kills (bc_process s)) code late status)"

definition report_ok ::
  "duration option \<Rightarrow> u32 option \<Rightarrow> rstr \<Rightarrow> io_error + unit \<Rightarrow> bash_call
     \<Rightarrow> ((bash_error + bash_output) \<times> (rstr \<times> byte list) option) option \<Rightarrow> bool" where
  "report_ok timeout pid rnd save s r \<longleftrightarrow>
     (\<exists>e. r = Some (Inl (WaitFailed e), None) \<or> r = Some (Inl (KillFailed e), None)) \<or>
     (\<exists>code late status. bc_answer s = Some (\<not> late, Inr status) \<and>
        ended timeout pid (rs_kills (bc_process s)) code late status \<and>
        r = bash_run (Inr pid) timeout (\<not> late) (Inr status) (co_chunks (bc_output s)) rnd save)"

definition call_ok :: "duration option \<Rightarrow> u32 option \<Rightarrow> rstr \<Rightarrow> io_error + unit \<Rightarrow> bash_call \<Rightarrow> bool" where
  "call_ok timeout pid rnd save s \<longleftrightarrow>
     gc_pid (rs_child (bc_process s)) = pid \<and>
     (case rs_phase (bc_process s) of
        Waiting \<Rightarrow> rs_kills (bc_process s) = [] \<and> bc_result s = None
      | Killing \<Rightarrow> timeout \<noteq> None \<and> (\<forall>p. pid = Some p \<longrightarrow> sint p \<in> set (rs_kills (bc_process s))) \<and> bc_result s = None
      | Draining code late \<Rightarrow> draining_ok timeout pid s code late \<and> bc_result s = None
      | Returned \<Rightarrow> \<exists>r. bc_result s = Some r \<and> report_ok timeout pid rnd save s r
      | Cancelled \<Rightarrow> bc_result s = None)"

lemma bash_run_failed:
  "\<exists>e'. bash_run (Inr pid) timeout in_time (Inl e) chunks rnd save = Some (Inl e', None) \<and> e' \<in> {WaitFailed e, KillFailed e}"
  by (cases timeout) (simp_all add: bash_run_def spawn_bash_def wait_command_def)

lemma call_ok_start: "call_ok timeout pid rnd save (bash_call_start pid n)"
  by (simp add: call_ok_def bash_call_start_def run_start_def)

lemma call_ok_step:
  assumes "call_step timeout pid rnd save s s'" and "call_ok timeout pid rnd save s"
  shows "call_ok timeout pid rnd save s'"
  using assms
proof (induction rule: call_step.induct)
  case (reaped s p status)
  show ?case
    by (rule run_stepE [OF reaped.hyps(2)])
      (use reaped in \<open>auto simp: call_ok_def draining_ok_def ended_def wait_command_def guard_defs leave_def split: option.splits\<close>)
next
  case (limit_over s p)
  show ?case
    by (rule run_stepE [OF limit_over.hyps(1)])
      (use limit_over in \<open>auto simp: call_ok_def guard_defs leave_def split: option.splits\<close>)
next
  case (killed s p code status)
  show ?case
    by (rule run_stepE [OF killed.hyps(2)])
      (use killed in \<open>auto simp: call_ok_def draining_ok_def ended_def wait_command_def guard_defs leave_def split: option.splits\<close>)
next
  case (failed s p e)
  obtain e' where e': "bash_run (Inr pid) timeout (rs_phase (bc_process s) = Waiting) (Inl e)
      (co_chunks (bc_output s)) rnd save = Some (Inl e', None)" "e' \<in> {WaitFailed e, KillFailed e}"
    using bash_run_failed by blast
  have "gc_pid (rs_child p) = pid"
    by (rule run_stepE [OF failed.hyps(2)])
      (use failed in \<open>auto simp: call_ok_def guard_defs leave_def\<close>)
  then show ?case using failed.hyps(3) e' by (auto simp: call_ok_def report_ok_def)
next
  case (report s code late p in_time answer)
  have ok: "draining_ok timeout pid s code late" "gc_pid (rs_child (bc_process s)) = pid"
    using report by (simp_all add: call_ok_def)
  have p: "p = leave Returned (bc_process s)"
    by (rule run_stepE [OF report.hyps(2)]) (use report.hyps(1,3) in \<open>auto simp: leave_def\<close>)
  have kills: "rs_kills p = rs_kills (bc_process s)" "gc_pid (rs_child p) = pid"
    using ok unfolding p by (simp_all add: leave_def gc_drop_def draining_ok_def)
  obtain status where st: "in_time = (\<not> late)" "answer = Inr status"
      "ended timeout pid (rs_kills (bc_process s)) code late status" "bc_answer s = Some (\<not> late, Inr status)"
    using ok(1) report.hyps(4) by (auto simp: draining_ok_def)
  let ?r = "bash_run (Inr pid) timeout in_time answer (co_chunks (bc_output s)) rnd save"
  have "report_ok timeout pid rnd save (s\<lparr>bc_process := p, bc_result := Some ?r\<rparr>) ?r"
    unfolding report_ok_def using kills(1) st
    by (intro disjI2 exI [of _ code] exI [of _ late] exI [of _ status]) simp
  then show ?case using kills(2) report.hyps(3) by (simp add: call_ok_def)
next
  case (cancelled s p)
  show ?case
    by (rule run_stepE [OF cancelled.hyps(1)])
      (use cancelled in \<open>auto simp: call_ok_def leave_def guard_defs split: phase.splits\<close>)
next
  case (gathered s c)
  then show ?case by (auto simp: call_ok_def draining_ok_def split: phase.splits)
qed

lemma call_reach_ok: "call_reach timeout pid rnd save n s \<Longrightarrow> call_ok timeout pid rnd save s"
  by (induction rule: call_reach.induct) (auto intro: call_ok_start call_ok_step)


text \<open>The composition takes nothing away: a step of the command is a step of the call.\<close>

lemma call_step_complete:
  assumes "call_ok timeout pid rnd save s" and "run_step (timeout \<noteq> None) (bc_process s) p"
  shows "\<exists>s'. call_step timeout pid rnd save s s' \<and> bc_process s' = p"
proof -
  have c1: "\<exists>s'. call_step timeout pid rnd save s s' \<and> bc_process s' = p" if "rs_phase p = Cancelled"
    using cancelled [OF assms(2) that, of pid rnd save] by force
  have c2: "\<exists>s'. call_step timeout pid rnd save s s' \<and> bc_process s' = p" if "rs_phase p = Killing"
    using limit_over [OF assms(2) that, of pid rnd save] by force
  have c3: "\<exists>s'. call_step timeout pid rnd save s s' \<and> bc_process s' = p"
    if "rs_phase (bc_process s) = Waiting" "rs_phase p = Draining (exit_code_of status) False" for status
    using reaped [OF that(1) assms(2) that(2), of pid rnd save] by force
  have c4: "\<exists>s'. call_step timeout pid rnd save s s' \<and> bc_process s' = p"
    if "rs_phase (bc_process s) = Killing" "rs_phase p = Draining 124 True"
    using killed [OF that(1) assms(2) that(2), of pid rnd save OtherStatus] by force
  have c5: "\<exists>s'. call_step timeout pid rnd save s s' \<and> bc_process s' = p"
    if "rs_phase (bc_process s) = Waiting \<or> rs_phase (bc_process s) = Killing" "rs_phase p = Returned"
    using failed [OF that(1) assms(2) that(2), of pid rnd save ENOENT] by force
  have c6: "\<exists>s'. call_step timeout pid rnd save s s' \<and> bc_process s' = p"
    if "rs_phase (bc_process s) = Draining code late" "rs_phase p = Returned" for code late
  proof -
    note ph = that
    obtain status where "bc_answer s = Some (\<not> late, Inr status)"
      using assms(1) ph(1) by (auto simp: call_ok_def draining_ok_def)
    from report [OF ph(1) assms(2) ph(2) this, of pid rnd save] show ?thesis by force
  qed
  show ?thesis
    using assms(2)
  proof (cases rule: run_step.cases)
    case (wait_ok status child)
    then show ?thesis by (intro c3 [of status]) simp_all
  next
    case (wait_err e child)
    then show ?thesis by (intro c5) (simp_all add: leave_def)
  next
    case timeout
    then show ?thesis by (intro c2) simp
  next
    case (kill_ok status child)
    then show ?thesis by (intro c4) simp_all
  next
    case (kill_err e child)
    then show ?thesis by (intro c5) (simp_all add: leave_def)
  next
    case (finish code late)
    then show ?thesis by (intro c6 [of code late]) (simp_all add: leave_def)
  next
    case cancel
    then show ?thesis by (intro c1) (simp add: leave_def)
  qed
qed

section \<open>What a call reports\<close>

text \<open>
  The output of a report against the bytes of the two streams: the views of both, and the log, or
  when there is none the whole of a successful command's output, with both streams in their order.
\<close>

definition shows_streams :: "(bool \<Rightarrow> byte list) \<Rightarrow> bash_output \<Rightarrow> (rstr \<times> byte list) option \<Rightarrow> bool" where
  "shows_streams got out saved \<longleftrightarrow>
     stream_view (utf8_lossy (got False)) = Some (bo_stdout out) \<and>
     stream_view (utf8_lossy (got True)) = Some (bo_stderr out) \<and>
     bo_full_output_log out = map_option fst saved \<and>
     (\<exists>all \<in> shuffles (got False) (got True).
        (\<forall>path bytes. saved = Some (path, bytes) \<longrightarrow> bytes = all) \<and>
        (saved = None \<and> bo_timed_out out = None \<and> bo_exit_code out = 0 \<and> utf8_lossy all \<noteq> [] \<longrightarrow>
           bo_output out = utf8_lossy all))"

text \<open>The exit code of a report against what became of the command.\<close>

definition true_exit :: "duration option \<Rightarrow> u32 option \<Rightarrow> bash_call \<Rightarrow> bash_output \<Rightarrow> bool" where
  "true_exit timeout pid s out \<longleftrightarrow>
     (if bo_timed_out out = None
      then rs_kills (bc_process s) = [] \<and>
           (\<exists>status. bc_answer s = Some (True, Inr status) \<and> bo_exit_code out = exit_code_of status)
      else timeout \<noteq> None \<and> bo_exit_code out = 124 \<and>
           (\<forall>p. pid = Some p \<longrightarrow> sint p \<in> set (rs_kills (bc_process s))))"

lemma finished_report:
  assumes "wait_command timeout in_time answer = Inr (code, late)"
    and "bash_run (Inr pid) timeout in_time answer chunks rnd save = Some (Inr out, saved)"
  shows "shows_streams (\<lambda>b. stream_bytes b (merge_chunks chunks)) out saved \<and>
    bo_exit_code out = code \<and> bo_timed_out out = (if late then Some True else None)"
proof -
  let ?m = "merge_chunks chunks"
  obtain t o1 o2 where t: "\<not> t_truncated t \<Longrightarrow> t_text t = utf8_lossy (combined_bytes ?m)"
    and o: "stream_view (utf8_lossy (stream_bytes False ?m)) = Some o1"
      "stream_view (utf8_lossy (stream_bytes True ?m)) = Some o2"
    and run: "bash_run (Inr pid) timeout in_time answer chunks rnd save =
      (if t_truncated t \<and> isl save then Some (Inl (SaveFailed (log_path_of rnd) (projl save)), None)
       else (let lp = (if t_truncated t then Some (log_path_of rnd) else None)
             in Some (Inr \<lparr>bo_exit_code = code,
                  bo_output = shown_text t (count_lines (utf8_lossy (combined_bytes ?m))) lp late timeout code,
                  bo_stdout = o1, bo_stderr = o2, bo_full_output_log = lp,
                  bo_timed_out = (if late then Some True else None)\<rparr>,
                map_option (\<lambda>path. (path, combined_bytes ?m)) lp)))"
    by (rule bash_run_finished [OF assms(1), of chunks pid rnd save]) blast
  define lp where "lp = (if t_truncated t then Some (log_path_of rnd) else None)"
  have "Some (Inr out :: bash_error + bash_output, saved) = Some (Inr \<lparr>bo_exit_code = code,
      bo_output = shown_text t (count_lines (utf8_lossy (combined_bytes ?m))) lp late timeout code,
      bo_stdout = o1, bo_stderr = o2, bo_full_output_log = lp,
      bo_timed_out = (if late then Some True else None)\<rparr>, map_option (\<lambda>path. (path, combined_bytes ?m)) lp)"
    using run unfolding assms(2) Let_def lp_def [symmetric]
    by (cases "t_truncated t \<and> isl save") (simp_all only: if_True if_False option.inject prod.inject sum.distinct simp_thms)
  then have out: "out = \<lparr>bo_exit_code = code,
      bo_output = shown_text t (count_lines (utf8_lossy (combined_bytes ?m))) lp late timeout code,
      bo_stdout = o1, bo_stderr = o2, bo_full_output_log = lp,
      bo_timed_out = (if late then Some True else None)\<rparr>"
    and saved: "saved = map_option (\<lambda>path. (path, combined_bytes ?m)) lp" by simp_all
  have "bo_output out = utf8_lossy (combined_bytes ?m)"
    if "lp = None" "\<not> late" "code = 0" "utf8_lossy (combined_bytes ?m) \<noteq> []"
    using that t shown_text_plain [of t] by (simp add: out lp_def split: if_splits)
  then have "shows_streams (\<lambda>b. stream_bytes b ?m) out saved"
    unfolding shows_streams_def using o combined_in_shuffles [of ?m]
    by (intro conjI bexI [of _ "combined_bytes ?m"]) (auto simp: out saved option.map_comp comp_def option.map_ident)
  then show ?thesis by (simp add: out)
qed

lemma finished_no_panic:
  assumes "wait_command timeout in_time answer = Inr (code, late)"
  shows "\<exists>result saved. bash_run (Inr pid) timeout in_time answer chunks rnd save = Some (result, saved)"
  by (rule bash_run_finished [OF assms, of chunks pid rnd save]) (simp add: Let_def)

lemma ended_exit:
  assumes "bc_answer s = Some (\<not> late, Inr status)" and "ended timeout pid (rs_kills (bc_process s)) code late status"
    and "bo_exit_code out = code" and "bo_timed_out out = (if late then Some True else None)"
  shows "true_exit timeout pid s out"
  using assms by (auto simp: true_exit_def ended_def wait_command_def split: option.splits if_splits)

text \<open>
  C17: The report of a \<^theory_text>\<open>bash\<close> call is true, however the command, its two readers and the limits
  interleave. The call does not panic. The streams it shows are those that were pushed, which is all
  that was read but for a piece a reader still held; the log has both streams, each in its order;
  output that fits is shown in full when the command succeeds. An exit code that is not marked as a
  timeout is the one the child was reaped with, and nothing has been killed; a timeout is reported
  as 124, only if a limit was set, and only after the whole process group was killed.
\<close>

theorem bash_call_reports:
  assumes "call_reach timeout pid rnd save n s" and "bc_result s = Some r"
  shows "\<exists>result saved got. r = Some (result, saved) \<and>
    (\<forall>b. got b @ in_flight (co_reader (bc_output s) b) = co_read (bc_output s) b) \<and>
    (\<forall>out. result = Inr out \<longrightarrow> shows_streams got out saved \<and> true_exit timeout pid s out)"
proof -
  let ?got = "\<lambda>b. stream_bytes b (merge_chunks (co_chunks (bc_output s)))"
  have "co_ok (bc_output s)" using call_reach_projects [OF assms(1)] collect_reach_ok by blast
  then have got: "\<forall>b. ?got b @ in_flight (co_reader (bc_output s) b) = co_read (bc_output s) b"
    using merged_streams by blast
  have "report_ok timeout pid rnd save s r"
    using call_reach_ok [OF assms(1)] assms(2) by (auto simp: call_ok_def split: phase.splits)
  then consider e where "r = Some (Inl e, None)"
    | code late status where "bc_answer s = Some (\<not> late, Inr status)"
      "ended timeout pid (rs_kills (bc_process s)) code late status"
      "r = bash_run (Inr pid) timeout (\<not> late) (Inr status) (co_chunks (bc_output s)) rnd save"
    unfolding report_ok_def by blast
  then show ?thesis
  proof cases
    case 1
    then show ?thesis using got by (intro exI [of _ "Inl e"] exI [of _ None] exI [of _ ?got]) simp
  next
    case 2
    have w: "wait_command timeout (\<not> late) (Inr status) = Inr (code, late)" using 2(2) by (simp add: ended_def)
    obtain result saved where r: "r = Some (result, saved)" using finished_no_panic [OF w] 2(3) by blast
    have "shows_streams ?got out saved \<and> true_exit timeout pid s out" if "result = Inr out" for out
    proof -
      have f: "shows_streams ?got out saved \<and> bo_exit_code out = code \<and>
          bo_timed_out out = (if late then Some True else None)"
        by (rule finished_report [OF w, of pid _ rnd save]) (use 2(3) r that in simp)
      then show ?thesis using ended_exit [OF 2(1,2), of out] by simp
    qed
    then show ?thesis using r got by (intro exI [of _ result] exI [of _ saved] exI [of _ ?got]) simp
  qed
qed

section \<open>A run\<close>

text \<open>The readers can do all of their work before anything is known of the command.\<close>

lemma gathered_first:
  "collect_reach n c \<Longrightarrow> call_reach timeout pid rnd save n ((bash_call_start pid n)\<lparr>bc_output := c\<rparr>)"
proof (induction rule: collect_reach.induct)
  case start
  then show ?case using call_reach.start [of timeout pid rnd save n] by (simp add: bash_call_start_def)
next
  case (step c c')
  let ?s = "(bash_call_start pid n)\<lparr>bc_output := c\<rparr>"
  have "call_step timeout pid rnd save ?s (?s\<lparr>bc_output := c'\<rparr>)"
    by (rule gathered) (use step.hyps(2) in \<open>simp_all add: bash_call_start_def run_start_def\<close>)
  then show ?case using call_reach.step [OF step.IH] by simp
qed

definition hi_output :: collector where
  "hi_output = \<lparr>co_seq = 6, co_chunks = [\<lparr>ck_seq = 5, ck_stderr = False, ck_bytes = [104, 105, 10]\<rparr>],
     co_reader = (\<lambda>_. Stopped), co_read = (\<lambda>b. if b then [] else [104, 105, 10])\<rparr>"

lemma hi_output_reached: "collect_reach 5 hi_output"
proof -
  define s1 where "s1 = (collector_start 5)\<lparr>co_reader := (\<lambda>_. Idle)(False := Got [104, 105, 10]),
    co_read := (\<lambda>_. [])(False := [104, 105, 10])\<rparr>"
  define s2 where "s2 = s1\<lparr>co_reader := (co_reader s1)(False := Numbered 5 [104, 105, 10]), co_seq := 6\<rparr>"
  define s3 where "s3 = s2\<lparr>co_reader := (co_reader s2)(False := Idle),
    co_chunks := [\<lparr>ck_seq = 5, ck_stderr = False, ck_bytes = [104, 105, 10]\<rparr>]\<rparr>"
  define s4 where "s4 = s3\<lparr>co_reader := (co_reader s3)(False := Stopped)\<rparr>"
  have "collect_step (collector_start 5) s1"
    using collect_step.read [of "collector_start 5" False "[104, 105, 10]"]
    by (simp add: s1_def collector_start_def BUFFER_SIZE_def)
  moreover have "collect_step s1 s2"
    using collect_step.number [of s1 False "[104, 105, 10]"] by (simp add: s1_def s2_def collector_start_def)
  moreover have "collect_step s2 s3"
    using collect_step.push [of s2 False 5 "[104, 105, 10]"] by (simp add: s1_def s2_def s3_def collector_start_def)
  moreover have "collect_step s3 s4"
    using collect_step.stop [of s3 False] by (simp add: s3_def s4_def)
  moreover have "s4\<lparr>co_reader := (co_reader s4)(True := Stopped)\<rparr> = hi_output"
    by (simp add: s1_def s2_def s3_def s4_def collector_start_def hi_output_def fun_eq_iff)
  then have "collect_step s4 hi_output"
    using collect_step.stop [of s4 True] by (simp add: s1_def s2_def s3_def s4_def collector_start_def)
  ultimately show ?thesis by (meson collect_reach.start collect_reach.step)
qed

theorem bash_call_reports_witness:
  "\<exists>s out. call_reach (Some (from_secs 2)) (Some 9) (lit ''ab'') (Inr ()) 5 s \<and>
     bc_result s = Some (Some (Inr out, None)) \<and> rs_kills (bc_process s) = [] \<and>
     bo_exit_code out = 3 \<and> bo_stdout out = lit ''hi'' @ [nl]"
proof -
  let ?reach = "call_reach (Some (from_secs 2)) (Some 9) (lit ''ab'') (Inr ()) 5"
  let ?step = "call_step (Some (from_secs 2)) (Some 9) (lit ''ab'') (Inr ())"
  define s1 where "s1 = (bash_call_start (Some 9) 5)\<lparr>bc_output := hi_output\<rparr>"
  define p2 where "p2 = \<lparr>rs_child = \<lparr>gc_pid = Some 9, gc_defused = True\<rparr>, rs_kills = [], rs_reaped = True,
    rs_phase = Draining 3 False\<rparr>"
  define s2 where "s2 = s1\<lparr>bc_process := p2, bc_answer := Some (True, Inr (Exited 3))\<rparr>"
  define r where "r = bash_run (Inr (Some 9)) (Some (from_secs 2)) True (Inr (Exited 3))
    (co_chunks hi_output) (lit ''ab'') (Inr ())"
  define s3 where "s3 = s2\<lparr>bc_process := leave Returned p2, bc_result := Some r\<rparr>"
  have code: "exit_code_of (Exited 3) = 3" by (simp add: exit_code_of_def status_code_def)
  have "?reach s1" unfolding s1_def by (rule gathered_first [OF hi_output_reached])
  moreover have "?step s1 s2"
    unfolding s2_def
  proof (rule reaped)
    show "rs_phase (bc_process s1) = Waiting" by (simp add: s1_def bash_call_start_def run_start_def)
    show "run_step (Some (from_secs 2) \<noteq> None) (bc_process s1) p2"
      using run_step.wait_ok [of "run_start (Some 9)" "Exited 3" "\<lparr>gc_pid = Some 9, gc_defused = True\<rparr>"] code
      by (simp add: s1_def bash_call_start_def run_start_def gc_wait_def p2_def)
    show "rs_phase p2 = Draining (exit_code_of (Exited 3)) False" by (simp add: p2_def code)
  qed
  moreover have "?step s2 s3"
    using report [of s2 3 False "Some (from_secs 2)" "leave Returned p2" True "Inr (Exited 3)"]
      run_step.finish [of p2 3 False]
    by (simp add: s3_def r_def s2_def s1_def p2_def leave_def)
  ultimately have reach: "?reach s3" by (meson call_reach.step)
  have "(case r of Some (Inr out, saved) \<Rightarrow> saved = None \<and> bo_timed_out out = None | _ \<Rightarrow> False)"
    unfolding r_def hi_output_def by code_simp
  then obtain out where out: "r = Some (Inr out, None)" "bo_timed_out out = None"
    by (cases r; cases "fst (the r)") auto
  have fin: "bc_result s3 = Some (Some (Inr out, None))" using out by (simp add: s3_def)
  have facts: "bc_answer s3 = Some (True, Inr (Exited 3))" "co_reader (bc_output s3) b = Stopped"
    "co_read (bc_output s3) False = [104, 105, 10]" for b
    by (simp_all add: s3_def s2_def s1_def hi_output_def)
  obtain got where "\<forall>b. got b @ in_flight (co_reader (bc_output s3) b) = co_read (bc_output s3) b"
      "stream_view (utf8_lossy (got False)) = Some (bo_stdout out)"
      "rs_kills (bc_process s3) = []"
      "\<exists>status. bc_answer s3 = Some (True, Inr status) \<and> bo_exit_code out = exit_code_of status"
    using bash_call_reports [OF reach fin] out(2) by (auto simp: shows_streams_def true_exit_def)
  moreover have "stream_view (utf8_lossy [104, 105, 10]) = Some (lit ''hi'' @ [nl])" by code_simp
  ultimately show ?thesis using reach fin facts code by (intro exI [of _ s3] exI [of _ out]) auto
qed

end
