(* ===== verification/Mutation_Queue.thy ===== *)
theory Mutation_Queue
  imports Paths
begin

text \<open>
  \<^theory_text>\<open>fs/mutation_queue.rs\<close>: a map from canonical paths to asynchronous mutexes. The mutexes are
  shared (\<^theory_text>\<open>Arc\<close>), so the map holds indices into a table of them; tokio's mutex hands over in the
  order of the requests. The contract of the queue is a line of tasks for each path, and the
  transactions of \<^theory_text>\<open>write\<close> and \<^theory_text>\<open>edit\<close> are proved correct against the contract alone.
\<close>

section \<open>The asynchronous mutex\<close>

type_synonym task = nat

record async_mutex =
  am_holder :: "task option"
  am_waiters :: "task list"

definition am_new :: async_mutex where
  "am_new = \<lparr>am_holder = None, am_waiters = []\<rparr>"

text \<open>\<^theory_text>\<open>lock_owned\<close>: the task gets the mutex at once or waits at the end.\<close>

definition am_lock :: "task \<Rightarrow> async_mutex \<Rightarrow> async_mutex" where
  "am_lock t m =
     (if am_holder m = None then m\<lparr>am_holder := Some t\<rparr>
      else m\<lparr>am_waiters := am_waiters m @ [t]\<rparr>)"

text \<open>Dropping the guard of the holder, or the future of a task that still waits.\<close>

definition am_drop :: "task \<Rightarrow> async_mutex \<Rightarrow> async_mutex" where
  "am_drop t m =
     (if am_holder m = Some t then
        (case am_waiters m of
           [] \<Rightarrow> m\<lparr>am_holder := None\<rparr>
         | u # us \<Rightarrow> m\<lparr>am_holder := Some u, am_waiters := us\<rparr>)
      else m\<lparr>am_waiters := remove1 t (am_waiters m)\<rparr>)"

section \<open>The queue\<close>

record mutation_queue =
  mq_locks :: "path \<rightharpoonup> nat"
  mq_mutexes :: "async_mutex list"

definition mq_new :: mutation_queue where
  "mq_new = \<lparr>mq_locks = Map.empty, mq_mutexes = []\<rparr>"

text \<open>\<^theory_text>\<open>entry(path).or_insert_with(..).clone()\<close>, under the lock of the map.\<close>

definition mq_entry :: "mutation_queue \<Rightarrow> path \<Rightarrow> nat \<times> mutation_queue" where
  "mq_entry q p =
     (case mq_locks q p of
        Some i \<Rightarrow> (i, q)
      | None \<Rightarrow>
          (length (mq_mutexes q),
           q\<lparr>mq_locks := (mq_locks q)(p \<mapsto> length (mq_mutexes q)),
             mq_mutexes := mq_mutexes q @ [am_new]\<rparr>))"

definition mq_lock :: "mutation_queue \<Rightarrow> path \<Rightarrow> task \<Rightarrow> mutation_queue" where
  "mq_lock q p t =
     (let (i, q') = mq_entry q p
      in q'\<lparr>mq_mutexes := (mq_mutexes q')[i := am_lock t (mq_mutexes q' ! i)]\<rparr>)"

definition mq_drop :: "mutation_queue \<Rightarrow> path \<Rightarrow> task \<Rightarrow> mutation_queue" where
  "mq_drop q p t =
     (case mq_locks q p of
        None \<Rightarrow> q
      | Some i \<Rightarrow> q\<lparr>mq_mutexes := (mq_mutexes q)[i := am_drop t (mq_mutexes q ! i)]\<rparr>)"

section \<open>Well-formedness and the contract\<close>

text \<open>A mutex without a holder has no waiters: no wake-up is lost.\<close>

definition am_ok :: "async_mutex \<Rightarrow> bool" where
  "am_ok m \<longleftrightarrow> (am_holder m = None \<longrightarrow> am_waiters m = [])"

definition mq_ok :: "mutation_queue \<Rightarrow> bool" where
  "mq_ok q \<longleftrightarrow> (\<forall>p i. mq_locks q p = Some i \<longrightarrow> i < length (mq_mutexes q)) \<and>
     inj_on (mq_locks q) (dom (mq_locks q)) \<and> list_all am_ok (mq_mutexes q)"

text \<open>The line of a path: the holder, then the waiters in the order of their requests.\<close>

definition am_line :: "async_mutex \<Rightarrow> task list" where
  "am_line m = (case am_holder m of None \<Rightarrow> [] | Some t \<Rightarrow> t # am_waiters m)"

definition mq_line :: "mutation_queue \<Rightarrow> path \<Rightarrow> task list" where
  "mq_line q p = (case mq_locks q p of None \<Rightarrow> [] | Some i \<Rightarrow> am_line (mq_mutexes q ! i))"

lemma am_ok_lock: "am_ok m \<Longrightarrow> am_ok (am_lock t m)"
  by (auto simp: am_ok_def am_lock_def)

lemma am_ok_drop: "am_ok m \<Longrightarrow> am_ok (am_drop t m)"
  by (auto simp: am_ok_def am_drop_def split: list.splits)

lemma am_line_lock: "am_ok m \<Longrightarrow> am_line (am_lock t m) = am_line m @ [t]"
  by (auto simp: am_ok_def am_lock_def am_line_def split: option.splits)

lemma am_line_drop: "am_ok m \<Longrightarrow> am_line (am_drop t m) = remove1 t (am_line m)"
  by (auto simp: am_ok_def am_drop_def am_line_def split: option.splits list.splits)

lemma mq_ok_new [simp]: "mq_ok mq_new"
  by (simp add: mq_ok_def mq_new_def)

lemma mq_line_new [simp]: "mq_line mq_new p = []"
  by (simp add: mq_line_def mq_new_def)

lemma mq_ok_index: "mq_ok q \<Longrightarrow> mq_locks q p = Some i \<Longrightarrow> i < length (mq_mutexes q) \<and> am_ok (mq_mutexes q ! i)"
  by (auto simp: mq_ok_def list_all_length)

lemma mq_ok_inj: "mq_ok q \<Longrightarrow> mq_locks q p = Some i \<Longrightarrow> mq_locks q r = Some i \<Longrightarrow> p = r"
  unfolding mq_ok_def by (metis domI inj_onD)

text \<open>Every index of the map is distinct, so an update of one mutex changes one line.\<close>

lemma mq_line_update:
  assumes "mq_ok q" and "mq_locks q p = Some i"
  shows "mq_line (q\<lparr>mq_mutexes := (mq_mutexes q)[i := m]\<rparr>) r = (if r = p then am_line m else mq_line q r)"
  using mq_ok_index [OF assms] mq_ok_inj [OF assms(1)] assms(2)
  by (auto simp: mq_line_def nth_list_update split: option.splits)

lemma mq_ok_update:
  assumes "mq_ok q" and "am_ok m"
  shows "mq_ok (q\<lparr>mq_mutexes := (mq_mutexes q)[i := m]\<rparr>)"
proof -
  have "list_all am_ok ((mq_mutexes q)[i := m])"
    using assms set_update_subset_insert [of "mq_mutexes q" i m] unfolding mq_ok_def list_all_iff by blast
  then show ?thesis using assms(1) by (simp add: mq_ok_def)
qed

lemma mq_entry_spec:
  assumes "mq_ok q" and "mq_entry q p = (i, q')"
  shows "mq_ok q' \<and> mq_locks q' p = Some i \<and> (\<forall>r. mq_line q' r = mq_line q r)"
proof (cases "mq_locks q p")
  case None
  let ?n = "length (mq_mutexes q)"
  have q': "i = ?n" "q' = q\<lparr>mq_locks := (mq_locks q)(p \<mapsto> ?n), mq_mutexes := mq_mutexes q @ [am_new]\<rparr>"
    using assms(2) None by (auto simp: mq_entry_def)
  have lt: "j < ?n" if "mq_locks q r = Some j" for r j
    using assms(1) that by (simp add: mq_ok_def)
  have bound: "j < Suc ?n" if "((mq_locks q)(p \<mapsto> ?n)) r = Some j" for r j
    using lt [of r j] that by (cases "r = p") auto
  have inj: "inj_on ((mq_locks q)(p \<mapsto> ?n)) (dom ((mq_locks q)(p \<mapsto> ?n)))"
  proof (rule inj_onI)
    fix x y
    assume "x \<in> dom ((mq_locks q)(p \<mapsto> ?n))" "y \<in> dom ((mq_locks q)(p \<mapsto> ?n))"
      and eq: "((mq_locks q)(p \<mapsto> ?n)) x = ((mq_locks q)(p \<mapsto> ?n)) y"
    then obtain j where j: "((mq_locks q)(p \<mapsto> ?n)) x = Some j" "((mq_locks q)(p \<mapsto> ?n)) y = Some j"
      by (metis domD)
    show "x = y"
      using j lt [of x j] lt [of y j] mq_ok_inj [OF assms(1), of x j y]
      by (cases "x = p"; cases "y = p") auto
  qed
  have "list_all am_ok (mq_mutexes q @ [am_new])"
    using assms(1) by (simp add: mq_ok_def am_ok_def am_new_def)
  then have "mq_ok q'" using bound inj unfolding q'(2) mq_ok_def by simp
  moreover have "mq_line q' r = mq_line q r" for r
    using None lt [of r] unfolding q'(2)
    by (cases "r = p"; cases "mq_locks q r") (simp_all add: mq_line_def am_line_def am_new_def nth_append)
  ultimately show ?thesis using assms(2) None by (auto simp: mq_entry_def)
qed (use assms in \<open>simp add: mq_entry_def\<close>)

lemma mq_lock_ok: "mq_ok q \<Longrightarrow> mq_ok (mq_lock q p t)"
  using mq_entry_spec [of q p] mq_ok_index [of _ p]
  by (cases "mq_entry q p") (auto simp: mq_lock_def intro: mq_ok_update am_ok_lock)

lemma mq_lock_line:
  "mq_ok q \<Longrightarrow> mq_line (mq_lock q p t) r = (if r = p then mq_line q p @ [t] else mq_line q r)"
proof -
  assume ok: "mq_ok q"
  obtain i q' where e: "mq_entry q p = (i, q')" by force
  note s = mq_entry_spec [OF ok e]
  have "am_line (mq_mutexes q' ! i) = mq_line q p" using s by (metis mq_line_def option.case(2))
  then show ?thesis
    using s e mq_ok_index [of q' p i]
    by (auto simp: mq_lock_def mq_line_update am_line_lock)
qed

lemma mq_drop_ok: "mq_ok q \<Longrightarrow> mq_ok (mq_drop q p t)"
  using mq_ok_index [of q p] by (auto simp: mq_drop_def intro: mq_ok_update am_ok_drop split: option.splits)

lemma mq_drop_line:
  "mq_ok q \<Longrightarrow> mq_line (mq_drop q p t) r = (if r = p then remove1 t (mq_line q p) else mq_line q r)"
  using mq_ok_index [of q p]
  by (auto simp: mq_drop_def mq_line_update am_line_drop split: option.splits) (auto simp: mq_line_def)

section \<open>The interface\<close>

text \<open>What a client of the queue relies on: for every path a line that is served in order.\<close>

locale lock_lines =
  fixes lock :: "'q \<Rightarrow> 'p \<Rightarrow> task \<Rightarrow> 'q"
    and release :: "'q \<Rightarrow> 'p \<Rightarrow> task \<Rightarrow> 'q"
    and line :: "'q \<Rightarrow> 'p \<Rightarrow> task list"
    and ok :: "'q \<Rightarrow> bool"
  assumes lock_ok: "ok q \<Longrightarrow> ok (lock q p t)"
    and release_ok: "ok q \<Longrightarrow> ok (release q p t)"
    and lock_line: "ok q \<Longrightarrow> line (lock q p t) r = (if r = p then line q p @ [t] else line q r)"
    and release_line:
      "ok q \<Longrightarrow> line (release q p t) r = (if r = p then remove1 t (line q p) else line q r)"

section \<open>Transactions\<close>

text \<open>
  A tool call on a file: it asks for the lock, reads the file, computes the new contents, writes them
  to a temporary file, hands the rename over to the blocking pool (\<^theory_text>\<open>tokio::fs::rename\<close>), waits for
  it and drops its guard. It can fail before the rename or in it, and then changes nothing. It can be
  cancelled at any await point, which drops the guard or its place in the line; a rename that has
  been handed over is not cancelled with it and may be carried out at any later time, or never. The
  steps of different calls interleave in any order.
\<close>

datatype 'c call_state = Idle | Queued | Loaded 'c | Renaming 'c | Settled | Finished

text \<open>
  \<open>sys_pending\<close> holds the renames that the pool has not carried out yet, \<open>sys_log\<close> the calls whose
  rename has been, in that order, and \<open>sys_early\<close> the calls that read their file while a rename onto
  it was pending. The log and the early calls only serve the statements.
\<close>

record ('q, 'p, 'c) system =
  sys_queue :: 'q
  sys_store :: "'p \<Rightarrow> 'c"
  sys_calls :: "task \<Rightarrow> 'c call_state"
  sys_pending :: "(task \<times> 'c) list"
  sys_log :: "task list"
  sys_early :: "task list"

datatype event = Request task | Load task | Submit task | Land task | Fail task | Drop task

text \<open>The file of each call and what it makes of the contents; \<^theory_text>\<open>None\<close> for a call that fails.\<close>

definition apply_call ::
  "(task \<Rightarrow> 'p) \<Rightarrow> (task \<Rightarrow> 'c \<Rightarrow> 'c option) \<Rightarrow> task \<Rightarrow> ('p \<Rightarrow> 'c) \<Rightarrow> ('p \<Rightarrow> 'c)" where
  "apply_call file modify t store =
     (case modify t (store (file t)) of None \<Rightarrow> store | Some c \<Rightarrow> store(file t := c))"

text \<open>Calls one after the other, each of which must succeed on what the ones before have left.\<close>

fun replay ::
  "(task \<Rightarrow> 'p) \<Rightarrow> (task \<Rightarrow> 'c \<Rightarrow> 'c option) \<Rightarrow> task list \<Rightarrow> ('p \<Rightarrow> 'c) \<Rightarrow> ('p \<Rightarrow> 'c) option" where
  "replay file modify [] store = Some store"
| "replay file modify (t # ts) store =
     (case modify t (store (file t)) of
        None \<Rightarrow> None
      | Some c \<Rightarrow> replay file modify ts (store(file t := c)))"

text \<open>The same for the calls on one file.\<close>

fun replay_on :: "(task \<Rightarrow> 'c \<Rightarrow> 'c option) \<Rightarrow> task list \<Rightarrow> 'c \<Rightarrow> 'c option" where
  "replay_on modify [] c = Some c"
| "replay_on modify (t # ts) c = Option.bind (modify t c) (replay_on modify ts)"

definition calls_on :: "(task \<Rightarrow> 'p) \<Rightarrow> 'p \<Rightarrow> task list \<Rightarrow> task list" where
  "calls_on file p ts = filter (\<lambda>t. file t = p) ts"

lemma replay_on_snoc:
  "replay_on modify ts c = Some d \<Longrightarrow> replay_on modify (ts @ [t]) c = modify t d"
  by (induction ts arbitrary: c) (auto split: Option.bind_splits)

lemma replay_fold:
  "replay file modify ts store = Some st \<Longrightarrow> st = fold (apply_call file modify) ts store"
  by (induction ts arbitrary: store) (auto simp: apply_call_def split: option.splits)

text \<open>A call touches its own file only, so the files can be replayed one by one.\<close>

lemma replay_by_files:
  "(\<And>p. replay_on modify (calls_on file p ts) (store p) = Some (st p)) \<Longrightarrow>
   replay file modify ts store = Some st"
proof (induction ts arbitrary: store)
  case Nil
  then have "store = st" by (simp add: calls_on_def fun_eq_iff)
  then show ?case by simp
next
  case (Cons t ts)
  obtain c where c: "modify t (store (file t)) = Some c"
    using Cons.prems [of "file t"] by (auto simp: calls_on_def split: Option.bind_splits)
  have "replay_on modify (calls_on file p ts) ((store(file t := c)) p) = Some (st p)" for p
    using Cons.prems [of p] c by (cases "p = file t") (auto simp: calls_on_def)
  then show ?case using Cons.IH c by simp
qed

text \<open>A call that waits for its rename goes on when the rename has been carried out or has failed.\<close>

fun settle :: "'c call_state \<Rightarrow> 'c call_state" where
  "settle (Renaming c) = Settled"
| "settle x = x"

definition without_call :: "task \<Rightarrow> (task \<times> 'c) list \<Rightarrow> (task \<times> 'c) list" where
  "without_call t pending = filter (\<lambda>x. fst x \<noteq> t) pending"

fun sys_step ::
  "('q \<Rightarrow> 'p \<Rightarrow> task \<Rightarrow> 'q) \<Rightarrow> ('q \<Rightarrow> 'p \<Rightarrow> task \<Rightarrow> 'q) \<Rightarrow> ('q \<Rightarrow> 'p \<Rightarrow> task list) \<Rightarrow>
   (task \<Rightarrow> 'p) \<Rightarrow> (task \<Rightarrow> 'c \<Rightarrow> 'c option) \<Rightarrow>
   event \<Rightarrow> ('q, 'p, 'c) system \<Rightarrow> ('q, 'p, 'c) system option"
where
  "sys_step lock release line file modify (Request t) s =
     (case sys_calls s t of
        Idle \<Rightarrow> Some (s\<lparr>sys_queue := lock (sys_queue s) (file t) t,
                     sys_calls := (sys_calls s)(t := Queued)\<rparr>)
      | _ \<Rightarrow> None)"
| "sys_step lock release line file modify (Load t) s =
     (case sys_calls s t of
        Queued \<Rightarrow>
          (case line (sys_queue s) (file t) of
             [] \<Rightarrow> None
           | u # _ \<Rightarrow>
               if u = t
               then Some (s\<lparr>sys_calls := (sys_calls s)(t := Loaded (sys_store s (file t))),
                            sys_early := sys_early s @
                              (if list_ex (\<lambda>x. file (fst x) = file t) (sys_pending s) then [t] else [])\<rparr>)
               else None)
      | _ \<Rightarrow> None)"
| "sys_step lock release line file modify (Submit t) s =
     (case sys_calls s t of
        Loaded c \<Rightarrow>
          (case modify t c of
             None \<Rightarrow> Some (s\<lparr>sys_calls := (sys_calls s)(t := Settled)\<rparr>)
           | Some c' \<Rightarrow>
               Some (s\<lparr>sys_calls := (sys_calls s)(t := Renaming c'),
                      sys_pending := sys_pending s @ [(t, c')]\<rparr>))
      | _ \<Rightarrow> None)"
| "sys_step lock release line file modify (Land t) s =
     (case map_of (sys_pending s) t of
        None \<Rightarrow> None
      | Some c' \<Rightarrow>
          Some (s\<lparr>sys_store := (sys_store s)(file t := c'),
                 sys_calls := (sys_calls s)(t := settle (sys_calls s t)),
                 sys_pending := without_call t (sys_pending s),
                 sys_log := sys_log s @ [t]\<rparr>))"
| "sys_step lock release line file modify (Fail t) s =
     (case sys_calls s t of
        Loaded c \<Rightarrow> Some (s\<lparr>sys_calls := (sys_calls s)(t := Settled)\<rparr>)
      | _ \<Rightarrow>
          (case map_of (sys_pending s) t of
             None \<Rightarrow> None
           | Some _ \<Rightarrow>
               Some (s\<lparr>sys_calls := (sys_calls s)(t := settle (sys_calls s t)),
                      sys_pending := without_call t (sys_pending s)\<rparr>)))"
| "sys_step lock release line file modify (Drop t) s =
     (case sys_calls s t of
        Idle \<Rightarrow> None
      | Finished \<Rightarrow> None
      | _ \<Rightarrow> Some (s\<lparr>sys_queue := release (sys_queue s) (file t) t,
                    sys_calls := (sys_calls s)(t := Finished)\<rparr>))"

fun sys_run ::
  "('q \<Rightarrow> 'p \<Rightarrow> task \<Rightarrow> 'q) \<Rightarrow> ('q \<Rightarrow> 'p \<Rightarrow> task \<Rightarrow> 'q) \<Rightarrow> ('q \<Rightarrow> 'p \<Rightarrow> task list) \<Rightarrow>
   (task \<Rightarrow> 'p) \<Rightarrow> (task \<Rightarrow> 'c \<Rightarrow> 'c option) \<Rightarrow>
   event list \<Rightarrow> ('q, 'p, 'c) system \<Rightarrow> ('q, 'p, 'c) system option"
where
  "sys_run lock release line file modify [] s = Some s"
| "sys_run lock release line file modify (e # es) s =
     (case sys_step lock release line file modify e s of
        None \<Rightarrow> None
      | Some s' \<Rightarrow> sys_run lock release line file modify es s')"

text \<open>No call is cancelled while it waits for its rename.\<close>

fun patient ::
  "('q \<Rightarrow> 'p \<Rightarrow> task \<Rightarrow> 'q) \<Rightarrow> ('q \<Rightarrow> 'p \<Rightarrow> task \<Rightarrow> 'q) \<Rightarrow> ('q \<Rightarrow> 'p \<Rightarrow> task list) \<Rightarrow>
   (task \<Rightarrow> 'p) \<Rightarrow> (task \<Rightarrow> 'c \<Rightarrow> 'c option) \<Rightarrow> event list \<Rightarrow> ('q, 'p, 'c) system \<Rightarrow> bool"
where
  "patient lock release line file modify [] s = True"
| "patient lock release line file modify (e # es) s =
     ((case e of Drop t \<Rightarrow> (case sys_calls s t of Renaming _ \<Rightarrow> False | _ \<Rightarrow> True) | _ \<Rightarrow> True) \<and>
      (case sys_step lock release line file modify e s of
         None \<Rightarrow> True
       | Some s' \<Rightarrow> patient lock release line file modify es s'))"

definition sys_init :: "'q \<Rightarrow> ('p \<Rightarrow> 'c) \<Rightarrow> ('q, 'p, 'c) system" where
  "sys_init q store = \<lparr>sys_queue = q, sys_store = store, sys_calls = (\<lambda>_. Idle), sys_pending = [],
     sys_log = [], sys_early = []\<rparr>"

text \<open>A call has a place in the line of its file exactly while it is under way.\<close>

definition under_way :: "'c call_state \<Rightarrow> bool" where
  "under_way c \<longleftrightarrow> c \<noteq> Idle \<and> c \<noteq> Finished"

definition past_queue :: "'c call_state \<Rightarrow> bool" where
  "past_queue c \<longleftrightarrow> under_way c \<and> c \<noteq> Queued"

definition lines_match :: "('q \<Rightarrow> 'p \<Rightarrow> task list) \<Rightarrow> (task \<Rightarrow> 'p) \<Rightarrow> ('q, 'p, 'c) system \<Rightarrow> bool" where
  "lines_match line file s \<longleftrightarrow>
     (\<forall>p. distinct (line (sys_queue s) p)) \<and>
     (\<forall>p t. t \<in> set (line (sys_queue s) p) \<longleftrightarrow> file t = p \<and> under_way (sys_calls s t)) \<and>
     (\<forall>t. past_queue (sys_calls s t) \<longrightarrow>
        (\<exists>us. line (sys_queue s) (file t) = t # us))"

text \<open>A pending rename belongs to a call that waits for it or that was dropped.\<close>

definition pending_match :: "('q, 'p, 'c) system \<Rightarrow> bool" where
  "pending_match s \<longleftrightarrow>
     (\<forall>t c. (t, c) \<in> set (sys_pending s) \<longrightarrow> sys_calls s t = Renaming c \<or> sys_calls s t = Finished) \<and>
     (\<forall>t c. sys_calls s t = Renaming c \<longrightarrow> (t, c) \<in> set (sys_pending s))"

text \<open>
  What a call that was not early has read is current, up to its own rename, and no other rename
  onto its file is pending.
\<close>

definition loads_match ::
  "(task \<Rightarrow> 'p) \<Rightarrow> (task \<Rightarrow> 'c \<Rightarrow> 'c option) \<Rightarrow> ('q, 'p, 'c) system \<Rightarrow> bool" where
  "loads_match file modify s \<longleftrightarrow>
     (\<forall>t c. t \<notin> set (sys_early s) \<longrightarrow>
        (sys_calls s t = Loaded c \<longrightarrow>
           c = sys_store s (file t) \<and> (\<forall>x \<in> set (sys_pending s). file (fst x) \<noteq> file t)) \<and>
        (sys_calls s t = Renaming c \<longrightarrow>
           modify t (sys_store s (file t)) = Some c \<and>
           (\<forall>x \<in> set (sys_pending s). file (fst x) = file t \<longrightarrow> x = (t, c))))"

text \<open>A file that no call has read early: the log replays to it, and one rename at most is pending.\<close>

definition file_match ::
  "(task \<Rightarrow> 'p) \<Rightarrow> (task \<Rightarrow> 'c \<Rightarrow> 'c option) \<Rightarrow> ('p \<Rightarrow> 'c) \<Rightarrow> ('q, 'p, 'c) system \<Rightarrow> 'p \<Rightarrow> bool" where
  "file_match file modify store0 s p \<longleftrightarrow>
     replay_on modify (calls_on file p (sys_log s)) (store0 p) = Some (sys_store s p) \<and>
     (\<forall>x \<in> set (sys_pending s). file (fst x) = p \<longrightarrow>
        modify (fst x) (sys_store s p) = Some (snd x) \<and>
        (\<forall>y \<in> set (sys_pending s). file (fst y) = p \<longrightarrow> y = x))"

definition log_match ::
  "(task \<Rightarrow> 'p) \<Rightarrow> (task \<Rightarrow> 'c \<Rightarrow> 'c option) \<Rightarrow> ('p \<Rightarrow> 'c) \<Rightarrow> ('q, 'p, 'c) system \<Rightarrow> bool" where
  "log_match file modify store0 s \<longleftrightarrow>
     distinct (sys_log s) \<and>
     (\<forall>t \<in> set (sys_log s). (sys_calls s t = Settled \<or> sys_calls s t = Finished) \<and>
        t \<notin> fst ` set (sys_pending s)) \<and>
     (\<forall>p. p \<notin> file ` set (sys_early s) \<longrightarrow> file_match file modify store0 s p)"

section \<open>What the interface gives the transactions\<close>

lemma lines_matchD:
  assumes "lines_match line file s"
  shows "distinct (line (sys_queue s) p)"
    "t \<in> set (line (sys_queue s) p) \<longleftrightarrow> file t = p \<and> under_way (sys_calls s t)"
    "past_queue (sys_calls s t) \<Longrightarrow> \<exists>us. line (sys_queue s) (file t) = t # us"
  using assms unfolding lines_match_def by blast+

lemma past_queue_unique:
  assumes "lines_match line file s" and "past_queue (sys_calls s t)" and "past_queue (sys_calls s u)"
    and "file t = file u"
  shows "t = u"
proof -
  obtain us where "line (sys_queue s) (file t) = t # us" using lines_matchD(3) [OF assms(1,2)] by blast
  moreover obtain vs where "line (sys_queue s) (file u) = u # vs"
    using lines_matchD(3) [OF assms(1,3)] by blast
  ultimately show ?thesis unfolding assms(4) by simp
qed

lemma settle_eq [simp]:
  "settle x = Idle \<longleftrightarrow> x = Idle" "settle x = Queued \<longleftrightarrow> x = Queued" "settle x = Loaded c \<longleftrightarrow> x = Loaded c"
  "settle x \<noteq> Renaming c" "settle x = Finished \<longleftrightarrow> x = Finished"
  by (cases x; simp)+

lemma settle_past [simp]:
  "under_way (settle x) = under_way x" "past_queue (settle x) = past_queue x"
  by (simp_all add: under_way_def past_queue_def)

text \<open>The steps, each with what it needs and what it does.\<close>

lemma step_cases [consumes 1, case_names request load submit refuse land fail drop]:
  assumes "sys_step lock release line file modify e s = Some s'"
  obtains t where "e = Request t" "sys_calls s t = Idle"
      "s' = s\<lparr>sys_queue := lock (sys_queue s) (file t) t, sys_calls := (sys_calls s)(t := Queued)\<rparr>"
  | t us where "e = Load t" "sys_calls s t = Queued" "line (sys_queue s) (file t) = t # us"
      "s' = s\<lparr>sys_calls := (sys_calls s)(t := Loaded (sys_store s (file t))),
             sys_early := sys_early s @
               (if list_ex (\<lambda>x. file (fst x) = file t) (sys_pending s) then [t] else [])\<rparr>"
  | t c c' where "e = Submit t" "sys_calls s t = Loaded c" "modify t c = Some c'"
      "s' = s\<lparr>sys_calls := (sys_calls s)(t := Renaming c'), sys_pending := sys_pending s @ [(t, c')]\<rparr>"
  | t c where "sys_calls s t = Loaded c" "s' = s\<lparr>sys_calls := (sys_calls s)(t := Settled)\<rparr>"
  | t c where "e = Land t" "(t, c) \<in> set (sys_pending s)"
      "s' = s\<lparr>sys_store := (sys_store s)(file t := c), sys_calls := (sys_calls s)(t := settle (sys_calls s t)),
             sys_pending := without_call t (sys_pending s), sys_log := sys_log s @ [t]\<rparr>"
  | t c where "e = Fail t" "(t, c) \<in> set (sys_pending s)"
      "s' = s\<lparr>sys_calls := (sys_calls s)(t := settle (sys_calls s t)),
             sys_pending := without_call t (sys_pending s)\<rparr>"
  | t where "e = Drop t" "under_way (sys_calls s t)"
      "s' = s\<lparr>sys_queue := release (sys_queue s) (file t) t, sys_calls := (sys_calls s)(t := Finished)\<rparr>"
proof (cases e)
  case (Fail t)
  show ?thesis
  proof (cases "\<exists>c. sys_calls s t = Loaded c")
    case True
    then show ?thesis using assms that(4) Fail by auto
  next
    case False
    then show ?thesis using assms that(6) [of t] Fail map_of_SomeD [of "sys_pending s" t]
      by (auto split: call_state.splits option.splits)
  qed
next
  case (Drop t)
  then show ?thesis using assms that(7) [of t] by (auto simp: under_way_def split: call_state.splits)
next
  case (Land t)
  then show ?thesis using assms that(5) [of t] map_of_SomeD [of "sys_pending s" t] by (auto split: option.splits)
next
  case (Submit t)
  then show ?thesis using assms that(3) [of t] that(4) [of t] by (auto split: call_state.splits option.splits)
next
  case (Load t)
  then show ?thesis using assms that(2) [of t] by (auto split: call_state.splits list.splits if_split_asm simp del: list_ex_iff)
next
  case (Request t)
  then show ?thesis using assms that(1) [of t] by (auto split: call_state.splits)
qed

context lock_lines
begin

lemma step_lines_request:
  assumes "sys_step lock release line file modify (Request t) s = Some s'" and "ok (sys_queue s)"
    and "lines_match line file s"
  shows "lines_match line file s'"
proof -
  have idle: "sys_calls s t = Idle"
    and s': "s' = s\<lparr>sys_queue := lock (sys_queue s) (file t) t, sys_calls := (sys_calls s)(t := Queued)\<rparr>"
    using assms(1) by (auto split: call_state.splits)
  note m = lines_matchD [OF assms(3)]
  have notin: "t \<notin> set (line (sys_queue s) p)" for p
    using m(2) [of t p] idle by (simp add: under_way_def)
  have "\<exists>us. line (sys_queue s') (file u) = u # us" if "past_queue (sys_calls s' u)" for u
  proof -
    have "u \<noteq> t" using that by (auto simp: s' past_queue_def)
    then have "past_queue (sys_calls s u)" using that by (simp add: s')
    then show ?thesis using m(3) [of u] assms(2) by (auto simp: s' lock_line)
  qed
  then show ?thesis using m notin assms(2)
    by (auto simp: lines_match_def s' lock_line under_way_def)
qed

lemma step_lines_drop:
  assumes "sys_step lock release line file modify (Drop t) s = Some s'" and "ok (sys_queue s)"
    and "lines_match line file s"
  shows "lines_match line file s'"
proof -
  have uw: "under_way (sys_calls s t)"
    and s': "s' = s\<lparr>sys_queue := release (sys_queue s) (file t) t, sys_calls := (sys_calls s)(t := Finished)\<rparr>"
    using assms(1) by (auto simp: under_way_def split: call_state.splits)
  note m = lines_matchD [OF assms(3)]
  have "\<exists>us. line (sys_queue s') (file u) = u # us" if "past_queue (sys_calls s' u)" for u
  proof -
    have "u \<noteq> t" using that by (auto simp: s' past_queue_def under_way_def)
    then have "past_queue (sys_calls s u)" using that by (simp add: s')
    then show ?thesis using m(3) [of u] assms(2) \<open>u \<noteq> t\<close> by (auto simp: s' release_line)
  qed
  moreover have "distinct (line (sys_queue s') p)" for p
    using m(1) assms(2) by (simp add: s' release_line distinct_remove1)
  moreover have "u \<in> set (line (sys_queue s') p) \<longleftrightarrow> file u = p \<and> under_way (sys_calls s' u)" for u p
    using m(1) [of p] m(2) [of u p] assms(2) by (auto simp: s' release_line under_way_def set_remove1_eq)
  ultimately show ?thesis by (simp add: lines_match_def)
qed

lemma step_ok:
  assumes "sys_step lock release line file modify e s = Some s'" and "ok (sys_queue s)"
  shows "ok (sys_queue s')"
  using assms(1) by (cases rule: step_cases) (simp_all add: lock_ok release_ok assms(2))

text \<open>A step that leaves the queue and the places of the calls as they are keeps the lines.\<close>

lemma lines_match_kept:
  assumes "lines_match line file s" and "sys_queue s' = sys_queue s"
    and "\<And>u. under_way (sys_calls s' u) = under_way (sys_calls s u)"
    and "\<And>u. past_queue (sys_calls s' u) \<Longrightarrow> past_queue (sys_calls s u) \<or> (\<exists>us. line (sys_queue s) (file u) = u # us)"
  shows "lines_match line file s'"
  using assms unfolding lines_match_def by metis

lemma step_lines:
  assumes "sys_step lock release line file modify e s = Some s'" and "ok (sys_queue s)"
    and "lines_match line file s"
  shows "lines_match line file s'"
  using assms(1)
proof (cases rule: step_cases)
  case (request t)
  then show ?thesis using assms step_lines_request by blast
next
  case (load t us)
  then show ?thesis
    by (intro lines_match_kept [OF assms(3)]) (auto simp: under_way_def past_queue_def split: if_splits)
next
  case (submit t c c')
  then show ?thesis
    by (intro lines_match_kept [OF assms(3)]) (auto simp: under_way_def past_queue_def split: if_splits)
next
  case (refuse t c)
  then show ?thesis
    by (intro lines_match_kept [OF assms(3)]) (auto simp: under_way_def past_queue_def split: if_splits)
next
  case (land t c)
  then show ?thesis
    by (intro lines_match_kept [OF assms(3)]) (auto split: if_splits)
next
  case (fail t c)
  then show ?thesis
    by (intro lines_match_kept [OF assms(3)]) (auto split: if_splits)
next
  case (drop t)
  then show ?thesis using assms step_lines_drop by blast
qed

lemma pending_matchD:
  assumes "pending_match s"
  shows "(t, c) \<in> set (sys_pending s) \<Longrightarrow> sys_calls s t = Renaming c \<or> sys_calls s t = Finished"
    "sys_calls s t = Renaming c \<Longrightarrow> (t, c) \<in> set (sys_pending s)"
  using assms by (simp_all add: pending_match_def)

lemma step_pending:
  assumes "sys_step lock release line file modify e s = Some s'" and "pending_match s"
  shows "pending_match s'"
proof -
  note P = pending_matchD [OF assms(2)]
  show ?thesis using assms(1)
    by (cases rule: step_cases)
      (auto simp: pending_match_def without_call_def under_way_def dest: P split: if_splits)
qed

text \<open>Two calls past the queue work on different files.\<close>

lemma past_other_file:
  assumes "lines_match line file s" and "past_queue (sys_calls s t)" and "past_queue (sys_calls s u)" and "u \<noteq> t"
  shows "file u \<noteq> file t"
  using past_queue_unique assms by metis

lemma loads_matchD:
  assumes "loads_match file modify s" and "t \<notin> set (sys_early s)" and "sys_calls s t = Loaded c"
  shows "c = sys_store s (file t) \<and> (\<forall>x \<in> set (sys_pending s). file (fst x) \<noteq> file t)"
  using assms(1) [unfolded loads_match_def, rule_format, OF assms(2)] assms(3) by simp

lemma step_loads:
  assumes "sys_step lock release line file modify e s = Some s'" and "lines_match line file s"
    and "pending_match s" and "loads_match file modify s"
  shows "loads_match file modify s'"
  using assms(1)
proof (cases rule: step_cases)
  case (load t us)
  then show ?thesis using assms(4) by (auto simp: loads_match_def list_ex_iff)
next
  case (submit t c c')
  have other: "file u \<noteq> file t" if "u \<noteq> t" "sys_calls s u = Loaded d \<or> sys_calls s u = Renaming d" for u d
    using past_other_file [OF assms(2) _ _ that(1)] that(2) submit(2)
    by (auto simp: past_queue_def under_way_def)
  show ?thesis using submit assms(4) by (auto simp: loads_match_def dest: other)
next
  case (land t c)
  have no: False if "u \<noteq> t" "u \<notin> set (sys_early s)" "file u = file t"
    "sys_calls s u = Loaded d \<or> sys_calls s u = Renaming d" for u d
    using that assms(4) land(2) unfolding loads_match_def by fastforce
  have st: "sys_calls s t = Renaming c \<or> sys_calls s t = Finished"
    using land(2) assms(3) by (simp add: pending_match_def)
  show ?thesis
    unfolding loads_match_def
  proof (intro allI impI)
    fix u d
    assume early: "u \<notin> set (sys_early s')"
    show "(sys_calls s' u = Loaded d \<longrightarrow>
           d = sys_store s' (file u) \<and> (\<forall>x \<in> set (sys_pending s'). file (fst x) \<noteq> file u)) \<and>
        (sys_calls s' u = Renaming d \<longrightarrow>
           modify u (sys_store s' (file u)) = Some d \<and>
           (\<forall>x \<in> set (sys_pending s'). file (fst x) = file u \<longrightarrow> x = (u, d)))"
    proof (cases "u = t")
      case True
      then show ?thesis using land(3) st by auto
    next
      case False
      have e: "u \<notin> set (sys_early s)" using early land(3) by simp
      show ?thesis
        using False no [OF False e] land(3) e assms(4)
        by (fastforce simp: loads_match_def without_call_def)
    qed
  qed
next
  case (fail t c)
  then have "set (sys_pending s') \<subseteq> set (sys_pending s)" "sys_early s' = sys_early s" "sys_store s' = sys_store s"
    "\<And>u d. sys_calls s' u = Loaded d \<Longrightarrow> sys_calls s u = Loaded d"
    "\<And>u d. sys_calls s' u = Renaming d \<Longrightarrow> sys_calls s u = Renaming d"
    by (auto simp: without_call_def split: if_splits)
  then show ?thesis using assms(4) unfolding loads_match_def by (simp, blast)
qed (use assms(4) in \<open>auto simp: loads_match_def\<close>)

text \<open>
  A file without early reads: only the landing of its one pending rename changes it, and only a call
  whose read is current submits one.
\<close>

lemma step_file:
  assumes "sys_step lock release line file modify e s = Some s'" and "lines_match line file s"
    and "loads_match file modify s" and "file_match file modify store0 s p" and "p \<notin> file ` set (sys_early s')"
  shows "file_match file modify store0 s' p"
  using assms(1)
proof (cases rule: step_cases)
  case (submit t c c')
  show ?thesis
  proof (cases "file t = p")
    case True
    have "t \<notin> set (sys_early s)" using assms(5) submit(4) True by auto
    then have cur: "c = sys_store s p" and none: "\<forall>x \<in> set (sys_pending s). file (fst x) \<noteq> p"
      using loads_matchD [OF assms(3) _ submit(2)] unfolding True by blast+
    have m: "modify t (sys_store s p) = Some c'" using submit(3) unfolding cur .
    have only: "x = (t, c')" if "x \<in> set (sys_pending s')" "file (fst x) = p" for x
      using that none submit(4) by auto
    have "modify (fst x) (sys_store s' p) = Some (snd x)" if "x \<in> set (sys_pending s')" "file (fst x) = p" for x
      unfolding only [OF that] using m submit(4) by simp
    moreover have "y = x" if "x \<in> set (sys_pending s')" "file (fst x) = p" "y \<in> set (sys_pending s')" "file (fst y) = p" for x y
      using only [OF that(1,2)] only [OF that(3,4)] by simp
    moreover have "replay_on modify (calls_on file p (sys_log s')) (store0 p) = Some (sys_store s' p)"
      using assms(4) submit(4) by (simp add: file_match_def)
    ultimately show ?thesis unfolding file_match_def by blast
  next
    case False
    then show ?thesis using submit assms(4) by (auto simp: file_match_def)
  qed
next
  case (land t c)
  show ?thesis
  proof (cases "file t = p")
    case True
    have r: "replay_on modify (calls_on file p (sys_log s)) (store0 p) = Some (sys_store s p)"
      using assms(4) by (simp add: file_match_def)
    have m: "modify t (sys_store s p) = Some c"
      using assms(4) land(2) True unfolding file_match_def by fastforce
    have only: "y = (t, c)" if "y \<in> set (sys_pending s)" "file (fst y) = p" for y
      using assms(4) land(2) True that unfolding file_match_def by fastforce
    have "replay_on modify (calls_on file p (sys_log s')) (store0 p) = Some (sys_store s' p)"
      using replay_on_snoc [OF r, of t] m land(3) True by (simp add: calls_on_def)
    moreover have "\<forall>x \<in> set (sys_pending s'). file (fst x) \<noteq> p"
      using only land(3) by (auto simp: without_call_def)
    ultimately show ?thesis by (simp add: file_match_def)
  next
    case False
    then show ?thesis using land assms(4) by (auto simp: file_match_def calls_on_def without_call_def)
  qed
qed (use assms(4) in \<open>auto simp: file_match_def without_call_def\<close>)

lemma step_log:
  assumes "sys_step lock release line file modify e s = Some s'" and "lines_match line file s"
    and "pending_match s" and "loads_match file modify s" and "log_match file modify store0 s"
  shows "log_match file modify store0 s'"
proof -
  have sub: "set (sys_early s) \<subseteq> set (sys_early s')"
    using assms(1) by (cases rule: step_cases) auto
  have files: "file_match file modify store0 s' p" if "p \<notin> file ` set (sys_early s')" for p
  proof -
    have "p \<notin> file ` set (sys_early s)" using that sub by blast
    then have "file_match file modify store0 s p" using assms(5) by (simp add: log_match_def)
    then show ?thesis by (rule step_file [OF assms(1,2,4) _ that])
  qed
  have logs: "distinct (sys_log s)"
    "\<forall>t \<in> set (sys_log s). (sys_calls s t = Settled \<or> sys_calls s t = Finished) \<and> t \<notin> fst ` set (sys_pending s)"
    using assms(5) by (simp_all add: log_match_def)
  have "distinct (sys_log s') \<and> (\<forall>t \<in> set (sys_log s').
      (sys_calls s' t = Settled \<or> sys_calls s' t = Finished) \<and> t \<notin> fst ` set (sys_pending s'))"
    using assms(1)
  proof (cases rule: step_cases)
    case (land t c)
    have "sys_calls s t = Renaming c \<or> sys_calls s t = Finished"
      using land(2) assms(3) by (simp add: pending_match_def)
    moreover have "t \<notin> set (sys_log s)" using logs(2) land(2) by force
    ultimately show ?thesis using logs land(3) by (auto simp: without_call_def)
  qed (use logs in \<open>auto simp: without_call_def\<close>)
  then show ?thesis using files by (simp add: log_match_def)
qed

text \<open>A call that reads early finds a rename whose call was dropped while it waited for it.\<close>

lemma early_after_drop:
  assumes "lines_match line file s" and "pending_match s"
    and "sys_calls s t = Queued" and "line (sys_queue s) (file t) = t # us"
    and "(u, c) \<in> set (sys_pending s)" and "file u = file t"
  shows "sys_calls s u = Finished"
proof (rule ccontr)
  assume "sys_calls s u \<noteq> Finished"
  then have u: "sys_calls s u = Renaming c" using assms(2,5) by (auto simp: pending_match_def)
  then have "past_queue (sys_calls s u)" by (simp add: past_queue_def under_way_def)
  then obtain vs where "line (sys_queue s) (file u) = u # vs" using lines_matchD(3) [OF assms(1)] by blast
  then have "u = t" using assms(4) unfolding assms(6) by simp
  then show False using assms(3) u by simp
qed

lemma run_invariants:
  assumes "sys_run lock release line file modify es s = Some s'"
    and "ok (sys_queue s)" and "lines_match line file s" and "pending_match s"
    and "loads_match file modify s" and "log_match file modify store0 s"
  shows "ok (sys_queue s') \<and> lines_match line file s' \<and> pending_match s' \<and> loads_match file modify s' \<and>
    log_match file modify store0 s'"
  using assms
proof (induction es arbitrary: s)
  case (Cons e es)
  then obtain s1 where s1: "sys_step lock release line file modify e s = Some s1"
      "sys_run lock release line file modify es s1 = Some s'"
    by (auto split: option.splits)
  show ?case
    using Cons.IH [OF s1(2) step_ok [OF s1(1)] step_lines [OF s1(1)] step_pending [OF s1(1)]
        step_loads [OF s1(1)] step_log [OF s1(1)]]
      Cons.prems(2-) by blast
qed simp

lemma init_invariants:
  assumes "ok q" and "\<And>p. line q p = []" and "sys_run lock release line file modify es (sys_init q store0) = Some s"
  shows "ok (sys_queue s) \<and> lines_match line file s \<and> pending_match s \<and> loads_match file modify s \<and>
    log_match file modify store0 s"
proof -
  have "lines_match line file (sys_init q store0)"
    by (simp add: lines_match_def sys_init_def assms(2) under_way_def past_queue_def)
  moreover have "pending_match (sys_init q store0)" by (simp add: pending_match_def sys_init_def)
  moreover have "loads_match file modify (sys_init q store0)" by (simp add: loads_match_def sys_init_def)
  moreover have "log_match file modify store0 (sys_init q store0)"
    by (simp add: log_match_def file_match_def calls_on_def sys_init_def)
  ultimately show ?thesis using run_invariants [OF assms(3)] assms(1) by (simp add: sys_init_def)
qed

lemma patient_step:
  assumes "sys_step lock release line file modify e s = Some s'" and "lines_match line file s"
    and "pending_match s" and "\<forall>x \<in> set (sys_pending s). sys_calls s (fst x) \<noteq> Finished" and "sys_early s = []"
    and "\<And>t c. e = Drop t \<Longrightarrow> sys_calls s t \<noteq> Renaming c"
  shows "(\<forall>x \<in> set (sys_pending s'). sys_calls s' (fst x) \<noteq> Finished) \<and> sys_early s' = []"
  using assms(1)
proof (cases rule: step_cases)
  case (load t us)
  have "\<not> list_ex (\<lambda>x. file (fst x) = file t) (sys_pending s)"
    using early_after_drop [OF assms(2,3) load(2,3)] assms(4) by (fastforce simp: list_ex_iff)
  then show ?thesis using load assms(4,5) by auto
next
  case (drop t)
  have "fst x \<noteq> t" if "x \<in> set (sys_pending s)" for x
    using pending_matchD(1) [OF assms(3), of "fst x" "snd x"] assms(4,6) drop(1) that by auto
  then show ?thesis using drop(3) assms(4,5) by auto
qed (use assms(4,5) in \<open>auto simp: without_call_def\<close>)

lemma patient_run:
  assumes "sys_run lock release line file modify es s = Some s'" and "patient lock release line file modify es s"
    and "ok (sys_queue s)" and "lines_match line file s" and "pending_match s"
    and "\<forall>x \<in> set (sys_pending s). sys_calls s (fst x) \<noteq> Finished" and "sys_early s = []"
  shows "sys_early s' = []"
  using assms
proof (induction es arbitrary: s)
  case (Cons e es)
  then obtain s1 where s1: "sys_step lock release line file modify e s = Some s1"
      "sys_run lock release line file modify es s1 = Some s'"
    by (auto split: option.splits)
  have "sys_calls s t \<noteq> Renaming c" if "e = Drop t" for t c
    using Cons.prems(2) that by auto
  then have next_state: "(\<forall>x \<in> set (sys_pending s1). sys_calls s1 (fst x) \<noteq> Finished) \<and> sys_early s1 = []"
    using patient_step [OF s1(1) Cons.prems(4-7)] by blast
  have "patient lock release line file modify es s1" using Cons.prems(2) s1(1) by simp
  then show ?case
    using Cons.IH [OF s1(2) _ step_ok [OF s1(1)] step_lines [OF s1(1)] step_pending [OF s1(1)]] Cons.prems(3-5)
      next_state by blast
qed simp

lemma patient_not_early:
  assumes "ok q" and "\<And>p. line q p = []" and "sys_run lock release line file modify es (sys_init q store0) = Some s"
    and "patient lock release line file modify es (sys_init q store0)"
  shows "sys_early s = []"
  by (rule patient_run [OF assms(3,4)])
    (simp_all add: assms(1,2) sys_init_def lines_match_def pending_match_def under_way_def past_queue_def)

end

interpretation mq: lock_lines mq_lock mq_drop mq_line mq_ok
  by unfold_locales (simp_all add: mq_lock_ok mq_drop_ok mq_lock_line mq_drop_line)

section \<open>Properties of the mutation queue\<close>

abbreviation mq_run ::
  "(task \<Rightarrow> path) \<Rightarrow> (task \<Rightarrow> 'c \<Rightarrow> 'c option) \<Rightarrow> (path \<Rightarrow> 'c) \<Rightarrow> event list \<Rightarrow>
   (mutation_queue, path, 'c) system option" where
  "mq_run file modify store es \<equiv> sys_run mq_lock mq_drop mq_line file modify es (sys_init mq_new store)"

abbreviation mq_patient ::
  "(task \<Rightarrow> path) \<Rightarrow> (task \<Rightarrow> 'c \<Rightarrow> 'c option) \<Rightarrow> (path \<Rightarrow> 'c) \<Rightarrow> event list \<Rightarrow> bool" where
  "mq_patient file modify store es \<equiv> patient mq_lock mq_drop mq_line file modify es (sys_init mq_new store)"

text \<open>
  C6: Calls on a file have the effect of transactions made in turn, on every file on which no call has
  had its turn early, that is, while a rename onto the file was still pending. The steps of the calls
  interleave in any order, calls fail at any point, and calls are cancelled at any point: the contents
  of such a file are those of running the calls whose rename was carried out one after the other, in
  the order of the renames, each as one indivisible transaction that succeeds on what the ones before
  have left. If no call was early at all, this holds of all files together. No call is early unless
  one was cancelled while its rename was under way. No rename is carried out twice. (With such a
  cancellation an update can be lost: \<open>late_rename_loses_update\<close>.)
\<close>

theorem mutations_serializable:
  assumes "mq_run file modify store es = Some s"
  shows "(\<forall>p. p \<notin> file ` set (sys_early s) \<longrightarrow>
      replay_on modify (calls_on file p (sys_log s)) (store p) = Some (sys_store s p)) \<and>
    (sys_early s = [] \<longrightarrow> replay file modify (sys_log s) store = Some (sys_store s) \<and>
      sys_store s = fold (apply_call file modify) (sys_log s) store) \<and>
    (mq_patient file modify store es \<longrightarrow> sys_early s = []) \<and>
    distinct (sys_log s) \<and> (\<forall>t \<in> set (sys_log s). sys_calls s t = Settled \<or> sys_calls s t = Finished)"
proof -
  have m: "log_match file modify store s" using mq.init_invariants [OF _ _ assms] by simp
  then have files: "replay_on modify (calls_on file p (sys_log s)) (store p) = Some (sys_store s p)"
    if "p \<notin> file ` set (sys_early s)" for p
    using that by (simp add: log_match_def file_match_def)
  have all: "replay file modify (sys_log s) store = Some (sys_store s)" if "sys_early s = []"
    by (rule replay_by_files) (simp add: files that)
  have "sys_early s = []" if "mq_patient file modify store es"
    by (rule mq.patient_not_early [OF _ _ assms that]) simp_all
  moreover have "distinct (sys_log s) \<and>
      (\<forall>t \<in> set (sys_log s). sys_calls s t = Settled \<or> sys_calls s t = Finished)"
    using m by (simp add: log_match_def)
  ultimately show ?thesis using files all replay_fold [OF all] by (intro conjI allI impI) simp_all
qed

text \<open>
  C25: Mutual exclusion. Two calls on the same file are never both between their read and the drop of
  their guards. What a call has read is still the contents of its file while it computes, and when it
  waits for its rename the new contents are made from what the file still holds, unless a rename onto
  the file was pending when it read; such a rename belongs to a call that was cancelled while it
  waited for it.
\<close>

theorem mutations_exclusive:
  assumes "mq_run file modify store es = Some s"
  shows "(past_queue (sys_calls s t) \<and> past_queue (sys_calls s u) \<and> file t = file u \<longrightarrow> t = u) \<and>
    (\<forall>c. t \<notin> set (sys_early s) \<longrightarrow>
       (sys_calls s t = Loaded c \<longrightarrow> c = sys_store s (file t)) \<and>
       (sys_calls s t = Renaming c \<longrightarrow> modify t (sys_store s (file t)) = Some c)) \<and>
    (\<forall>us c. sys_calls s t = Queued \<and> mq_line (sys_queue s) (file t) = t # us \<and>
       (u, c) \<in> set (sys_pending s) \<and> file u = file t \<longrightarrow> sys_calls s u = Finished)"
proof -
  have m: "lines_match mq_line file s" "pending_match s" "loads_match file modify s"
    using mq.init_invariants [OF _ _ assms] by simp_all
  have "\<forall>c. t \<notin> set (sys_early s) \<longrightarrow>
       (sys_calls s t = Loaded c \<longrightarrow> c = sys_store s (file t)) \<and>
       (sys_calls s t = Renaming c \<longrightarrow> modify t (sys_store s (file t)) = Some c)"
    using m(3) [unfolded loads_match_def, rule_format, of t] by simp
  moreover have "past_queue (sys_calls s t) \<and> past_queue (sys_calls s u) \<and> file t = file u \<longrightarrow> t = u"
    using past_queue_unique [OF m(1)] by blast
  moreover have "\<forall>us c. sys_calls s t = Queued \<and> mq_line (sys_queue s) (file t) = t # us \<and>
      (u, c) \<in> set (sys_pending s) \<and> file u = file t \<longrightarrow> sys_calls s u = Finished"
    using mq.early_after_drop [OF m(1,2)] by blast
  ultimately show ?thesis by (intro conjI) assumption+
qed

text \<open>
  C26: No call waits in vain. Whenever a call waits for a file, the first call in the line of that
  file is under way and can take its next step, and calls for a file in whose line they are first
  can start at once: different files do not block each other.
\<close>

theorem mutations_progress:
  assumes "mq_run file modify store es = Some s" and "sys_calls s t = Queued"
  shows "\<exists>u us. mq_line (sys_queue s) (file t) = u # us \<and> file u = file t \<and>
    (case sys_calls s u of
       Queued \<Rightarrow> sys_step mq_lock mq_drop mq_line file modify (Load u) s \<noteq> None
     | Loaded c \<Rightarrow> sys_step mq_lock mq_drop mq_line file modify (Submit u) s \<noteq> None
     | Renaming c \<Rightarrow> sys_step mq_lock mq_drop mq_line file modify (Land u) s \<noteq> None
     | Settled \<Rightarrow> sys_step mq_lock mq_drop mq_line file modify (Drop u) s \<noteq> None
     | _ \<Rightarrow> False)"
proof -
  have inv: "lines_match mq_line file s" "pending_match s" using mq.init_invariants [OF _ _ assms(1)] by simp_all
  note m = lines_matchD(2) [OF inv(1)]
  have "t \<in> set (mq_line (sys_queue s) (file t))" using m assms(2) by (simp add: under_way_def)
  then obtain u us where u: "mq_line (sys_queue s) (file t) = u # us"
    by (cases "mq_line (sys_queue s) (file t)") auto
  then have uw: "file u = file t \<and> under_way (sys_calls s u)" using m [of u "file t"] by simp
  have "map_of (sys_pending s) u \<noteq> None" if "sys_calls s u = Renaming c" for c
    using mq.pending_matchD(2) [OF inv(2) that] weak_map_of_SomeI [of u c] by simp
  then show ?thesis using u uw
    by (auto simp: under_way_def split: call_state.splits option.splits)
qed

text \<open>
  Edits of one file: one is cancelled while it waits in the line, one while its rename is under way,
  which lands before the next call reads, and one fails.
\<close>

definition sample_events :: "event list" where
  "sample_events = [Request 0, Request 1, Load 0, Request 2, Drop 1, Submit 0, Request 3, Drop 0,
     Land 0, Load 2, Submit 2, Drop 2, Load 3, Request 4, Submit 3, Land 3, Drop 3, Load 4]"

definition sample_file :: "task \<Rightarrow> path" where
  "sample_file t = abs_path [lit ''f'']"

definition sample_modify :: "task \<Rightarrow> nat \<Rightarrow> nat option" where
  "sample_modify t c = (if t = 2 then None else Some (c + t + 1))"

definition sample_run :: "(mutation_queue, path, nat) system" where
  "sample_run = the (mq_run sample_file sample_modify (\<lambda>_. 5) sample_events)"

lemma sample_run:
  "mq_run sample_file sample_modify (\<lambda>_. 5) sample_events = Some sample_run"
  "sys_calls sample_run 4 = Loaded 10 \<and> sys_early sample_run = [] \<and> sys_log sample_run = [0, 3]"
proof -
  have "case mq_run sample_file sample_modify (\<lambda>_. 5) sample_events of None \<Rightarrow> False
    | Some s \<Rightarrow> sys_calls s 4 = Loaded 10 \<and> sys_early s = [] \<and> sys_log s = [0, 3]"
    by code_simp
  then show "mq_run sample_file sample_modify (\<lambda>_. 5) sample_events = Some sample_run"
    "sys_calls sample_run 4 = Loaded 10 \<and> sys_early sample_run = [] \<and> sys_log sample_run = [0, 3]"
    by (auto simp: sample_run_def split: option.splits)
qed

lemma mutations_serializable_witness:
  "replay sample_file sample_modify [0, 3] (\<lambda>_. 5) = Some (sys_store sample_run) \<and>
   sys_store sample_run = fold (apply_call sample_file sample_modify) [0, 3] (\<lambda>_. 5)"
  using mutations_serializable [OF sample_run(1)] sample_run(2) by simp

lemma mutations_exclusive_witness:
  "sys_calls sample_run 4 = Loaded 10 \<and> 10 = sys_store sample_run (sample_file 4)"
  using mutations_exclusive [OF sample_run(1), of 4 4] sample_run(2) by simp

lemma mutations_progress_witness:
  "\<exists>s. mq_run sample_file sample_modify (\<lambda>_. 5) [Request 0, Request 1] = Some s \<and>
    (\<exists>u us. mq_line (sys_queue s) (sample_file 1) = u # us \<and> sample_file u = sample_file 1)"
proof -
  have "\<exists>s. mq_run sample_file sample_modify (\<lambda>_. 5) [Request 0, Request 1] = Some s \<and> sys_calls s 1 = Queued"
    by (simp add: sys_init_def)
  then show ?thesis using mutations_progress [of sample_file sample_modify "[Request 0, Request 1]" "\<lambda>_. 5" _ 1]
    by blast
qed

text \<open>
  The guard does not cover the rename of a call that is cancelled while it waits for it: the next
  call reads the old contents and commits, and then the pending rename overwrites its update. The
  later call has reported success, and its change is gone.
\<close>

definition late_events :: "event list" where
  "late_events = [Request 0, Request 1, Load 0, Submit 0, Drop 0, Load 1, Submit 1, Land 1, Drop 1, Land 0]"

lemma late_rename_loses_update:
  "case mq_run sample_file sample_modify (\<lambda>_. 5) late_events of None \<Rightarrow> False
   | Some s \<Rightarrow> sys_log s = [1, 0] \<and> sys_early s = [1] \<and> sys_store s (sample_file 0) = 6 \<and>
       replay sample_file sample_modify [0, 1] (\<lambda>_. 5) \<noteq> None \<and>
       map_option (\<lambda>st. st (sample_file 0)) (replay sample_file sample_modify [0, 1] (\<lambda>_. 5)) = Some 8 \<and>
       map_option (\<lambda>st. st (sample_file 0)) (replay sample_file sample_modify [1, 0] (\<lambda>_. 5)) = Some 8"
  by code_simp

end
