(* ===== verification/Concurrent_Files.thy ===== *)
theory Concurrent_Files
  imports File_Session Mutation_Queue
begin

text \<open>
  Write and edit calls on one file at the same time. The calls share the file system and take the
  steps of their handlers on it in any order; what they leave in the file is what the same calls
  leave when they are made one after the other, in the order in which their renames were carried out.
  The transactions of \<^theory_text>\<open>Mutation_Queue\<close>, with what the tools do to the text of the file, are the step
  in between: the shared file system refines them.
\<close>

section \<open>The effect on the text\<close>

text \<open>What a call makes of the text of its file; a call that fails or only reads commits nothing.\<close>

definition file_modify ::
  "(rchar \<Rightarrow> rstr) \<Rightarrow> (task \<Rightarrow> file_call) \<Rightarrow> task \<Rightarrow> rstr option \<Rightarrow> rstr option option" where
  "file_modify nfkc call t st =
     (case call t of
        WriteCall content \<Rightarrow> Some (Some content)
      | EditCall edits \<Rightarrow> map_option Some (Option.bind st (edit_text nfkc edits))
      | ReadCall offset limit \<Rightarrow> None)"

lemma file_modify_spec:
  "file_modify nfkc call t st = Some st' \<Longrightarrow> spec_call nfkc il path (call t) st = (Changed, st')"
  by (cases "call t") (auto simp: file_modify_def)

lemma replay_is_session:
  "replay (\<lambda>_. p) (file_modify nfkc call) ts store = Some store' \<Longrightarrow>
   spec_session nfkc il path (map call ts) (store p) = (replicate (length ts) Changed, store' p)"
proof (induction ts arbitrary: store)
  case (Cons t ts)
  then obtain c where c: "file_modify nfkc call t (store p) = Some c"
    "replay (\<lambda>_. p) (file_modify nfkc call) ts (store(p := c)) = Some store'"
    by (auto split: option.splits)
  then show ?case using Cons.IH [OF c(2)] file_modify_spec [OF c(1), of il path] by simp
qed simp

section \<open>The steps of the handlers on a shared file system\<close>

text \<open>The calls that get as far as the lock: \<^theory_text>\<open>edit\<close> first looks at its arguments.\<close>

fun takes_lock :: "file_call \<Rightarrow> bool" where
  "takes_lock (WriteCall content) = True"
| "takes_lock (EditCall edits) = (edits \<noteq> [] \<and> \<not> list_ex (\<lambda>entry. old_text entry = []) edits)"
| "takes_lock (ReadCall offset limit) = False"

definition locking :: "(task \<Rightarrow> file_call) \<Rightarrow> task set" where
  "locking call = {t. takes_lock (call t)}"

text \<open>The bytes that a call writes, from what it has read: the middle of \<^theory_text>\<open>edit::run\<close>.\<close>

fun new_bytes :: "(rchar \<Rightarrow> rstr) \<Rightarrow> file_call \<Rightarrow> byte list \<Rightarrow> byte list option" where
  "new_bytes nfkc (WriteCall content) bytes = Some (utf8_encode content)"
| "new_bytes nfkc (EditCall edits) bytes =
     (if 0 \<in> set (take (min (length bytes) BINARY_SNIFF_LEN) bytes) then None
      else case utf8_decode bytes of
          None \<Rightarrow> None
        | Some original_text \<Rightarrow>
            (let (had_bom, content) = strip_bom original_text
             in case edit_content nfkc content edits of
                  Inl _ \<Rightarrow> None
                | Inr final_content \<Rightarrow> Some (restore_bom had_bom final_content)))"
| "new_bytes nfkc (ReadCall offset limit) bytes = None"

text \<open>What a call does before it knows the bytes: \<^theory_text>\<open>create_dir_all\<close> for \<^theory_text>\<open>write\<close>, \<^theory_text>\<open>read\<close> for \<^theory_text>\<open>edit\<close>.\<close>

fun first_access :: "file_call \<Rightarrow> path \<Rightarrow> fs \<Rightarrow> (io_error + byte list) \<times> fs" where
  "first_access (WriteCall content) target fs =
     (case path_parent target of
        None \<Rightarrow> (Inr [], fs)
      | Some parent \<Rightarrow> (let (created, fs') = create_dir_all fs parent in (map_sum id (\<lambda>_. []) created, fs')))"
| "first_access call target fs = (fs_read fs target, fs)"

definition temp_path :: "path \<Rightarrow> rstr \<Rightarrow> path" where
  "temp_path target rnd =
     (case path_parent target of Some d \<Rightarrow> d | None \<Rightarrow> [CurDir]) @
     [Normal (temp_name (case path_file_name target of Some f \<Rightarrow> f | None \<Rightarrow> []) rnd)]"

text \<open>\<^theory_text>\<open>let _ = remove_file(&tmp)\<close>\<close>

definition remove_quietly :: "fs \<Rightarrow> path \<Rightarrow> fs" where
  "remove_quietly fs p = (case fs_remove fs p of Inl _ \<Rightarrow> fs | Inr fs' \<Rightarrow> fs')"

text \<open>
  The steps of \<^theory_text>\<open>Mutation_Queue\<close> on a file system, and one in which a call has written some of the
  bytes to its temporary file. A rename that is pending is carried out on the tree as it is then.
  Of a cancelled call only the rename is followed: whatever else it had running on the blocking pool
  can only make directories on the way or touch its own temporary file.
\<close>

datatype tx_event = Do event | Spill task nat

record tx_state =
  tx_fs :: fs
  tx_queue :: mutation_queue
  tx_calls :: "task \<Rightarrow> (io_error + byte list) call_state"
  tx_pending :: "task list"
  tx_log :: "task list"
  tx_early :: "task list"

fun tx_step ::
  "(rchar \<Rightarrow> rstr) \<Rightarrow> (task \<Rightarrow> file_call) \<Rightarrow> (task \<Rightarrow> rstr) \<Rightarrow> path \<Rightarrow> tx_event \<Rightarrow> tx_state \<Rightarrow> tx_state option"
where
  "tx_step nfkc call rnd target (Do (Request t)) s =
     (case tx_calls s t of
        Idle \<Rightarrow>
          if takes_lock (call t)
          then Some (s\<lparr>tx_queue := mq_lock (tx_queue s) target t, tx_calls := (tx_calls s)(t := Queued)\<rparr>)
          else None
      | _ \<Rightarrow> None)"
| "tx_step nfkc call rnd target (Do (Load t)) s =
     (case tx_calls s t of
        Queued \<Rightarrow>
          (case mq_line (tx_queue s) target of
             [] \<Rightarrow> None
           | u # _ \<Rightarrow>
               if u = t
               then (let (loaded, fs') = first_access (call t) target (tx_fs s)
                     in Some (s\<lparr>tx_fs := fs', tx_calls := (tx_calls s)(t := Loaded loaded),
                                tx_early := tx_early s @ (if tx_pending s \<noteq> [] then [t] else [])\<rparr>))
               else None)
      | _ \<Rightarrow> None)"
| "tx_step nfkc call rnd target (Do (Submit t)) s =
     (let settled = Some (s\<lparr>tx_calls := (tx_calls s)(t := Settled)\<rparr>)
      in case tx_calls s t of
        Loaded (Inl _) \<Rightarrow> settled
      | Loaded (Inr original) \<Rightarrow>
          (case new_bytes nfkc (call t) original of
             None \<Rightarrow> settled
           | Some bytes \<Rightarrow>
               (case fs_create (tx_fs s) (temp_path target (rnd t)) of
                  Inl _ \<Rightarrow> settled
                | Inr (file, fs1) \<Rightarrow>
                    Some (s\<lparr>tx_fs := fs1(file \<mapsto> File bytes),
                           tx_calls := (tx_calls s)(t := Renaming (Inr bytes)),
                           tx_pending := tx_pending s @ [t]\<rparr>)))
      | _ \<Rightarrow> None)"
| "tx_step nfkc call rnd target (Do (Land t)) s =
     (if t \<in> set (tx_pending s) then
        (case fs_rename (tx_fs s) (temp_path target (rnd t)) target of
           Inl _ \<Rightarrow> None
         | Inr fs' \<Rightarrow>
             Some (s\<lparr>tx_fs := fs', tx_calls := (tx_calls s)(t := settle (tx_calls s t)),
                    tx_pending := filter (\<lambda>u. u \<noteq> t) (tx_pending s), tx_log := tx_log s @ [t]\<rparr>))
      else None)"
| "tx_step nfkc call rnd target (Do (Fail t)) s =
     (let cleaned = remove_quietly (tx_fs s) (temp_path target (rnd t))
      in case tx_calls s t of
        Loaded (Inr _) \<Rightarrow> Some (s\<lparr>tx_fs := cleaned, tx_calls := (tx_calls s)(t := Settled)\<rparr>)
      | Renaming _ \<Rightarrow>
          if t \<in> set (tx_pending s)
          then Some (s\<lparr>tx_fs := cleaned, tx_calls := (tx_calls s)(t := Settled),
                      tx_pending := filter (\<lambda>u. u \<noteq> t) (tx_pending s)\<rparr>)
          else None
      | _ \<Rightarrow>
          if t \<in> set (tx_pending s)
          then Some (s\<lparr>tx_pending := filter (\<lambda>u. u \<noteq> t) (tx_pending s)\<rparr>)
          else None)"
| "tx_step nfkc call rnd target (Do (Drop t)) s =
     (case tx_calls s t of
        Idle \<Rightarrow> None
      | Finished \<Rightarrow> None
      | _ \<Rightarrow> Some (s\<lparr>tx_queue := mq_drop (tx_queue s) target t, tx_calls := (tx_calls s)(t := Finished)\<rparr>))"
| "tx_step nfkc call rnd target (Spill t k) s =
     (case tx_calls s t of
        Loaded (Inr original) \<Rightarrow>
          (case new_bytes nfkc (call t) original of
             None \<Rightarrow> None
           | Some bytes \<Rightarrow>
               (case fs_create (tx_fs s) (temp_path target (rnd t)) of
                  Inl _ \<Rightarrow> None
                | Inr (file, fs1) \<Rightarrow> Some (s\<lparr>tx_fs := fs1(file \<mapsto> File (take k bytes))\<rparr>)))
      | _ \<Rightarrow> None)"

fun tx_run ::
  "(rchar \<Rightarrow> rstr) \<Rightarrow> (task \<Rightarrow> file_call) \<Rightarrow> (task \<Rightarrow> rstr) \<Rightarrow> path \<Rightarrow> tx_event list \<Rightarrow> tx_state \<Rightarrow> tx_state option"
where
  "tx_run nfkc call rnd target [] s = Some s"
| "tx_run nfkc call rnd target (e # es) s =
     Option.bind (tx_step nfkc call rnd target e s) (tx_run nfkc call rnd target es)"

definition tx_init :: "fs \<Rightarrow> tx_state" where
  "tx_init fs = \<lparr>tx_fs = fs, tx_queue = mq_new, tx_calls = (\<lambda>_. Idle), tx_pending = [], tx_log = [],
     tx_early = []\<rparr>"

fun steps_of :: "tx_event list \<Rightarrow> event list" where
  "steps_of [] = []"
| "steps_of (Do e # es) = e # steps_of es"
| "steps_of (Spill t k # es) = steps_of es"

lemma temp_path_abs [simp]: "temp_path (abs_path (d @ [n])) rnd = abs_path (d @ [temp_name n rnd])"
  by (simp add: temp_path_def) (simp add: abs_path_def)

lemma new_bytes_text:
  assumes "takes_lock call" and "valid_str t" and "call = EditCall edits"
  shows "new_bytes nfkc call (utf8_encode t) = map_option utf8_encode (edit_text nfkc edits t)"
proof -
  have sniff: "take (min (length (utf8_encode t)) BINARY_SNIFF_LEN) (utf8_encode t)
      = take BINARY_SNIFF_LEN (utf8_encode t)"
    by (cases "length (utf8_encode t) \<le> BINARY_SNIFF_LEN") (simp_all add: min_def)
  show ?thesis
    using assms(1) utf8_decode_encode [OF assms(2)] sniff unfolding assms(3)
    by (auto simp: edit_text_def restore_bom_eq split: prod.splits sum.splits)
qed

section \<open>The shared file system refines the transactions\<close>

text \<open>The state of a call against its state as a transaction on the text.\<close>

fun call_rel :: "file_call \<Rightarrow> (io_error + byte list) call_state \<Rightarrow> rstr option call_state \<Rightarrow> bool" where
  "call_rel c (Loaded x) y \<longleftrightarrow>
     (\<exists>st. y = Loaded st \<and> (case c of
        WriteCall content \<Rightarrow> x = Inr []
      | EditCall edits \<Rightarrow>
          (case st of None \<Rightarrow> isl x | Some t \<Rightarrow> valid_str t \<and> x = Inr (utf8_encode t))
      | ReadCall offset limit \<Rightarrow> False))"
| "call_rel c (Renaming x) y \<longleftrightarrow> (\<exists>st. y = Renaming st)"
| "call_rel c Idle y \<longleftrightarrow> y = Idle"
| "call_rel c Queued y \<longleftrightarrow> y = Queued"
| "call_rel c Settled y \<longleftrightarrow> y = Settled"
| "call_rel c Finished y \<longleftrightarrow> y = Finished"

definition text_at :: "fpath \<Rightarrow> rstr option \<Rightarrow> fs \<Rightarrow> bool" where
  "text_at p st fs \<longleftrightarrow>
     (case st of None \<Rightarrow> fs p = None | Some t \<Rightarrow> valid_str t \<and> fs p = Some (File (utf8_encode t)))"

text \<open>
  The trees of a run: the one at the start until the first call has created the directories, and
  then trees in which only the target, temporary files and the new directories differ from it.
\<close>

definition tree_ok :: "rstr set \<Rightarrow> fpath \<Rightarrow> rstr \<Rightarrow> fs \<Rightarrow> fs \<Rightarrow> bool" where
  "tree_ok rnds d n fs0 fs \<longleftrightarrow>
     wf_fs fs \<and> (fs = fs0 \<or> fs d = Some Dir) \<and>
     (\<forall>x \<in> rnds. fs (d @ [temp_name n x]) = None \<or> (\<exists>b. fs (d @ [temp_name n x]) = Some (File b))) \<and>
     (\<forall>q. q \<noteq> d @ [n] \<and> (\<forall>x \<in> rnds. q \<noteq> d @ [temp_name n x]) \<longrightarrow>
        fs q = fs0 q \<or> fs0 q = None \<and> fs q = Some Dir \<and> prefix q d)"

definition calls_rel ::
  "(task \<Rightarrow> file_call) \<Rightarrow> tx_state \<Rightarrow> (mutation_queue, path, rstr option) system \<Rightarrow> bool" where
  "calls_rel call s a \<longleftrightarrow>
     sys_queue a = tx_queue s \<and> sys_early a = tx_early s \<and> sys_log a = tx_log s \<and>
     map fst (sys_pending a) = tx_pending s \<and> pending_match a \<and>
     (\<forall>t. call_rel (call t) (tx_calls s t) (sys_calls a t) \<and> (tx_calls s t \<noteq> Idle \<longrightarrow> takes_lock (call t)))"

definition files_rel ::
  "(task \<Rightarrow> rstr) \<Rightarrow> fpath \<Rightarrow> rstr \<Rightarrow> tx_state \<Rightarrow> (mutation_queue, path, rstr option) system \<Rightarrow> bool" where
  "files_rel rnd d n s a \<longleftrightarrow>
     text_at (d @ [n]) (sys_store a (abs_path (d @ [n]))) (tx_fs s) \<and>
     (\<forall>t b. tx_calls s t = Loaded (Inr b) \<longrightarrow> tx_fs s d = Some Dir) \<and>
     (\<forall>x \<in> set (sys_pending a). tx_fs s d = Some Dir \<and> snd x \<noteq> None \<and>
        text_at (d @ [temp_name n (rnd (fst x))]) (snd x) (tx_fs s))"

definition tx_rel ::
  "(task \<Rightarrow> file_call) \<Rightarrow> (task \<Rightarrow> rstr) \<Rightarrow> fs \<Rightarrow> fpath \<Rightarrow> rstr \<Rightarrow> tx_state \<Rightarrow>
   (mutation_queue, path, rstr option) system \<Rightarrow> bool" where
  "tx_rel call rnd fs0 d n s a \<longleftrightarrow> calls_rel call s a \<and> files_rel rnd d n s a \<and>
     tree_ok (rnd ` locking call) d n fs0 (tx_fs s)"

text \<open>Writing to or removing the target or a temporary file.\<close>

lemma tree_ok_set:
  assumes "tree_ok rnds d n fs0 fs" and "fs d = Some Dir" and "plain_name m" and "fs (d @ [m]) \<noteq> Some Dir"
    and "m = n \<or> (\<exists>x \<in> rnds. m = temp_name n x)"
  shows "tree_ok rnds d n fs0 (fs(d @ [m] \<mapsto> File b))" "tree_ok rnds d n fs0 (fs(d @ [m] := None))"
proof -
  have wf: "wf_fs (fs(d @ [m] \<mapsto> File b))" "wf_fs (fs(d @ [m] := None))"
    using wf_fs_set [of fs d m "File b"] wf_fs_remove [of fs "d @ [m]"] assms(1-4)
    by (simp_all add: tree_ok_def)
  show "tree_ok rnds d n fs0 (fs(d @ [m] \<mapsto> File b))" "tree_ok rnds d n fs0 (fs(d @ [m] := None))"
    using wf assms(1,2,5) by (auto simp: tree_ok_def)
qed

lemma settings_names:
  assumes "holds_text r path d n rnds st fs0" and "x \<in> rnds"
  shows "plain_name n" "plain_name (temp_name n x)"
proof -
  have S: "write_setting fs0 r path d n x" using assms by (simp add: holds_text_def)
  show "plain_name n" by (rule setting_parent_settled [OF S])
  then show "plain_name (temp_name n x)"
    using S plain_temp_name by (simp add: write_setting_def)
qed

lemma temp_not_prefix: "\<not> prefix (d @ [m]) d"
  by (auto dest: prefix_length_le)

lemma temp_name_inj: "temp_name n x = temp_name n y \<longleftrightarrow> x = y"
  by (simp add: temp_name_def)

text \<open>The first access of a call, in every tree of a run.\<close>

lemma first_access_write:
  assumes "holds_text r path d n rnds st0 fs0" and "tree_ok rnds d n fs0 fs" and "rnds \<noteq> {}"
    and "first_access (WriteCall content) (abs_path (d @ [n])) fs = (loaded, fs')"
  shows "loaded = Inr [] \<and> tree_ok rnds d n fs0 fs' \<and> fs' d = Some Dir \<and> (fs d = Some Dir \<longrightarrow> fs' = fs) \<and>
    fs' (d @ [n]) = fs (d @ [n])"
proof -
  obtain res fs1 where c: "create_dir_all fs (abs_path d) = (res, fs1)" by force
  then have acc: "loaded = map_sum id (\<lambda>_. []) res" "fs' = fs1" using assms(4) by simp_all
  have wf: "wf_fs fs" using assms(2) by (simp add: tree_ok_def)
  obtain x0 where x0: "x0 \<in> rnds" using assms(3) by blast
  show ?thesis
  proof (cases "fs d = Some Dir")
    case True
    have "dirs_created fs d [] (res, fs1)"
      using create_dir_all_existing [OF wf wf_fs_Some_dir [OF wf True]] c by simp
    then have "res = Inr () \<and> fs1 = fs" using True by (auto simp: dirs_created_def split: sum.splits)
    then show ?thesis using acc True assms(2) by simp
  next
    case False
    then have fs: "fs = fs0" using assms(2) by (auto simp: tree_ok_def)
    have S: "write_setting fs r path d n x" if "x \<in> rnds" for x using assms(1) fs that by (simp add: holds_text_def)
    have clear: "prefix p d \<and> fs p = Some x \<Longrightarrow> x = Dir" for p x using assms(1) fs by (simp add: holds_text_def)
    note cp = create_parents [OF S c]
    have res: "res = Inr ()" using cp [OF x0] clear by (cases res) auto
    have way: "dirs_on_the_way fs d fs1" and w: "fs1 (d @ [n]) = fs (d @ [n])"
      using cp [OF x0] res by simp_all
    have W: "writable fs1 d n x" if "x \<in> rnds" for x using cp [OF that] res by simp
    have "tree_ok rnds d n fs0 fs1"
      using way writableD(1,2) [OF W [OF x0]] writableD(4) [OF W] unfolding tree_ok_def dirs_on_the_way_def fs by blast
    then show ?thesis using acc res w writableD(2) [OF W [OF x0]] False by simp
  qed
qed

lemma first_access_edit:
  assumes "holds_text r path d n rnds st0 fs0" and "tree_ok rnds d n fs0 fs" and "rnds \<noteq> {}"
    and "text_at (d @ [n]) st fs"
  shows "case st of None \<Rightarrow> isl (fs_read fs (abs_path (d @ [n])))
    | Some t \<Rightarrow> valid_str t \<and> fs_read fs (abs_path (d @ [n])) = Inr (utf8_encode t) \<and> fs d = Some Dir"
proof (cases st)
  case None
  then have no: "fs (d @ [n]) = None" using assms(4) by (simp add: text_at_def)
  have wf: "wf_fs fs" using assms(2) by (simp add: tree_ok_def)
  have "\<exists>e. canonicalize fs (abs_path (d @ [n])) = Inl e"
  proof (cases "fs d = Some Dir")
    case True
    then show ?thesis using canonicalize_missing [OF wf True no] by blast
  next
    case False
    then have fs: "fs = fs0" using assms(2) by (auto simp: tree_ok_def)
    obtain x where "x \<in> rnds" using assms(3) by blast
    then have "write_setting fs0 r path d n x" using assms(1) by (simp add: holds_text_def)
    then show ?thesis using target_absent no fs by blast
  qed
  then show ?thesis using None by (auto simp: fs_read_def)
next
  case (Some t)
  then have "valid_str t" and f: "fs (d @ [n]) = Some (File (utf8_encode t))" using assms(4) by (simp_all add: text_at_def)
  moreover have wf: "wf_fs fs" using assms(2) by (simp add: tree_ok_def)
  ultimately show ?thesis using Some fs_read_canonical [OF wf f] wf_fs_parent [OF wf f] by simp
qed

text \<open>What a call that has loaded a text will write.\<close>

lemma loaded_bytes:
  assumes "call_rel (call t) (Loaded x) (Loaded st)" and "takes_lock (call t)" and "valid_call (call t)"
  shows "case file_modify nfkc call t st of
      None \<Rightarrow> (\<forall>original. x = Inr original \<longrightarrow> new_bytes nfkc (call t) original = None)
    | Some st' \<Rightarrow> \<exists>original t'. x = Inr original \<and> st' = Some t' \<and> valid_str t' \<and>
        new_bytes nfkc (call t) original = Some (utf8_encode t')"
proof (cases "call t")
  case (EditCall edits)
  show ?thesis
  proof (cases st)
    case None
    then show ?thesis using assms(1) EditCall by (auto simp: file_modify_def)
  next
    case (Some w)
    then have v: "valid_str w" "x = Inr (utf8_encode w)" using assms(1) EditCall by simp_all
    have v': "\<forall>e \<in> set edits. valid_str (new_text e)" using assms(3) EditCall by simp
    show ?thesis
      using new_bytes_text [OF assms(2) v(1) EditCall, of nfkc] v edit_text_valid [OF _ v(1) v', of nfkc] Some EditCall
      by (cases "edit_text nfkc edits w") (simp_all add: file_modify_def del: new_bytes.simps)
  qed
qed (use assms in \<open>auto simp: file_modify_def\<close>)

lemma calls_relD:
  assumes "calls_rel call s a"
  shows "sys_queue a = tx_queue s" "sys_early a = tx_early s" "sys_log a = tx_log s"
    "map fst (sys_pending a) = tx_pending s" "pending_match a" "call_rel (call t) (tx_calls s t) (sys_calls a t)"
    "tx_calls s t \<noteq> Idle \<Longrightarrow> takes_lock (call t)"
  using assms by (simp_all add: calls_rel_def)

abbreviation text_step ::
  "(rchar \<Rightarrow> rstr) \<Rightarrow> (task \<Rightarrow> file_call) \<Rightarrow> path \<Rightarrow> event \<Rightarrow> (mutation_queue, path, rstr option) system \<Rightarrow>
   (mutation_queue, path, rstr option) system option" where
  "text_step nfkc call p \<equiv> sys_step mq_lock mq_drop mq_line (\<lambda>_. p) (file_modify nfkc call)"

lemma calls_rel_step:
  assumes "calls_rel call s a" and "text_step nfkc call p e a = Some a'"
    and "tx_calls s' = (tx_calls s)(t := x)" and "sys_calls a' = (sys_calls a)(t := y)"
    and "call_rel (call t) x y" and "takes_lock (call t)"
    and "sys_queue a' = tx_queue s'" and "sys_early a' = tx_early s'" and "sys_log a' = tx_log s'"
    and "map fst (sys_pending a') = tx_pending s'"
  shows "calls_rel call s' a'"
  using assms(1) mq.step_pending [OF assms(2)] assms(3-) by (simp add: calls_rel_def)

lemma pending_not_loaded:
  assumes "calls_rel call s a" and "tx_calls s t = Loaded x" and "y \<in> set (sys_pending a)"
  shows "fst y \<noteq> t"
proof
  assume t: "fst y = t"
  obtain st where "sys_calls a t = Loaded st" using calls_relD(6) [OF assms(1), of t] assms(2) by auto
  moreover have "(t, snd y) \<in> set (sys_pending a)" using assms(3) t by (metis prod.collapse)
  ultimately show False using mq.pending_matchD(1) [OF calls_relD(5) [OF assms(1)]] by force
qed

lemma pending_locking:
  assumes "calls_rel call s a" and "y \<in> set (sys_pending a)"
  shows "fst y \<in> locking call"
proof -
  have "sys_calls a (fst y) \<noteq> Idle"
    using mq.pending_matchD(1) [OF calls_relD(5) [OF assms(1)], of "fst y" "snd y"] assms(2) by auto
  then have "tx_calls s (fst y) \<noteq> Idle" using calls_relD(6) [OF assms(1), of "fst y"] by auto
  then show ?thesis using calls_relD(7) [OF assms(1)] by (simp add: locking_def)
qed

lemma text_at_other: "p \<noteq> q \<Longrightarrow> text_at p st (fs(q := x)) = text_at p st fs"
  by (cases st) (simp_all add: text_at_def)

lemma sim_request:
  assumes "tx_rel call rnd fs0 d n s a" and "tx_step nfkc call rnd (abs_path (d @ [n])) (Do (Request t)) s = Some s'"
  obtains a' where "text_step nfkc call (abs_path (d @ [n])) (Request t) a = Some a'" "tx_rel call rnd fs0 d n s' a'"
proof -
  have R: "calls_rel call s a" "files_rel rnd d n s a" "tree_ok (rnd ` locking call) d n fs0 (tx_fs s)"
    using assms(1) by (simp_all add: tx_rel_def)
  have idle: "tx_calls s t = Idle" "takes_lock (call t)"
    and s': "s' = s\<lparr>tx_queue := mq_lock (tx_queue s) (abs_path (d @ [n])) t, tx_calls := (tx_calls s)(t := Queued)\<rparr>"
    using assms(2) by (auto split: call_state.splits if_splits)
  note C = calls_relD [OF R(1)]
  let ?a = "a\<lparr>sys_queue := mq_lock (sys_queue a) (abs_path (d @ [n])) t, sys_calls := (sys_calls a)(t := Queued)\<rparr>"
  have step: "text_step nfkc call (abs_path (d @ [n])) (Request t) a = Some ?a" using C(6) [of t] idle(1) by simp
  have "calls_rel call s' ?a" by (rule calls_rel_step [OF R(1) step, of _ t Queued Queued]) (simp_all add: s' C idle)
  then show thesis using R by (intro that [OF step]) (auto simp: tx_rel_def files_rel_def s')
qed

lemma sim_drop:
  assumes "tx_rel call rnd fs0 d n s a" and "tx_step nfkc call rnd (abs_path (d @ [n])) (Do (Drop t)) s = Some s'"
  obtains a' where "text_step nfkc call (abs_path (d @ [n])) (Drop t) a = Some a'" "tx_rel call rnd fs0 d n s' a'"
proof -
  have R: "calls_rel call s a" "files_rel rnd d n s a" "tree_ok (rnd ` locking call) d n fs0 (tx_fs s)"
    using assms(1) by (simp_all add: tx_rel_def)
  have uw: "tx_calls s t \<noteq> Idle" "tx_calls s t \<noteq> Finished"
    and s': "s' = s\<lparr>tx_queue := mq_drop (tx_queue s) (abs_path (d @ [n])) t, tx_calls := (tx_calls s)(t := Finished)\<rparr>"
    using assms(2) by (auto split: call_state.splits)
  note C = calls_relD [OF R(1)]
  let ?a = "a\<lparr>sys_queue := mq_drop (sys_queue a) (abs_path (d @ [n])) t, sys_calls := (sys_calls a)(t := Finished)\<rparr>"
  have step: "text_step nfkc call (abs_path (d @ [n])) (Drop t) a = Some ?a"
    using C(6) [of t] uw by (cases "tx_calls s t") auto
  have "calls_rel call s' ?a"
    by (rule calls_rel_step [OF R(1) step, of _ t Finished Finished]) (simp_all add: s' C uw)
  then show thesis using R by (intro that [OF step]) (auto simp: tx_rel_def files_rel_def s')
qed

lemma sim_load:
  assumes "tx_rel call rnd fs0 d n s a" and "tx_step nfkc call rnd (abs_path (d @ [n])) (Do (Load t)) s = Some s'"
    and "holds_text r path d n (rnd ` locking call) st0 fs0"
  obtains a' where "text_step nfkc call (abs_path (d @ [n])) (Load t) a = Some a'" "tx_rel call rnd fs0 d n s' a'"
proof -
  let ?p = "abs_path (d @ [n])"
  have R: "calls_rel call s a" "files_rel rnd d n s a" "tree_ok (rnd ` locking call) d n fs0 (tx_fs s)"
    using assms(1) by (simp_all add: tx_rel_def)
  note C = calls_relD [OF R(1)]
  obtain us loaded fs' where q: "tx_calls s t = Queued" "mq_line (tx_queue s) ?p = t # us"
    and acc: "first_access (call t) ?p (tx_fs s) = (loaded, fs')"
    and s': "s' = s\<lparr>tx_fs := fs', tx_calls := (tx_calls s)(t := Loaded loaded),
        tx_early := tx_early s @ (if tx_pending s \<noteq> [] then [t] else [])\<rparr>"
    using assms(2) by (auto split: call_state.splits list.splits if_split_asm prod.splits)
  let ?st = "sys_store a ?p"
  have tk: "takes_lock (call t)" using C(7) q(1) by simp
  have at: "text_at (d @ [n]) ?st (tx_fs s)" using R(2) by (simp add: files_rel_def)
  have ne: "rnd ` locking call \<noteq> {}" using tk by (auto simp: locking_def)
  have F: "tree_ok (rnd ` locking call) d n fs0 fs' \<and> (loaded = Inr b \<longrightarrow> fs' d = Some Dir) \<and> (tx_fs s d = Some Dir \<longrightarrow> fs' = tx_fs s) \<and>
      fs' (d @ [n]) = tx_fs s (d @ [n]) \<and> call_rel (call t) (Loaded loaded) (Loaded ?st)" for b
  proof (cases "call t")
    case (WriteCall content)
    then show ?thesis using first_access_write [OF assms(3) R(3) ne] acc by simp
  next
    case (EditCall edits)
    then have "loaded = fs_read (tx_fs s) ?p" "fs' = tx_fs s" using acc by auto
    then show ?thesis using first_access_edit [OF assms(3) R(3) ne at] R(3) EditCall by (auto split: option.splits)
  qed (use tk in simp)
  let ?a = "a\<lparr>sys_calls := (sys_calls a)(t := Loaded ?st),
      sys_early := sys_early a @ (if sys_pending a \<noteq> [] then [t] else [])\<rparr>"
  have ex: "list_ex (\<lambda>x. True) xs \<longleftrightarrow> xs \<noteq> []" for xs :: "(task \<times> rstr option) list" by (cases xs) simp_all
  have step: "text_step nfkc call ?p (Load t) a = Some ?a" using C(6) [of t] q C(1) by (simp add: ex)
  have "calls_rel call s' ?a"
    by (rule calls_rel_step [OF R(1) step, of _ t "Loaded loaded" "Loaded ?st"]) (use F s' C tk in auto)
  moreover have "files_rel rnd d n s' ?a" using R(2) F s' by (auto simp: files_rel_def text_at_def split: option.splits)
  ultimately show thesis using F s' by (intro that [OF step]) (simp add: tx_rel_def)
qed

text \<open>Creating a temporary file, with any bytes.\<close>

lemma temp_created:
  assumes "tree_ok rnds d n fs0 fs" and "fs d = Some Dir" and "plain_name (temp_name n x)" and "x \<in> rnds"
  shows "fs_create fs (temp_path (abs_path (d @ [n])) x)
      = Inr (d @ [temp_name n x], fs(d @ [temp_name n x] \<mapsto> File []))"
    "tree_ok rnds d n fs0 (fs(d @ [temp_name n x] \<mapsto> File b))"
    "tree_ok rnds d n fs0 (remove_quietly fs (temp_path (abs_path (d @ [n])) x))"
    "\<exists>y. remove_quietly fs (temp_path (abs_path (d @ [n])) x) = fs(d @ [temp_name n x] := y)"
proof -
  have wf: "wf_fs fs" and free: "fs (d @ [temp_name n x]) = None \<or> (\<exists>b. fs (d @ [temp_name n x]) = Some (File b))"
    using assms(1,4) by (simp_all add: tree_ok_def)
  then have nd: "fs (d @ [temp_name n x]) \<noteq> Some Dir" by auto
  show "fs_create fs (temp_path (abs_path (d @ [n])) x)
      = Inr (d @ [temp_name n x], fs(d @ [temp_name n x] \<mapsto> File []))"
    using fs_create_canonical [OF wf assms(2) free] by simp
  note ok = tree_ok_set [OF assms(1,2,3) nd]
  show "tree_ok rnds d n fs0 (fs(d @ [temp_name n x] \<mapsto> File b))" by (rule ok(1)) (use assms(4) in blast)
  have q: "remove_quietly fs (temp_path (abs_path (d @ [n])) x) =
      (if fs (d @ [temp_name n x]) = None then fs else fs(d @ [temp_name n x] := None))"
    using free fs_remove_canonical [OF wf assms(2)] locate_canonical [OF wf wf_fs_Some_dir [OF wf assms(2)] assms(2)]
    by (auto simp: remove_quietly_def fs_remove_def)
  show "tree_ok rnds d n fs0 (remove_quietly fs (temp_path (abs_path (d @ [n])) x))"
    unfolding q using ok(2) assms(1,4) by auto
  show "\<exists>y. remove_quietly fs (temp_path (abs_path (d @ [n])) x) = fs(d @ [temp_name n x] := y)"
    unfolding q by (metis fun_upd_triv)
qed

text \<open>A change of the temporary file of a call that has no rename pending.\<close>

lemma files_rel_temp:
  assumes "files_rel rnd d n s a" and "inj_on rnd T" and "\<forall>y \<in> set (sys_pending a'). fst y \<noteq> t \<and> fst y \<in> T" and "t \<in> T"
    and "set (sys_pending a') \<subseteq> set (sys_pending a)" and "sys_store a' = sys_store a"
    and "tx_fs s' = (tx_fs s)(d @ [temp_name n (rnd t)] := x)"
    and "\<And>u b. tx_calls s' u = Loaded (Inr b) \<Longrightarrow> tx_calls s u = Loaded (Inr b)"
  shows "files_rel rnd d n s' a'"
proof -
  have ne: "d @ [n] \<noteq> d @ [temp_name n (rnd t)]" "d \<noteq> d @ [temp_name n (rnd t)]"
    using temp_name_neq [of n "rnd t"] by auto
  have other: "d @ [temp_name n (rnd (fst y))] \<noteq> d @ [temp_name n (rnd t)]" if "y \<in> set (sys_pending a')" for y
    using that assms(2-4) by (auto simp: temp_name_inj dest: inj_onD)
  have F: "text_at (d @ [n]) (sys_store a (abs_path (d @ [n]))) (tx_fs s)"
    "\<And>u b. tx_calls s u = Loaded (Inr b) \<Longrightarrow> tx_fs s d = Some Dir"
    "\<And>y. y \<in> set (sys_pending a) \<Longrightarrow> tx_fs s d = Some Dir \<and> snd y \<noteq> None \<and>
       text_at (d @ [temp_name n (rnd (fst y))]) (snd y) (tx_fs s)"
    using assms(1) by (auto simp: files_rel_def)
  have dir: "tx_fs s' d = tx_fs s d" using ne(2) unfolding assms(7) by simp
  have "tx_fs s' d = Some Dir \<and> snd y \<noteq> None \<and> text_at (d @ [temp_name n (rnd (fst y))]) (snd y) (tx_fs s')"
    if y: "y \<in> set (sys_pending a')" for y
    using F(3) [OF subsetD [OF assms(5) y]] ne(2) other [OF y] by (simp add: assms(7) text_at_other)
  moreover have "text_at (d @ [n]) (sys_store a' (abs_path (d @ [n]))) (tx_fs s')"
    using F(1) text_at_other [OF ne(1)] unfolding assms(6,7) by blast
  moreover have "tx_fs s' d = Some Dir" if "tx_calls s' u = Loaded (Inr b)" for u b
    using F(2) [OF assms(8) [OF that]] dir by simp
  ultimately show ?thesis unfolding files_rel_def by blast
qed

lemma sim_spill:
  assumes "tx_rel call rnd fs0 d n s a" and "tx_step nfkc call rnd (abs_path (d @ [n])) (Spill t k) s = Some s'"
    and "holds_text r path d n (rnd ` locking call) st0 fs0" and "inj_on rnd (locking call)"
  shows "tx_rel call rnd fs0 d n s' a"
proof -
  have R: "calls_rel call s a" "files_rel rnd d n s a" "tree_ok (rnd ` locking call) d n fs0 (tx_fs s)"
    using assms(1) by (simp_all add: tx_rel_def)
  obtain orig bytes tmp fs1 where l: "tx_calls s t = Loaded (Inr orig)"
    and f: "fs_create (tx_fs s) (temp_path (abs_path (d @ [n])) (rnd t)) = Inr (tmp, fs1)"
    and s': "s' = s\<lparr>tx_fs := fs1(tmp \<mapsto> File (take k bytes))\<rparr>"
    using assms(2) by (auto split: call_state.splits sum.splits option.splits)
  have dir: "tx_fs s d = Some Dir" using R(2) l by (auto simp: files_rel_def)
  have lk: "t \<in> locking call" using calls_relD(7) [OF R(1), of t] l by (simp add: locking_def)
  note T = temp_created [OF R(3) dir settings_names(2) [OF assms(3)], of "rnd t", OF imageI [OF lk] imageI [OF lk]]
  have fs': "tx_fs s' = (tx_fs s)(d @ [temp_name n (rnd t)] \<mapsto> File (take k bytes))" using f T(1) s' by auto
  have "files_rel rnd d n s' a"
    by (rule files_rel_temp [OF R(2) assms(4) _ lk _ _ fs'])
      (use pending_not_loaded [OF R(1) l] pending_locking [OF R(1)] s' in auto)
  moreover have "calls_rel call s' a" using R(1) s' by (simp add: calls_rel_def)
  ultimately show ?thesis using T(2) fs' by (simp add: tx_rel_def)
qed

lemma sim_submit:
  assumes "tx_rel call rnd fs0 d n s a" and "tx_step nfkc call rnd (abs_path (d @ [n])) (Do (Submit t)) s = Some s'"
    and "holds_text r path d n (rnd ` locking call) st0 fs0" and "inj_on rnd (locking call)" and "valid_call (call t)"
  obtains a' where "text_step nfkc call (abs_path (d @ [n])) (Submit t) a = Some a'" "tx_rel call rnd fs0 d n s' a'"
proof -
  let ?p = "abs_path (d @ [n])"
  have R: "calls_rel call s a" "files_rel rnd d n s a" "tree_ok (rnd ` locking call) d n fs0 (tx_fs s)"
    using assms(1) by (simp_all add: tx_rel_def)
  note C = calls_relD [OF R(1)]
  obtain x where x: "tx_calls s t = Loaded x"
    using assms(2) by (auto simp: Let_def split: call_state.splits)
  have tk: "takes_lock (call t)" using C(7) x by simp
  obtain st where st: "sys_calls a t = Loaded st" "call_rel (call t) (Loaded x) (Loaded st)"
    using C(6) [of t] x by auto
  note L = loaded_bytes [where call = call and t = t and nfkc = nfkc, OF st(2) tk assms(5)]
  show thesis
  proof (cases "file_modify nfkc call t st")
    case None
    let ?a = "a\<lparr>sys_calls := (sys_calls a)(t := Settled)\<rparr>"
    have s': "s' = s\<lparr>tx_calls := (tx_calls s)(t := Settled)\<rparr>"
      using assms(2) x L None by (cases x) (simp_all add: Let_def)
    have step: "text_step nfkc call ?p (Submit t) a = Some ?a" using st(1) None by simp
    have "calls_rel call s' ?a"
      by (rule calls_rel_step [OF R(1) step, of _ t Settled Settled]) (simp_all add: s' C tk)
    moreover have "files_rel rnd d n s' ?a" using R(2) s' by (auto simp: files_rel_def)
    ultimately show thesis using R(3) s' by (intro that [OF step]) (simp add: tx_rel_def)
  next
    case (Some st')
    then obtain orig t' where b: "x = Inr orig" "st' = Some t'" "valid_str t'"
        "new_bytes nfkc (call t) orig = Some (utf8_encode t')"
      using L by auto
    have dir: "tx_fs s d = Some Dir" using R(2) x b(1) by (auto simp: files_rel_def)
    have lk: "t \<in> locking call" using tk by (simp add: locking_def)
    note T = temp_created [OF R(3) dir settings_names(2) [OF assms(3)], of "rnd t", OF imageI [OF lk] imageI [OF lk]]
    let ?fs = "(tx_fs s)(d @ [temp_name n (rnd t)] \<mapsto> File (utf8_encode t'))"
    let ?a = "a\<lparr>sys_calls := (sys_calls a)(t := Renaming st'), sys_pending := sys_pending a @ [(t, st')]\<rparr>"
    have s': "s' = s\<lparr>tx_fs := ?fs, tx_calls := (tx_calls s)(t := Renaming (Inr (utf8_encode t'))),
        tx_pending := tx_pending s @ [t]\<rparr>"
      using assms(2) x b(1,4) T(1) by (simp add: Let_def del: temp_path_abs)
    have step: "text_step nfkc call ?p (Submit t) a = Some ?a" using st(1) Some by simp
    have calls: "calls_rel call s' ?a"
      by (rule calls_rel_step [OF R(1) step, of _ t "Renaming (Inr (utf8_encode t'))" "Renaming st'"])
        (simp_all add: s' C tk)
    have "files_rel rnd d n s' a"
      by (rule files_rel_temp [OF R(2) assms(4), where t = t and x = "Some (File (utf8_encode t'))"])
        (use pending_not_loaded [OF R(1) x] pending_locking [OF R(1)] lk s' in \<open>auto split: if_splits\<close>)
    then have "files_rel rnd d n s' ?a"
      using b(2,3) s' dir by (auto simp: files_rel_def text_at_def)
    then show thesis using calls T(2) s' by (intro that [OF step]) (simp add: tx_rel_def)
  qed
qed

lemma without_call_fst: "map fst (without_call t xs) = filter (\<lambda>u. u \<noteq> t) (map fst xs)"
  by (simp add: without_call_def filter_map o_def)

lemma call_rel_settle: "call_rel c x y \<Longrightarrow> (\<And>l. x \<noteq> Loaded l) \<Longrightarrow> call_rel c (settle x) (settle y)"
  by (cases x) auto

lemma pending_both:
  assumes "calls_rel call s a" and "t \<in> set (tx_pending s)"
  obtains st where "map_of (sys_pending a) t = Some st" "(t, st) \<in> set (sys_pending a)"
    "\<And>l. tx_calls s t \<noteq> Loaded l" "takes_lock (call t)"
proof -
  have "t \<in> fst ` set (sys_pending a)" using assms(2) calls_relD(4) [OF assms(1)] by (metis set_map)
  then obtain st where st: "map_of (sys_pending a) t = Some st"
    by (cases "map_of (sys_pending a) t") (auto simp: map_of_eq_None_iff)
  then have mem: "(t, st) \<in> set (sys_pending a)" by (rule map_of_SomeD)
  have no: "tx_calls s t \<noteq> Loaded l" for l using pending_not_loaded [OF assms(1) _ mem] by auto
  have "sys_calls a t \<noteq> Idle" using mq.pending_matchD(1) [OF calls_relD(5) [OF assms(1)] mem] by auto
  then have "tx_calls s t \<noteq> Idle" using calls_relD(6) [OF assms(1), of t] by auto
  then show thesis by (rule that [OF st mem no calls_relD(7) [OF assms(1)]])
qed

lemma sim_land:
  assumes "tx_rel call rnd fs0 d n s a" and "tx_step nfkc call rnd (abs_path (d @ [n])) (Do (Land t)) s = Some s'"
    and "holds_text r path d n (rnd ` locking call) st0 fs0" and "inj_on rnd (locking call)"
  obtains a' where "text_step nfkc call (abs_path (d @ [n])) (Land t) a = Some a'" "tx_rel call rnd fs0 d n s' a'"
proof -
  let ?p = "abs_path (d @ [n])"
  let ?t = "d @ [temp_name n (rnd t)]"
  have R: "calls_rel call s a" "files_rel rnd d n s a" "tree_ok (rnd ` locking call) d n fs0 (tx_fs s)"
    using assms(1) by (simp_all add: tx_rel_def)
  note C = calls_relD [OF R(1)]
  have mem: "t \<in> set (tx_pending s)" using assms(2) by (auto split: if_splits)
  obtain st where st: "map_of (sys_pending a) t = Some st" "(t, st) \<in> set (sys_pending a)"
    "\<And>l. tx_calls s t \<noteq> Loaded l" "takes_lock (call t)"
    using pending_both [OF R(1) mem] by metis
  have F: "tx_fs s d = Some Dir" "st \<noteq> None" "text_at ?t st (tx_fs s)" "text_at (d @ [n]) (sys_store a ?p) (tx_fs s)"
    using R(2) st(2) by (force simp: files_rel_def)+
  then obtain t' where t': "st = Some t'" "valid_str t'" "tx_fs s ?t = Some (File (utf8_encode t'))"
    by (auto simp: text_at_def)
  have wf: "wf_fs (tx_fs s)" using R(3) by (simp add: tree_ok_def)
  have ntarget: "tx_fs s (d @ [n]) \<noteq> Some Dir" using F(4) by (auto simp: text_at_def split: option.splits)
  let ?fs = "(tx_fs s)(?t := None, d @ [n] \<mapsto> File (utf8_encode t'))"
  have ren: "fs_rename (tx_fs s) (temp_path ?p (rnd t)) ?p = Inr ?fs"
    using fs_rename_canonical [OF wf F(1) t'(3) temp_name_neq ntarget] by simp
  let ?a = "a\<lparr>sys_store := (sys_store a)(?p := st), sys_calls := (sys_calls a)(t := settle (sys_calls a t)),
      sys_pending := without_call t (sys_pending a), sys_log := sys_log a @ [t]\<rparr>"
  have s': "s' = s\<lparr>tx_fs := ?fs, tx_calls := (tx_calls s)(t := settle (tx_calls s t)),
      tx_pending := filter (\<lambda>u. u \<noteq> t) (tx_pending s), tx_log := tx_log s @ [t]\<rparr>"
    using assms(2) ren mem by simp
  have step: "text_step nfkc call ?p (Land t) a = Some ?a" using st(1) by simp
  have calls: "calls_rel call s' ?a"
    by (rule calls_rel_step [OF R(1) step, of _ t "settle (tx_calls s t)" "settle (sys_calls a t)"])
      (simp_all add: s' C(1-4) st(4) without_call_fst call_rel_settle [OF C(6) st(3)])
  have lk: "t \<in> locking call" "rnd t \<in> rnd ` locking call" using st(4) by (simp_all add: locking_def)
  let ?s = "s\<lparr>tx_fs := (tx_fs s)(?t := None)\<rparr>"
  have mid: "files_rel rnd d n ?s (a\<lparr>sys_pending := without_call t (sys_pending a)\<rparr>)"
    by (rule files_rel_temp [OF R(2) assms(4), where t = t and x = None])
      (use pending_locking [OF R(1)] lk in \<open>auto simp: without_call_def\<close>)
  have tr1: "tree_ok (rnd ` locking call) d n fs0 ((tx_fs s)(?t := None))"
    by (rule tree_ok_set(2) [OF R(3) F(1) settings_names(2) [OF assms(3) lk(2)]]) (use t'(3) lk in auto)
  have tr: "tree_ok (rnd ` locking call) d n fs0 ?fs"
    by (rule tree_ok_set(1) [OF tr1 _ settings_names(1) [OF assms(3) lk(2)]]) (use F(1) ntarget in auto)
  have ne: "d @ [temp_name n (rnd u)] \<noteq> d @ [n]" "d @ [n] \<noteq> d" for u using temp_name_neq [of n "rnd u"] by auto
  have "files_rel rnd d n s' ?a"
    using mid t'(1,2) text_at_other [OF ne(1)] F(1) unfolding s'
    by (auto simp: files_rel_def) (simp add: text_at_def)
  then show thesis using calls tr s' by (intro that [OF step]) (simp add: tx_rel_def)
qed

lemma fail_locking:
  assumes "calls_rel call s a" and "tx_step nfkc call rnd target (Do (Fail t)) s = Some s'"
  shows "t \<in> locking call"
  using assms(2) calls_relD(7) [OF assms(1), of t] pending_both [OF assms(1), of t]
  by (auto simp: locking_def Let_def split: call_state.splits if_splits)

lemma sim_fail_loaded:
  assumes "tx_rel call rnd fs0 d n s a" and "tx_step nfkc call rnd (abs_path (d @ [n])) (Do (Fail t)) s = Some s'"
    and "holds_text r path d n (rnd ` locking call) st0 fs0" and "inj_on rnd (locking call)"
    and l: "tx_calls s t = Loaded (Inr b)"
  obtains a' where "text_step nfkc call (abs_path (d @ [n])) (Fail t) a = Some a'" "tx_rel call rnd fs0 d n s' a'"
proof -
  let ?p = "abs_path (d @ [n])"
  let ?fs = "remove_quietly (tx_fs s) (temp_path ?p (rnd t))"
  have R: "calls_rel call s a" "files_rel rnd d n s a" "tree_ok (rnd ` locking call) d n fs0 (tx_fs s)"
    using assms(1) by (simp_all add: tx_rel_def)
  note C = calls_relD [OF R(1)]
  note lk = fail_locking [OF R(1) assms(2)]
  note T = temp_created [OF R(3) _ settings_names(2) [OF assms(3)], of "rnd t", OF _ imageI [OF lk] imageI [OF lk]]
  have dir: "tx_fs s d = Some Dir" using R(2) l by (auto simp: files_rel_def)
  obtain st where st: "sys_calls a t = Loaded st" using C(6) [of t] l by auto
  have s': "s' = s\<lparr>tx_fs := ?fs, tx_calls := (tx_calls s)(t := Settled)\<rparr>"
    using assms(2) l by (simp add: Let_def del: temp_path_abs)
  let ?a = "a\<lparr>sys_calls := (sys_calls a)(t := Settled)\<rparr>"
  have step: "text_step nfkc call ?p (Fail t) a = Some ?a" using st by simp
  have calls: "calls_rel call s' ?a"
    by (rule calls_rel_step [OF R(1) step, of _ t Settled Settled]) (simp_all add: s' C l)
  obtain x where x: "?fs = (tx_fs s)(d @ [temp_name n (rnd t)] := x)" using T(4) [OF dir] by blast
  have "files_rel rnd d n s' ?a"
    by (rule files_rel_temp [OF R(2) assms(4), where t = t and x = x])
      (use pending_not_loaded [OF R(1) l] pending_locking [OF R(1)] lk s' x in \<open>auto split: if_splits\<close>)
  then show thesis using calls T(3) [OF dir] s' by (intro that [OF step]) (simp add: tx_rel_def)
qed

lemma sim_fail_pending:
  assumes "tx_rel call rnd fs0 d n s a" and "tx_step nfkc call rnd (abs_path (d @ [n])) (Do (Fail t)) s = Some s'"
    and "holds_text r path d n (rnd ` locking call) st0 fs0" and "inj_on rnd (locking call)"
    and mem: "t \<in> set (tx_pending s)"
  obtains a' where "text_step nfkc call (abs_path (d @ [n])) (Fail t) a = Some a'" "tx_rel call rnd fs0 d n s' a'"
proof -
  let ?p = "abs_path (d @ [n])"
  let ?fs = "remove_quietly (tx_fs s) (temp_path ?p (rnd t))"
  have R: "calls_rel call s a" "files_rel rnd d n s a" "tree_ok (rnd ` locking call) d n fs0 (tx_fs s)"
    using assms(1) by (simp_all add: tx_rel_def)
  note C = calls_relD [OF R(1)]
  note lk = fail_locking [OF R(1) assms(2)]
  note T = temp_created [OF R(3) _ settings_names(2) [OF assms(3)], of "rnd t", OF _ imageI [OF lk] imageI [OF lk]]
  obtain st where st: "map_of (sys_pending a) t = Some st" "(t, st) \<in> set (sys_pending a)"
    "\<And>l. tx_calls s t \<noteq> Loaded l" "takes_lock (call t)"
    using pending_both [OF R(1) mem] by metis
  have dir: "tx_fs s d = Some Dir" using R(2) st(2) by (force simp: files_rel_def)
  have "sys_calls a t \<noteq> Loaded l" for l using mq.pending_matchD(1) [OF C(5) st(2)] by auto
  let ?a = "a\<lparr>sys_calls := (sys_calls a)(t := settle (sys_calls a t)), sys_pending := without_call t (sys_pending a)\<rparr>"
  have step: "text_step nfkc call ?p (Fail t) a = Some ?a"
    using st(1) mq.pending_matchD(1) [OF C(5) st(2)] by auto
  obtain x where x: "?fs = (tx_fs s)(d @ [temp_name n (rnd t)] := x)" using T(4) [OF dir] by blast
  obtain y where s': "s' = s\<lparr>tx_fs := (tx_fs s)(d @ [temp_name n (rnd t)] := y),
      tx_calls := (tx_calls s)(t := settle (tx_calls s t)), tx_pending := filter (\<lambda>u. u \<noteq> t) (tx_pending s)\<rparr>"
    and ok: "tree_ok (rnd ` locking call) d n fs0 (tx_fs s')"
  proof (cases "\<exists>l. tx_calls s t = Renaming l")
    case True
    then show thesis using assms(2) mem x T(3) [OF dir] by (intro that [of x]) (auto simp: Let_def simp del: temp_path_abs)
  next
    case False
    then have "s' = s\<lparr>tx_pending := filter (\<lambda>u. u \<noteq> t) (tx_pending s)\<rparr>" "settle (tx_calls s t) = tx_calls s t"
      using assms(2) mem st(3) by (cases "tx_calls s t"; simp add: Let_def)+
    then show thesis using R(3)
      by (intro that [of "tx_fs s (d @ [temp_name n (rnd t)])"]) (simp_all add: fun_upd_idem)
  qed
  have calls: "calls_rel call s' ?a"
    by (rule calls_rel_step [OF R(1) step, of _ t "settle (tx_calls s t)" "settle (sys_calls a t)"])
      (simp_all add: s' C(1-4) st(4) without_call_fst call_rel_settle [OF C(6) st(3)])
  have "files_rel rnd d n s' ?a"
    by (rule files_rel_temp [OF R(2) assms(4), where t = t and x = y])
      (use pending_locking [OF R(1)] lk s' in \<open>auto simp: without_call_def split: if_splits\<close>)
  then show thesis using calls ok by (intro that [OF step]) (simp add: tx_rel_def)
qed

lemma sim_fail:
  assumes "tx_rel call rnd fs0 d n s a" and "tx_step nfkc call rnd (abs_path (d @ [n])) (Do (Fail t)) s = Some s'"
    and "holds_text r path d n (rnd ` locking call) st0 fs0" and "inj_on rnd (locking call)"
  obtains a' where "text_step nfkc call (abs_path (d @ [n])) (Fail t) a = Some a'" "tx_rel call rnd fs0 d n s' a'"
proof (cases "\<exists>b. tx_calls s t = Loaded (Inr b)")
  case True
  then show thesis using sim_fail_loaded [OF assms] that by blast
next
  case False
  then have "t \<in> set (tx_pending s)"
    using assms(2) by (auto simp: Let_def split: call_state.splits sum.splits if_splits)
  then show thesis using sim_fail_pending [OF assms] that by blast
qed

lemma tx_run_refines:
  assumes "holds_text r path d n (rnd ` locking call) st0 fs0" and "inj_on rnd (locking call)" and "\<forall>t. valid_call (call t)"
    and "tx_run nfkc call rnd (abs_path (d @ [n])) es s = Some s'" and "tx_rel call rnd fs0 d n s a"
  shows "\<exists>a'. sys_run mq_lock mq_drop mq_line (\<lambda>_. abs_path (d @ [n])) (file_modify nfkc call) (steps_of es) a = Some a' \<and>
    tx_rel call rnd fs0 d n s' a'"
  using assms(4,5)
proof (induction es arbitrary: s a)
  case (Cons e es)
  then obtain s1 where s1: "tx_step nfkc call rnd (abs_path (d @ [n])) e s = Some s1"
      "tx_run nfkc call rnd (abs_path (d @ [n])) es s1 = Some s'"
    by (auto split: Option.bind_splits)
  note R = Cons.prems(2)
  show ?case
  proof (cases e)
    case (Spill t k)
    then have "tx_rel call rnd fs0 d n s1 a" using sim_spill [OF R _ assms(1,2)] s1(1) by blast
    then show ?thesis using Cons.IH [OF s1(2)] Spill by simp
  next
    case (Do ev)
    have "\<exists>a1. text_step nfkc call (abs_path (d @ [n])) ev a = Some a1 \<and> tx_rel call rnd fs0 d n s1 a1"
    proof (cases ev)
      case (Request t)
      then show ?thesis using sim_request [OF R] s1(1) Do by metis
    next
      case (Load t)
      then show ?thesis using sim_load [OF R _ assms(1)] s1(1) Do by metis
    next
      case (Submit t)
      then show ?thesis using sim_submit [OF R _ assms(1,2)] assms(3) s1(1) Do by metis
    next
      case (Land t)
      then show ?thesis using sim_land [OF R _ assms(1,2)] s1(1) Do by metis
    next
      case (Fail t)
      then show ?thesis using sim_fail [OF R _ assms(1,2)] s1(1) Do by metis
    next
      case (Drop t)
      then show ?thesis using sim_drop [OF R] s1(1) Do by metis
    qed
    then obtain a1 where a1: "text_step nfkc call (abs_path (d @ [n])) ev a = Some a1" "tx_rel call rnd fs0 d n s1 a1"
      by blast
    then show ?thesis using Cons.IH [OF s1(2) a1(2)] Do by simp
  qed
qed auto

lemma tx_init_rel:
  assumes "holds_text r path d n (rnd ` locking call) st fs" and "locking call \<noteq> {}"
  shows "tx_rel call rnd fs d n (tx_init fs) (sys_init mq_new (\<lambda>_. st))"
proof -
  have "write_setting fs r path d n (rnd t)" if "t \<in> locking call" for t
    using assms(1) that by (simp add: holds_text_def)
  then have "wf_fs fs" "\<forall>t \<in> locking call. fs (d @ [temp_name n (rnd t)]) = None"
    using assms(2) by (auto simp: write_setting_def workspace_def)
  then show ?thesis using assms(1)
    by (auto simp: tx_rel_def calls_rel_def files_rel_def tree_ok_def tx_init_def sys_init_def pending_match_def
        text_at_def holds_text_def)
qed

lemma logged_locking:
  assumes "tx_rel call rnd fs0 d n s a" and "mq_run file modify store es = Some a" and "t \<in> set (tx_log s)"
  shows "t \<in> locking call"
proof -
  have C: "calls_rel call s a" using assms(1) by (simp add: tx_rel_def)
  have "log_match file modify store a" using mq.init_invariants [OF _ _ assms(2)] by simp
  then have "sys_calls a t = Settled \<or> sys_calls a t = Finished"
    using assms(3) calls_relD(3) [OF C] by (simp add: log_match_def)
  then have "tx_calls s t \<noteq> Idle" using calls_relD(6) [OF C, of t] by auto
  then show ?thesis using calls_relD(7) [OF C] by (simp add: locking_def)
qed

text \<open>Without a call that takes the lock nothing happens.\<close>

lemma tx_run_idle:
  assumes "tx_run nfkc call rnd p es (tx_init fs) = Some s" and "locking call = {}"
  shows "s = tx_init fs"
proof (cases es)
  case (Cons e es')
  have "\<not> takes_lock (call t)" for t using assms(2) by (auto simp: locking_def)
  then have "tx_step nfkc call rnd p e (tx_init fs) = None"
  proof (cases e)
    case (Do ev)
    then show ?thesis using \<open>\<And>t. \<not> takes_lock (call t)\<close> by (cases ev) (simp_all add: tx_init_def Let_def)
  qed (simp add: tx_init_def)
  then show ?thesis using assms(1) Cons by simp
qed (use assms(1) in simp)

section \<open>Concurrent calls are as if made in turn\<close>

text \<open>
  C7: Concurrent writes and edits of a file leave what the same calls leave when made in turn. Take
  calls on a path that the sandbox resolves to one file (temporary names free and different, no
  lookup that runs out of links; the file holds a text or does not exist, and what exists on the way
  to it are directories), whose handlers take their steps on the shared file system in any
  order, with failures, cancellations and half-written temporary files anywhere, but so that no call
  gets its turn while a rename onto the file is still pending (which takes a call that was cancelled
  during its rename). Then the calls whose rename was carried out, made one after the other through
  the handlers of the server in that order, all report success and end with exactly the bytes that the
  interleaved calls have left. Everything else is as before, except for temporary files and new
  directories on the way.
\<close>

theorem concurrent_mutations_in_turn:
  assumes "holds_text (cf_workspace config) path d n (rnd ` locking call) st fs" and "inj_on rnd (locking call)"
    and "\<forall>t. valid_call (call t)"
    and "tx_run nfkc call rnd (abs_path (d @ [n])) es (tx_init fs) = Some s" and "tx_early s = []"
  shows "(\<exists>fs'. tool_session nfkc df il config path (map (\<lambda>t. (call t, rnd t)) (tx_log s)) fs =
      (replicate (length (tx_log s)) (Some Changed), fs') \<and> tx_fs s (d @ [n]) = fs' (d @ [n])) \<and>
    (\<forall>q. q \<noteq> d @ [n] \<and> (\<forall>t \<in> locking call. q \<noteq> d @ [temp_name n (rnd t)]) \<longrightarrow>
      tx_fs s q = fs q \<or> fs q = None \<and> tx_fs s q = Some Dir \<and> prefix q d)"
proof (cases "locking call = {}")
  case True
  then show ?thesis using tx_run_idle [OF assms(4)] by (simp add: tx_init_def)
next
  case False
  let ?p = "abs_path (d @ [n])"
  obtain a where run: "mq_run (\<lambda>_. ?p) (file_modify nfkc call) (\<lambda>_. st) (steps_of es) = Some a"
    and rel: "tx_rel call rnd fs d n s a"
    using tx_run_refines [OF assms(1-4) tx_init_rel [OF assms(1) False]] by blast
  have C: "sys_early a = []" "sys_log a = tx_log s" and T: "tree_ok (rnd ` locking call) d n fs (tx_fs s)"
    and text_now: "text_at (d @ [n]) (sys_store a ?p) (tx_fs s)"
    using rel assms(5) by (simp_all add: tx_rel_def calls_rel_def files_rel_def)
  have "log_match (\<lambda>_. ?p) (file_modify nfkc call) (\<lambda>_. st) a" using mq.init_invariants [OF _ _ run] by simp
  then have "replay (\<lambda>_. ?p) (file_modify nfkc call) (tx_log s) (\<lambda>_. st) = Some (sys_store a)"
    using C by (intro replay_by_files) (simp add: log_match_def file_match_def)
  then have spec: "spec_session nfkc il path (map call (tx_log s)) st =
      (replicate (length (tx_log s)) Changed, sys_store a ?p)"
    by (rule replay_is_session)
  note logged = logged_locking [OF rel run]
  let ?calls = "map (\<lambda>t. (call t, rnd t)) (tx_log s)"
  have z: "map fst ?calls = map call (tx_log s)" "set (map snd ?calls) \<subseteq> rnd ` locking call"
    using logged by auto
  obtain fs' where fs': "tool_session nfkc df il config path ?calls fs =
      (map Some (fst (spec_session nfkc il path (map call (tx_log s)) st)), fs')"
    "holds_text (cf_workspace config) path d n (rnd ` locking call)
       (snd (spec_session nfkc il path (map call (tx_log s)) st)) fs'"
    using session_refines_spec [OF assms(1) z(2) refl, of nfkc df il] assms(3) unfolding z(1) by auto
  have "tx_fs s (d @ [n]) = fs' (d @ [n])"
    using fs'(2) text_now unfolding spec by (auto simp: holds_text_def text_at_def split: option.splits)
  then have "\<exists>fs'. tool_session nfkc df il config path ?calls fs =
      (replicate (length (tx_log s)) (Some Changed), fs') \<and> tx_fs s (d @ [n]) = fs' (d @ [n])"
    using fs'(1) unfolding spec by auto
  then show ?thesis using T unfolding tree_ok_def by simp
qed

text \<open>
  A write that is cancelled during its rename, which lands before the next call has its turn, an edit
  of what it wrote, the same edit again, which finds nothing, and an edit whose rename fails.
\<close>

definition rival_calls :: "task \<Rightarrow> file_call" where
  "rival_calls t =
     (if t = 0 then WriteCall (lit ''X1 X2'')
      else if t = 1 \<or> t = 2 then EditCall [\<lparr>old_text = lit ''X1'', new_text = lit ''Q''\<rparr>]
      else if t = 3 then EditCall [\<lparr>old_text = lit ''X2'', new_text = lit ''Z''\<rparr>]
      else ReadCall None None)"

definition rival_names :: "task \<Rightarrow> rstr" where
  "rival_names t = (if t = 0 then lit ''0a'' else if t = 1 then lit ''0b'' else if t = 2 then lit ''0c'' else lit ''0d'')"

definition rival_events :: "tx_event list" where
  "rival_events = [Do (Request 0), Do (Request 1), Do (Load 0), Spill 0 1, Do (Request 2), Do (Submit 0),
     Do (Drop 0), Do (Request 3), Do (Land 0), Do (Load 1), Do (Submit 1), Do (Land 1), Do (Drop 1),
     Do (Load 2), Do (Submit 2), Do (Drop 2), Do (Load 3), Do (Submit 3), Do (Fail 3), Do (Drop 3)]"

lemma rival_locking: "locking rival_calls = {0, 1, 2, 3}"
  by (auto simp: locking_def rival_calls_def lit_def split: if_splits)

theorem concurrent_mutations_in_turn_witness:
  "\<exists>s fs'. tx_run (\<lambda>c. [c]) rival_calls rival_names (abs_path [lit ''ws'', lit ''d'', lit ''new'', lit ''y''])
      rival_events (tx_init (map_of sample_tree)) = Some s \<and>
    tool_session (\<lambda>c. [c]) no_differ no_images session_config (lit ''d/new/y'')
      (map (\<lambda>t. (rival_calls t, rival_names t)) [0, 1]) (map_of sample_tree) = ([Some Changed, Some Changed], fs') \<and>
    fs' [lit ''ws'', lit ''d'', lit ''new'', lit ''y''] = Some (File (utf8_encode (lit ''Q X2'')))"
proof -
  let ?d = "[lit ''ws'', lit ''d'', lit ''new'']"
  let ?p = "abs_path (?d @ [lit ''y''])"
  have "(case tx_run (\<lambda>c. [c]) rival_calls rival_names ?p rival_events (tx_init (map_of sample_tree)) of
      Some s \<Rightarrow> tx_log s = [0, 1] \<and> tx_early s = [] \<and>
        tx_fs s (?d @ [lit ''y'']) = Some (File (utf8_encode (lit ''Q X2'')))
    | None \<Rightarrow> False)"
    by code_simp
  then obtain s where s: "tx_run (\<lambda>c. [c]) rival_calls rival_names ?p rival_events (tx_init (map_of sample_tree)) = Some s"
      "tx_log s = [0, 1]" "tx_early s = []" "tx_fs s (?d @ [lit ''y'']) = Some (File (utf8_encode (lit ''Q X2'')))"
    by (auto split: option.splits)
  have h: "holds_text (cf_workspace session_config) (lit ''d/new/y'') ?d (lit ''y'')
      (rival_names ` locking rival_calls) None (map_of sample_tree)"
    using session_sample_holds by (auto simp: session_config_def session_sample_def holds_text_def rival_locking rival_names_def)
  have i: "inj_on rival_names (locking rival_calls)"
    unfolding rival_locking by (auto simp: inj_on_def rival_names_def lit_def)
  have v: "\<forall>t. valid_call (rival_calls t)"
    by (auto simp: rival_calls_def valid_str_def scalar_def lit_def)
  show ?thesis
    using concurrent_mutations_in_turn [OF h i v s(1,3), of no_differ no_images] s by (auto simp: s(2))
qed

text \<open>
  The condition on turns is needed. A write is cancelled while it waits for its rename; the next
  write gets the lock, replaces the file and reports success; then the first rename is carried out
  and the file has the text of the cancelled call.
\<close>

definition late_calls :: "task \<Rightarrow> file_call" where
  "late_calls t = WriteCall (if t = 0 then lit ''old'' else lit ''new'')"

definition late_tx_events :: "tx_event list" where
  "late_tx_events = [Do (Request 0), Do (Load 0), Do (Submit 0), Do (Drop 0), Do (Request 1), Do (Load 1),
     Do (Submit 1), Do (Land 1), Do (Drop 1), Do (Land 0)]"

lemma cancelled_write_lands_late:
  "case tx_run (\<lambda>c. [c]) late_calls rival_names (abs_path [lit ''ws'', lit ''f'']) late_tx_events
      (tx_init (map_of sample_tree)) of
     None \<Rightarrow> False
   | Some s \<Rightarrow> tx_log s = [1, 0] \<and> tx_early s = [1] \<and>
       tx_fs s [lit ''ws'', lit ''f''] = Some (File (utf8_encode (lit ''old'')))"
  by code_simp

end
