(* ===== verification/Link_Limit.thy ===== *)
theory Link_Limit
  imports Workspace_Path
begin

text \<open>
  What the sandbox of \<^theory_text>\<open>fs/path.rs\<close> does when a request runs into the kernel's limit on symbolic
  links: the one case in which a returned path can lead out of the workspace.
\<close>

section \<open>Running out of links\<close>

text \<open>
  The loop takes every failure of \<^theory_text>\<open>canonicalize\<close> for a path that does not exist. A request
  that needs more links than the kernel follows fails with \<^theory_text>\<open>ELOOP\<close>; shortening it uses up
  fewer links, so the loop can stop at a directory inside the workspace and re-append a name that
  is itself a link. The returned path needs fewer links than the request and can be opened.
\<close>

definition link_chain :: "fpath \<Rightarrow> char \<Rightarrow> nat \<Rightarrow> rstr \<Rightarrow> (fpath \<times> node) list" where
  "link_chain d c n t =
     map (\<lambda>i. (d @ [lit [c] @ dec i], Link (if i + 1 = n then t else lit [c] @ dec (i + 1)))) [0..<n]"

definition chain_tree :: "(fpath \<times> node) list" where
  "chain_tree =
     [([], Dir), ([lit ''ws''], Dir), ([lit ''ws'', lit ''d''], Dir), ([lit ''etc''], Dir),
      ([lit ''etc'', lit ''passwd''], File [1])]
     @ link_chain [lit ''ws''] (CHR ''l'') 20 (lit ''d'')
     @ link_chain [lit ''ws'', lit ''d''] (CHR ''k'') 21 (lit ''/etc/passwd'')"

lemma link_limit_escape:
  "workspace (map_of chain_tree) [lit ''ws''] \<and>
   resolve_in_workspace (map_of chain_tree) (abs_path [lit ''ws'']) (lit ''l0/k0'')
     = Inr (abs_path [lit ''ws'', lit ''d'', lit ''k0'']) \<and>
   canonicalize (map_of chain_tree) (abs_path [lit ''ws'', lit ''d'', lit ''k0''])
     = Inr [lit ''etc'', lit ''passwd'']"
proof (intro conjI)
  show "workspace (map_of chain_tree) [lit ''ws'']"
    unfolding workspace_def by (rule conjI, rule wf_fs_map_of) code_simp+
  show "resolve_in_workspace (map_of chain_tree) (abs_path [lit ''ws'']) (lit ''l0/k0'')
     = Inr (abs_path [lit ''ws'', lit ''d'', lit ''k0''])"
    by code_simp
  show "canonicalize (map_of chain_tree) (abs_path [lit ''ws'', lit ''d'', lit ''k0''])
     = Inr [lit ''etc'', lit ''passwd'']"
    by code_simp
qed

end
