(* ===== verification/Repository_Tests.thy ===== *)
theory Repository_Tests
  imports File_Session Bash_Tool Environment Router
begin

text \<open>
  The unit tests of the repository, evaluated on the model: what the tests in \<^theory_text>\<open>src/mcp-server/src\<close>
  say of concrete inputs, each lemma under the name of its test. They tie the definitions to the
  behaviour the authors have observed of the code. Tests that need a shell, the image crate, several
  threads or inputs of many kilobytes are not here.
\<close>

section \<open>Texts and files\<close>

definition text_lines :: "string list \<Rightarrow> rstr" where
  "text_lines ls = concat (map (\<lambda>l. lit l @ [nl]) ls)"

definition crlf_lines :: "string list \<Rightarrow> rstr" where
  "crlf_lines ls = concat (map (\<lambda>l. lit l @ [cr, nl]) ls)"

text \<open>A workspace with one file, and what an edit or a read of it gives.\<close>

definition test_fs :: "rstr \<Rightarrow> rstr \<Rightarrow> fs" where
  "test_fs name t = map_of [([], Dir), ([lit ''etc''], Dir), ([lit ''etc'', lit ''passwd''], File []),
     ([lit ''ws''], Dir), ([lit ''ws-evil''], Dir), ([lit ''ws'', lit ''a''], Dir),
     ([lit ''ws'', lit ''escape''], Link (lit ''/etc'')), ([lit ''ws'', lit ''self''], Link (lit ''/ws'')),
     ([lit ''ws'', name], File (utf8_encode t))]"

definition edit_test :: "rstr \<Rightarrow> (rstr \<times> rstr) list \<Rightarrow> rstr + rstr option" where
  "edit_test t es =
     (case edit_run (\<lambda>c. [c]) no_differ (abs_path [lit ''ws'']) (test_fs (lit ''f.rs'') t) (test_fs (lit ''f.rs'') t)
         \<lparr>ep_path = lit ''f.rs'', ep_edits = map (\<lambda>(old, new). \<lparr>old_text = old, new_text = new\<rparr>) es\<rparr>
         (lit ''00'') no_faults of
        (Some (Inl e), _) \<Rightarrow> Inl e
      | (Some (Inr _), hist) \<Rightarrow>
          Inr (case last hist [lit ''ws'', lit ''f.rs''] of Some (File b) \<Rightarrow> utf8_decode b | _ \<Rightarrow> None)
      | (None, _) \<Rightarrow> Inr None)"

definition read_test :: "rstr \<Rightarrow> rstr \<Rightarrow> u32 option \<Rightarrow> u32 option \<Rightarrow> rstr + rstr" where
  "read_test t path offset limit =
     map_sum id ro_content (read_run no_images (abs_path [lit ''ws'']) (test_fs (lit ''n.txt'') t) path offset limit)"

section \<open>\<^theory_text>\<open>fs/text.rs\<close>\<close>

lemma bom_strip_and_restore_roundtrip:
  "strip_bom (lit ''hello'') = (False, lit ''hello'')"
  "strip_bom ([0xFEFF] @ lit ''hello'') = (True, lit ''hello'')"
  "restore_bom True (lit ''hello'') = utf8_encode ([0xFEFF] @ lit ''hello'')"
  "restore_bom False (lit ''x'') = utf8_encode (lit ''x'')"
  by code_simp+

lemma crlf_detection:
  "is_crlf (crlf_lines [''a'', ''b''])" "is_crlf (crlf_lines [''a'', ''b'', ''c'', ''d''])"
  "\<not> is_crlf (text_lines [''a'', ''b''])" "\<not> is_crlf (lit ''single line'')" "\<not> is_crlf []"
  "\<not> is_crlf (crlf_lines [''a''] @ text_lines [''b'', ''c'', ''d''])"
  by code_simp+

lemma adopt_line_endings_matches_target_style:
  "adopt_line_endings (lit ''x'' @ [nl] @ lit ''y'') True = lit ''x'' @ [cr, nl] @ lit ''y''"
  "adopt_line_endings (lit ''x'' @ [cr, nl] @ lit ''y'') True = lit ''x'' @ [cr, nl] @ lit ''y''"
  "adopt_line_endings (lit ''x'' @ [cr, nl] @ lit ''y'') False = lit ''x'' @ [nl] @ lit ''y''"
  "adopt_line_endings (lit ''x'' @ [nl] @ lit ''y'') False = lit ''x'' @ [nl] @ lit ''y''"
  by code_simp+

section \<open>\<^theory_text>\<open>output/truncate.rs\<close>\<close>

lemma head_small_text_untouched:
  "take_head (text_lines [''a'', ''b'', ''c'']) MAX_LINES MAX_BYTES =
     \<lparr>h_text = text_lines [''a'', ''b'', ''c''], h_kept_lines = 3, h_byte_limited = False, h_first_line_too_big = False\<rparr>"
  by code_simp

lemma tail_small_text_untouched:
  "map_option (\<lambda>t. (t_truncated t, t_text t)) (take_tail (text_lines [''a'', ''b'']) MAX_LINES MAX_BYTES)
     = Some (False, text_lines [''a'', ''b''])"
  by code_simp

lemma count_lines_variants:
  "count_lines [] = 0" "count_lines (lit ''one'') = 1" "count_lines (text_lines [''one'']) = 1"
  "count_lines (text_lines [''one''] @ lit ''two'') = 2" "count_lines (text_lines [''one'', ''two'']) = 2"
  by code_simp+

lemma kb_formatting:
  "format_kb (50 * 1024) = lit ''50.0KB''" "format_kb (60 * 1024) = lit ''60.0KB''" "format_kb 85350 = lit ''83.3KB''"
  by code_simp+

section \<open>\<^theory_text>\<open>fs/path.rs\<close>\<close>

abbreviation resolve_test :: "string \<Rightarrow> path_error + path" where
  "resolve_test p \<equiv> resolve_in_workspace (test_fs (lit ''f.rs'') []) (abs_path [lit ''ws'']) (lit p)"

lemma accepts_relative_and_absolute_inside:
  "resolve_test ''src/main.rs'' = Inr (abs_path [lit ''ws'', lit ''src'', lit ''main.rs''])"
  "resolve_test ''src/../a.txt'' = Inr (abs_path [lit ''ws'', lit ''a.txt''])"
  "resolve_test ''/ws/x'' = Inr (abs_path [lit ''ws'', lit ''x''])"
  "resolve_test ''.'' = Inr (abs_path [lit ''ws''])"
  "resolve_test ''deep/nested/new.txt'' = Inr (abs_path [lit ''ws'', lit ''deep'', lit ''nested'', lit ''new.txt''])"
  by code_simp+

lemma rejects_escape_attempts:
  "list_all (\<lambda>p. isl (resolve_test p))
     [''../etc/passwd'', ''../../etc/passwd'', ''a/../../escape.txt'', ''/etc/passwd'', ''/etc'', ''..'', ''/tmp'']"
  "isl (resolve_test ''/ws-evil'')"
  by code_simp+

lemma rejects_symlink_escape:
  "isl (resolve_test ''escape/passwd'')" "isl (resolve_test ''escape'')" "isl (resolve_test ''escape/newfile.txt'')"
  "resolve_test ''self/a.txt'' = Inr (abs_path [lit ''ws'', lit ''a.txt''])"
  by code_simp+

section \<open>\<^theory_text>\<open>tools/edit.rs\<close>\<close>

lemma single_replacement_with_diff:
  "edit_test (text_lines [''fn main() {'', ''    todo!()'', ''}'']) [(lit ''todo!()'', lit ''unimplemented!()'')]
     = Inr (Some (text_lines [''fn main() {'', ''    unimplemented!()'', ''}'']))"
  by code_simp

lemma multiple_disjoint_replacements:
  "edit_test (text_lines [''const PORT: u16 = 3000;'', '''', ''fn bye() {'', ''    println!(bye);'', ''}''])
      [(lit ''const PORT: u16 = 3000;'', lit ''const PORT: u16 = 8080;''), (lit ''println!(bye);'', lit ''println!(goodbye);'')]
     = Inr (Some (text_lines [''const PORT: u16 = 8080;'', '''', ''fn bye() {'', ''    println!(goodbye);'', ''}'']))"
  by code_simp

lemma all_edits_match_against_original_content:
  "edit_test (text_lines [''X1 X2'']) [(lit ''X1'', lit ''Q X2''), (lit ''X2'', lit ''Z'')] = Inr (Some (text_lines [''Q X2 Z'']))"
  by code_simp

lemma not_found_messages:
  "edit_test (text_lines [''alpha'']) [(lit ''delta'', lit ''x'')] = Inl (lit ''Could not find the text in f.rs.''
     @ [nl] @ lit ''The oldText must identify the intended text in the file.'')"
  "edit_test (text_lines [''alpha'']) [(lit ''alpha'', lit ''ok''), (lit ''delta'', lit ''x'')]
     = Inl (lit ''Could not find edits[1] in f.rs.'' @ [nl]
         @ lit ''Provide a larger unique oldText block from the current file contents.'')"
  by code_simp+

lemma duplicate_match_message:
  "edit_test (text_lines [''ha ha ha'']) [(lit ''ha'', lit ''x'')] = Inl (lit ''Found 3 occurrences of the text in f.rs.''
     @ [nl] @ lit ''Each oldText must be unique. Please provide more context to make it unique.'')"
  "edit_test (text_lines [''unique'', ''ha ha ha ha'']) [(lit ''unique'', lit ''u''), (lit ''ha'', lit ''x'')]
     = Inl (lit ''Found 4 occurrences of edits[1] in f.rs.''
         @ [nl] @ lit ''Each oldText must be unique. Please provide more context to make it unique.'')"
  by code_simp+

lemma rejected_edits:
  "edit_test (text_lines [''a'']) [([], lit ''x'')] = Inl (lit ''oldText must not be empty'')"
  "edit_test (text_lines [''same'']) [(lit ''same'', lit ''same'')] = Inl (lit ''No changes made to f.rs.''
     @ [nl] @ lit ''The replacement produced identical content.'')"
  "edit_test (text_lines [''abcdef'']) [(lit ''abcd'', lit ''X''), (lit ''cdef'', lit ''Y'')]
     = Inl (lit ''edits[0] and edits[1] overlap in f.rs.'' @ [nl] @ lit ''Merge them into one edit or target disjoint regions.'')"
  by code_simp+

lemma crlf_preserved_and_matched:
  "edit_test (crlf_lines [''a'', ''b'', ''c'']) [(lit ''a'' @ [nl] @ lit ''b'', lit ''X'' @ [nl] @ lit ''Y'')]
     = Inr (Some (crlf_lines [''X'', ''Y'', ''c'']))"
  "edit_test (crlf_lines [''a'', ''b'']) [(lit ''a'' @ [cr, nl] @ lit ''b'', lit ''Z'')] = Inr (Some (crlf_lines [''Z'']))"
  by code_simp+

lemma bom_preserved:
  "edit_test ([0xFEFF] @ text_lines [''hello world'']) [(lit ''hello'', lit ''goodbye'')]
     = Inr (Some ([0xFEFF] @ text_lines [''goodbye world'']))"
  by code_simp

lemma unicode_exact_match:
  "edit_test (lit ''fn h'' @ [0xE9] @ lit ''llo() { '' @ [0x4E16, 0x754C] @ text_lines ['' }''])
      [([0x4E16, 0x754C], [0x4E16, 0x754C, 32, 0x1F980])]
     = Inr (Some (lit ''fn h'' @ [0xE9] @ lit ''llo() { '' @ [0x4E16, 0x754C, 32, 0x1F980] @ text_lines ['' }'']))"
  by code_simp

lemma smart_quote_normalization:
  "edit_test (lit ''print('' @ [0x2018] @ lit ''hello'' @ [0x2019] @ text_lines ['');''])
      [(lit ''print('' @ [39] @ lit ''hello'' @ [39] @ lit '');'', lit ''print(hi);'')]
     = Inr (Some (text_lines [''print(hi);'']))"
  by code_simp

lemma unicode_dash_normalization:
  "edit_test (lit ''foo'' @ [0x2014] @ text_lines [''bar'']) [(lit ''foo-bar'', lit ''X'')] = Inr (Some (text_lines [''X'']))"
  by code_simp

lemma trailing_whitespace_normalization:
  "edit_test (text_lines [''hello   '', ''world'']) [(text_lines [''hello''], text_lines [''hi''])]
     = Inr (Some (text_lines [''hi'', ''world'']))"
  by code_simp

lemma special_space_normalization:
  "edit_test (lit ''a'' @ [0xA0] @ text_lines [''b'']) [(lit ''a b'', lit ''X'')] = Inr (Some (text_lines [''X'']))"
  by code_simp

lemma normalized_ambiguous_match_still_errors:
  "edit_test ([0x2018, 97, 0x2019, 32, 0x2018, 97, 0x2019] @ [nl]) [([39, 97, 39], lit ''x'')]
     = Inl (lit ''Found 2 occurrences of the text in f.rs.''
         @ [nl] @ lit ''Each oldText must be unique. Please provide more context to make it unique.'')"
  by code_simp

section \<open>\<^theory_text>\<open>tools/read.rs\<close>\<close>

lemma small_file_returns_everything:
  "read_test (text_lines [''line1'', ''line2'', ''line3'']) (lit ''n.txt'') None None
     = Inr (text_lines [''line1'', ''line2'', ''line3''])"
  by code_simp

lemma offset_and_limit_window:
  "read_test (text_lines [''1'', ''2'', ''3'', ''4'', ''5'']) (lit ''n.txt'') (Some 2) (Some 2)
     = Inr (text_lines [''2''] @ lit ''3'' @ [nl, nl] @ lit ''[2 more lines in file. Use offset=4 to continue.]'')"
  by code_simp

lemma offset_beyond_eof_is_error:
  "read_test (text_lines [''1'', ''2'']) (lit ''n.txt'') (Some 5000) None
     = Inl (lit ''Offset 5000 is beyond end of file (2 lines total)'')"
  by code_simp

lemma empty_file_notice: "read_test [] (lit ''n.txt'') None None = Inr (lit ''(file is empty)'')"
  by code_simp

lemma unicode_and_crlf_content_preserved:
  "read_test (lit ''h'' @ [0xE9] @ lit ''llo '' @ [0x2192, 32, 0x4E16, 0x754C, 32, 0x1F980, nl]) (lit ''n.txt'') None None
     = Inr (lit ''h'' @ [0xE9] @ lit ''llo '' @ [0x2192, 32, 0x4E16, 0x754C, 32, 0x1F980, nl])"
  "read_test (crlf_lines [''a'', ''b'']) (lit ''n.txt'') None None = Inr (crlf_lines [''a'', ''b''])"
  by code_simp+

lemma binary_non_image_rejected:
  "read_test [0, 1, 0, 2] (lit ''n.txt'') None None
     = Inl (lit ''n.txt appears to be a binary file; use bash to inspect it'')"
  by code_simp

lemma relative_and_absolute_paths:
  "read_test (text_lines [''content'']) (lit ''a/../n.txt'') None None = Inr (text_lines [''content''])"
  "read_test (text_lines [''content'']) (lit ''/ws/n.txt'') None None = Inr (text_lines [''content''])"
  by code_simp+

lemma rejects_path_traversal_and_symlink_escape:
  "list_all (\<lambda>p. read_test [] (lit p) None None = Inl (lit ''path escapes the workspace: '' @ lit p))
     [''../../etc/passwd'', ''/etc/passwd'', ''nested/../../escape.txt'', ''/ws-evil'', ''escape/passwd'']"
  by code_simp

lemma file_not_found_message:
  "read_test [] (lit ''missing.txt'') None None = Inl (lit ''File not found: missing.txt'')"
  by code_simp

lemma zero_offset_and_limit_rejected:
  "read_test (text_lines [''1'']) (lit ''n.txt'') (Some 0) None = Inl (lit ''Invalid offset: must be at least 1 (lines are 1-based)'')"
  "read_test (text_lines [''1'']) (lit ''n.txt'') None (Some 0) = Inl (lit ''Invalid limit: must be at least 1'')"
  by code_simp+

section \<open>Commands\<close>

text \<open>The values of the test are 30.0, 1.5, 0.0, -1.0, NaN and infinity.\<close>

lemma timeout_validation:
  "validate_timeout None = Some (Inr None)"
  "validate_timeout (Some (Fin False 30 1)) = Some (Inr (Some (from_secs 30)))"
  "validate_timeout (Some (Fin False 3 2)) = Some (Inr (Some (1500 * 10 ^ 6)))"
  "list_all (\<lambda>bad. validate_timeout (Some bad)
       = Some (Inl (lit ''Invalid timeout: must be a finite number of seconds'')))
     [Fin False 0 1, Fin True 1 1, NaN, Infinite False]"
  by code_simp+

text \<open>A command that was reaped, with its exit code and what its pipes gave.\<close>

definition command_test :: "duration option \<Rightarrow> bool \<Rightarrow> exit_status \<Rightarrow> rstr \<Rightarrow> rstr \<Rightarrow> (int \<times> rstr) option" where
  "command_test timeout in_time status stdout stderr =
     (case bash_run (Inr (Some 9)) timeout in_time (Inr status)
         [\<lparr>ck_seq = 0, ck_stderr = False, ck_bytes = utf8_encode stdout\<rparr>,
          \<lparr>ck_seq = 1, ck_stderr = True, ck_bytes = utf8_encode stderr\<rparr>] (lit ''ab'') (Inr ()) of
        Some (Inr out, None) \<Rightarrow> Some (bo_exit_code out, bo_output out)
      | _ \<Rightarrow> None)"

lemma echo_hello_exit_code_stdout_stderr:
  "command_test (Some (from_secs 30)) True (Exited 3) (text_lines [''hello'']) (text_lines [''err''])
   = Some (3, text_lines [''hello'', ''err'', ''''] @ lit ''Command exited with code 3'')"
  by code_simp

lemma no_output_success:
  "command_test (Some (from_secs 10)) True (Exited 0) [] [] = Some (0, lit ''(no output)'')"
  by code_simp

lemma no_output_failure_keeps_message:
  "command_test (Some (from_secs 10)) True (Exited 7) [] [] = Some (7, lit ''Command exited with code 7'')"
  by code_simp

lemma timeout_preserves_partial_output:
  "command_test (Some (from_secs 2)) False (Exited 0) (text_lines [''starting'', ''test1'']) []
   = Some (124, text_lines [''starting'', ''test1'', ''''] @ lit ''Command timed out after 2 seconds'')"
  by code_simp

lemma fractional_timeout_message:
  "command_test (Some (500 * 10 ^ 6)) False (Exited 0) [] []
   = Some (124, lit ''Command timed out after 0.5 seconds'')"
  by code_simp

section \<open>The server\<close>

lemma origin_default_allows_loopback_any_port:
  "list_all (\<lambda>origin. origin_allowed open_config (lit origin))
     [''http://localhost'', ''http://localhost:3000'', ''http://localhost:5173'', ''https://localhost:8443'',
      ''http://127.0.0.1'', ''http://127.0.0.1:8080'', ''http://[::1]:3000'']"
  "list_all (\<lambda>origin. \<not> origin_allowed open_config (lit origin))
     [''http://evil.example.com'', ''https://attacker.io:3000'', ''http://192.168.1.5:3000'',
      ''chrome-extension://abc'', ''null'']"
  by code_simp+

lemma origin_allowlist_exact_match:
  "origin_allowed (open_config\<lparr>cf_allowed_origins := [lit ''https://app.example.com'']\<rparr>)
     (lit ''https://app.example.com'')"
  "\<not> origin_allowed (open_config\<lparr>cf_allowed_origins := [lit ''https://app.example.com'']\<rparr>)
     (lit ''http://localhost:3000'')"
  by code_simp+

lemma matches_equal_and_rejects_different:
  "constant_time_eq (utf8_encode (lit ''abc'')) (utf8_encode (lit ''abc''))"
  "\<not> constant_time_eq (utf8_encode (lit ''abc'')) (utf8_encode (lit ''abd''))"
  "\<not> constant_time_eq (utf8_encode (lit ''abc'')) (utf8_encode (lit ''abcd''))"
  "\<not> constant_time_eq [] (utf8_encode (lit ''a''))"
  by code_simp+

lemma transport_labels_follow_endpoint:
  "transport_of (lit ''/mcp'') = lit ''streamable_http''"
  "transport_of (lit ''/sse'') = lit ''legacy_sse''"
  "transport_of (lit ''/messages'') = lit ''legacy_sse''"
  "transport_of (lit ''/health'') = lit ''http''"
  by code_simp+

lemma unescape_handles_octal_sequences:
  "unescape_mount_point (lit ''/data'') = lit ''/data''"
  "unescape_mount_point (lit ''/my'' @ [92] @ lit ''040data'') = lit ''/my data''"
  "unescape_mount_point (lit ''a'' @ [92] @ lit ''134b'') = lit ''a'' @ [92] @ lit ''b''"
  "unescape_mount_point (lit ''trailing'' @ [92]) = lit ''trailing'' @ [92]"
  by code_simp+

lemma system_mounts_are_filtered:
  "list_all (\<lambda>p. is_system_mount (lit p))
     [''/'', ''/proc'', ''/proc/cpuinfo'', ''/dev/shm'', ''/etc/hosts'', ''/run/secrets'']"
  "list_all (\<lambda>p. \<not> is_system_mount (lit p)) [''/workspace'', ''/data'']"
  by code_simp+

lemma log_clip_truncates_long_subjects:
  "log_clip (lit ''short'') = Some (lit ''short'')"
  "map_option length (log_clip (replicate 400 120)) = Some 301"
  by code_simp+

end
