(* ===== verification/Spec2Isabelle.thy ===== *)
theory Spec2Isabelle
  imports Life_Cycle Confinement Bash_Call Concurrent_Files Link_Limit Repository_Tests
begin

text \<open>
  MCPod: a verification development for the server in \<^theory_text>\<open>src/mcp-server\<close>.

  MCPod is a server that lets an agent work in a container: it offers four tools (read, write,
  edit, bash) over two HTTP transports, behind a bearer token, and confines the file tools to one
  workspace directory. All paths below are relative to \<^theory_text>\<open>src/mcp-server/src\<close>.

  \<^bold>\<open>How a request goes through the program.\<close> \<^theory_text>\<open>server.rs\<close> puts the layers for logging and origins
  (\<^theory_text>\<open>auth.rs\<close>) around the routes; every route but \<^theory_text>\<open>/health\<close> is behind the bearer check. \<^theory_text>\<open>/mcp\<close>
  is served by the rmcp crate, \<^theory_text>\<open>/sse\<close> and \<^theory_text>\<open>/messages\<close> by \<^theory_text>\<open>transport/legacy_sse.rs\<close>, which
  couples the sessions of the clients with service loops of that crate. The loops call the tool
  handlers of \<^theory_text>\<open>server.rs\<close>; these run the tools (\<^theory_text>\<open>tools/\<close>), which use the sandbox, the atomic
  writes and the queue of mutations (\<^theory_text>\<open>fs/\<close>), the truncation of output (\<^theory_text>\<open>output/\<close>) and the
  process groups (\<^theory_text>\<open>process/\<close>). \<^theory_text>\<open>main.rs\<close> reads the configuration (\<^theory_text>\<open>config.rs\<close>) once, binds the
  address, serves, and ends when a signal has cancelled the token that the transports watch.

  \<^bold>\<open>The Rust side.\<close> \<^theory_text>\<open>Prelude\<close> fixes the types (bytes and \<^theory_text>\<open>u32\<close> are words, \<^theory_text>\<open>usize\<close> is a
  natural number, \<^theory_text>\<open>Result\<close> is a sum, a panic is \<^theory_text>\<open>None\<close>). \<^theory_text>\<open>Rust_Str\<close>, \<^theory_text>\<open>Str_Split\<close> and
  \<^theory_text>\<open>Utf8_Lossy\<close> model the methods of \<^theory_text>\<open>str\<close> with byte offsets, boundaries and UTF-8; \<^theory_text>\<open>F64\<close> the
  part of \<^theory_text>\<open>f64\<close> and \<^theory_text>\<open>Duration\<close> in use, with rounding; \<^theory_text>\<open>Ip_Addr\<close> the parser of addresses;
  \<^theory_text>\<open>Paths\<close> and \<^theory_text>\<open>File_System\<close> paths, trees with links and the calls of \<^theory_text>\<open>std::fs\<close>; \<^theory_text>\<open>Http\<close>
  requests, handlers and the locale of a gate.

  \<^bold>\<open>The program.\<close> One theory per component, with the operations under the names of the source:
  \<^item> \<^theory_text>\<open>Text_File\<close> (\<^theory_text>\<open>fs/text.rs\<close>): byte-order mark and line endings. The mark is restored exactly;
    inserted text takes on the endings of the file.
  \<^item> \<^theory_text>\<open>Truncate\<close> (\<^theory_text>\<open>output/truncate.rs\<close>): truncation from the front and from the back. The loops
    are recursions over the pieces; the results are the maximal admissible prefix and suffix.
  \<^item> \<^theory_text>\<open>Edit_Match\<close>, \<^theory_text>\<open>Normal_Segments\<close>, \<^theory_text>\<open>Edit_Apply\<close>, \<^theory_text>\<open>Edit_Tool\<close> (\<^theory_text>\<open>tools/edit.rs\<close>): the exact
    and the normalising search, the overlap check, the replacement from the back, and the whole
    call. The abstract view is that of segments of the text that normalise to pieces
    (\<^theory_text>\<open>Normal_Segments\<close>) and of a simultaneous replacement of disjoint stretches; the lemmas show
    that the code implements it, does not panic, does not depend on the order of the edits, and
    that its errors name what is wrong. A call commits the purely computed contents or nothing.
  \<^item> \<^theory_text>\<open>Workspace_Path\<close>, \<^theory_text>\<open>Link_Limit\<close> (\<^theory_text>\<open>fs/path.rs\<close>): the lexical and the symlink pass of the
    sandbox. An accepted path lies in the workspace and stays there when the kernel looks it up, as
    long as no prefix of it runs out of links; \<^theory_text>\<open>Link_Limit\<close> shows that this condition is needed.
  \<^item> \<^theory_text>\<open>Atomic_Write\<close>, \<^theory_text>\<open>Util\<close> (\<^theory_text>\<open>fs/atomic_write.rs\<close>, \<^theory_text>\<open>util.rs\<close>): the write through a temporary
    file with every intermediate state of the file system as a history, faults being inputs.
  \<^item> \<^theory_text>\<open>Mutation_Queue\<close> (\<^theory_text>\<open>fs/mutation_queue.rs\<close>): the map of fair locks (tokio's documented
    first-in first-out mutex) and a step relation of transactions that can fail and be cancelled at
    any point. The rename is a step of its own, of tokio's blocking pool: it outlives a call that is
    cancelled while it waits for it. The locale \<^theory_text>\<open>lock_lines\<close> states what the clients need of the
    locks; it is interpreted by the queue. A run has the effect of the transactions one after the
    other on every file on which no call has had its turn while a rename was still pending; a
    cancellation during a rename can lose an update, which is shown too.
  \<^item> \<^theory_text>\<open>Write_Tool\<close>, \<^theory_text>\<open>Read_Tool\<close> (\<^theory_text>\<open>tools/write.rs\<close>, \<^theory_text>\<open>tools/read.rs\<close>): the whole calls. What was
    written is read back, failures change nothing but a temporary file that cannot be removed, and
    the replies to a client that reads on cover all lines of a file, with their text up to the line
    breaks at the end of each page and but for pages of white space.
  \<^item> \<^theory_text>\<open>Process_Group\<close>, \<^theory_text>\<open>Output_Collector\<close>, \<^theory_text>\<open>Bash_Tool\<close> (\<^theory_text>\<open>process/process_group.rs\<close>,
    \<^theory_text>\<open>tools/bash.rs\<close>): the life of a command and the concurrent reading of its output as step
    relations with invariants, and the functional part of a call. No process tree is left behind,
    no piece of output is lost or misplaced, and the agent gets the output or the log that has it.
    \<^theory_text>\<open>Bash_Call\<close> runs the three together, in every interleaving, and carries their results to the
    report of a whole call; a run of the call projects to a run of each part.
  \<^item> \<^theory_text>\<open>Config\<close>, \<^theory_text>\<open>Auth\<close> (\<^theory_text>\<open>config.rs\<close>, \<^theory_text>\<open>auth.rs\<close>): the variables and the middleware. A
    configuration that is read provides the workspace the file tools rely on. Both pieces of
    middleware are interpretations of the locale \<^theory_text>\<open>gate\<close>, and so is one behind the other.
  \<^item> \<^theory_text>\<open>Environment\<close>, \<^theory_text>\<open>Instructions\<close> (\<^theory_text>\<open>environment.rs\<close>, \<^theory_text>\<open>instructions.rs\<close>): the resource and the
    text for the agent. Mount points are decoded exactly and listed once, in order.
  \<^item> \<^theory_text>\<open>Legacy_Sse\<close>, \<^theory_text>\<open>Sse_Sessions\<close> (\<^theory_text>\<open>transport/legacy_sse.rs\<close>): the operations of the session
    manager on a store of channels and tokens the tasks share, and all their interleavings. The
    invariant ties the map to the tokens and the events on the wire to the messages sent.
  \<^item> \<^theory_text>\<open>Server\<close>, \<^theory_text>\<open>Router\<close> (\<^theory_text>\<open>server.rs\<close>, \<^theory_text>\<open>transport/streamable_http.rs\<close>): the handlers of the
    tools and resources and the composition of the layers, with the protection they give together.
  \<^item> \<^theory_text>\<open>Lookup_After_Write\<close>, \<^theory_text>\<open>File_Session\<close> (the handlers of \<^theory_text>\<open>server.rs\<close> over the file tools): a
    path that has been written leads to the same place again, in spite of the links that the change
    may have replaced. So any sequence of write, edit and read calls on one path implements an
    abstract file, a variable that holds a text or nothing (\<open>spec_session\<close>); the refinement is
    by induction over the calls, with one simulation lemma per kind of call.
  \<^item> \<^theory_text>\<open>Concurrent_Files\<close> (the queue and the file tools together): the steps of the handlers of write
    and edit calls on one file, interleaved on a shared file system (\<open>tx_step\<close>), refine the
    transactions of \<^theory_text>\<open>Mutation_Queue\<close> on the text of the file, by a simulation with one lemma per step.
    With the same condition they leave in the file what the calls whose rename was carried out leave
    when they are made in turn; without it a cancelled write can overwrite a later one, which is shown.
  \<^item> \<^theory_text>\<open>Confinement\<close> (\<^theory_text>\<open>config.rs\<close> and the handlers of \<^theory_text>\<open>server.rs\<close> together): the locale
    \<open>confined\<close> states what a call may change; the handlers are an interpretation. Sequences of calls,
    one after the other, change nothing outside the workspace that the environment names, as long as
    no call names the workspace itself or a path that runs out of links and temporary names are free;
    calls that overlap with a command can, which is shown too. The bash tool itself is not confined,
    by design.
  \<^item> \<^theory_text>\<open>Entry_Point\<close>, \<^theory_text>\<open>Life_Cycle\<close> (\<^theory_text>\<open>main.rs\<close>): the command line and the start, as a list of
    events and a result, and the process from there to its end, as a step relation over the signal,
    the sweeper and the sessions. The configuration and the router are composed: a token in the
    environment protects every endpoint of the server that is started.
  \<^item> \<^theory_text>\<open>Repository_Tests\<close>: the unit tests of the repository whose inputs are concrete, evaluated on
    the definitions above by the kernel.

  \<^bold>\<open>Parameters.\<close> Code outside the repository is an argument of what uses it: the NFKC tables, the
  diff of \<^theory_text>\<open>similar\<close>, the \<^theory_text>\<open>image\<close> crate and base64 (records of functions), \<^theory_text>\<open>HeaderValue::to_str\<close>,
  the JSON functions, UUIDs, axum's choice of the route, rmcp's services, random bytes and clocks.
  What is assumed of them is a hypothesis of the theorem that needs it: a header is a valid string,
  session ids are fresh, the random part of a temporary name is hexadecimal and its file is new.

  \<^bold>\<open>Bounds and fuel.\<close> No definition of the program runs on fuel: the loops are recursions with a
  termination proof. Only \<open>pages\<close> and \<open>read_all\<close>, the clients that follow the replies
  of the read tool, take a number of steps, and as many steps as there are lines are shown to be
  enough. Path lookup follows at most \<open>max_links\<close> = 40 links, the limit of the kernel, of which
  the recursion makes its measure. The numbers of chunks are natural numbers; their 64 bits are not
  reached.

  \<^bold>\<open>Not modelled.\<close> Setting up the log writer in \<^theory_text>\<open>main.rs\<close>; the module files, which have no
  logic; permissions of files; names that are not Unicode; the keep-alive comments of an event
  stream; JSON encoding and the schemas and descriptions that the rmcp macros take; the tests that
  need a shell, threads or a network. The tree takes any name without a slash: names with a zero byte
  and names that are too long, also by the temporary name, fail in the kernel and enter only as
  faults. The best-effort sync of the directory after a rename has no effect on the tree.
\<close>

end
